(* ===== verification/Prelude.thy ===== *)
theory Prelude
  imports Main "HOL-Library.Word"
begin

text \<open>
  Shared ground of the development: the names of the model's basic types, the
  collection the book proofs draw on, and the generic facts about strings, lists
  and words that more than one component needs.
\<close>

section \<open>Types and collections\<close>

text \<open>
  A \<open>std::uint32_t\<close> is a 32-bit word (arithmetic wraps), a file descriptor and a
  logical owner are C++ \<open>int\<close>s, a \<open>std::string\<close> is a list of bytes, and sizes
  (\<open>std::size_t\<close>) are natural numbers: every size the program keeps is bounded far
  below the width of the type (see the bounds proved for both buffers).
\<close>

type_synonym u32 = "32 word"
type_synonym fd = int
type_synonym owner = int

named_theorems book_simps

abbreviation NL :: char where
  "NL \<equiv> CHR 0x0A"

abbreviation CR :: char where
  "CR \<equiv> CHR 0x0D"

abbreviation TAB :: char where
  "TAB \<equiv> CHR 0x09"

abbreviation SP :: char where
  "SP \<equiv> CHR 0x20"

section \<open>Lists\<close>

text \<open>\<open>std::string::find(char)\<close>: the position of the first occurrence, \<open>npos\<close> is None.\<close>

fun str_find :: "char \<Rightarrow> string \<Rightarrow> nat option" where
  "str_find c [] = None"
| "str_find c (x # xs) = (if x = c then Some 0 else map_option Suc (str_find c xs))"

lemma str_find_None [simp]: "str_find c s = None \<longleftrightarrow> c \<notin> set s"
  by (induction s) auto

lemma str_find_notin [simp]: "c \<notin> set s \<Longrightarrow> str_find c s = None"
  by simp

lemma str_find_SomeD:
  assumes "str_find c s = Some i"
  shows "i < length s \<and> s ! i = c \<and> c \<notin> set (take i s) \<and> s = take i s @ c # drop (Suc i) s"
  using assms
proof (induction s arbitrary: i)
  case Nil
  then show ?case by simp
next
  case (Cons x xs)
  show ?case
  proof (cases "x = c")
    case True
    with Cons.prems show ?thesis by simp
  next
    case False
    with Cons.prems obtain j where j: "str_find c xs = Some j" and i: "i = Suc j"
      by auto
    from Cons.IH [OF j] False i show ?thesis by auto
  qed
qed

lemma str_find_append [simp]: "c \<notin> set xs \<Longrightarrow> str_find c (xs @ c # ys) = Some (length xs)"
  by (induction xs) auto

lemma sum_list_filter_split:
  "sum_list (map f xs) = sum_list (map f (filter P xs)) + sum_list (map (f :: 'a \<Rightarrow> nat) (filter (\<lambda>x. \<not> P x) xs))"
  by (induction xs) auto

lemma distinct_filter_eq:
  "distinct (map f xs) \<Longrightarrow> x \<in> set xs \<Longrightarrow> filter (\<lambda>y. f y = f x) xs = [x]"
  by (induction xs) (auto simp: image_iff filter_empty_conv)

lemma sorted_distinct_strict: "sorted_wrt (<) (xs :: 'a :: linorder list) \<longleftrightarrow> sorted xs \<and> distinct xs"
  by (rule strict_sorted_iff)

section \<open>Words\<close>

lemma unat_min: "unat (min a b) = min (unat a) (unat (b :: 'a :: len word))"
  by (simp add: min_def word_le_nat_alt)

lemma unat_sub_min: "unat (a - min a b) = unat a - unat (min a (b :: 'a :: len word))"
  by (rule unat_sub) simp

lemma unat_sub_min2: "unat (b - min a b) = unat b - unat (min a (b :: 'a :: len word))"
  by (rule unat_sub) simp

lemma word_sub_min_le: "a - min a b \<le> (a :: 'a :: len word)" "b - min a b \<le> b"
  by (simp_all add: word_sub_le)

lemma word_sub_min_eq_0: "a - min a b = 0 \<longleftrightarrow> a \<le> (b :: 'a :: len word)"
  by (auto simp: min_def)

lemma word_sub_min2_eq_0: "b - min a b = 0 \<longleftrightarrow> b \<le> (a :: 'a :: len word)"
  by (auto simp: min_def)

lemma word_less_Suc:
  fixes a b :: "'a :: len word"
  assumes "a < b" and "b + 1 \<noteq> 0"
  shows "a < b + 1"
proof -
  from assms(2) have "unat (b + 1) = Suc (unat b)"
    by (simp add: unatSuc add.commute)
  with assms(1) show ?thesis by (simp add: word_less_nat_alt)
qed

lemma word_self_less_Suc:
  fixes b :: "'a :: len word"
  assumes "b + 1 \<noteq> 0"
  shows "b < b + 1"
  using assms by (simp add: word_less_nat_alt unatSuc add.commute)

end
