(* ===== verification/Net.thy ===== *)
theory Net
  imports Prelude
begin

unbundle bit_operations_syntax

text \<open>
  The operating system as the program sees it, and \<open>src/netutil.hpp\<close>, the wrappers over it.
  The kernel is not part of the program: its answers are a parameter, one queue of answers
  for each kind of call, consumed in the order of the calls; \<open>calls\<close> records every call
  made, so that statements about what the program does to the outside world are statements
  about this trace. A non-blocking \<open>send\<close>, \<open>recv\<close> or \<open>accept\<close> whose answer queue is
  exhausted answers \<open>EAGAIN\<close>, and any other call fails. Every execution of a handler that
  returns is covered by an answer queue long enough for it; an endless run of \<open>EINTR\<close> is not.
\<close>

section \<open>System calls\<close>

text \<open>On FreeBSD \<open>EWOULDBLOCK\<close> is \<open>EAGAIN\<close>: one constructor stands for both.\<close>

datatype errno =
    EINTR | EAGAIN | ECONNABORTED | EMFILE | ENFILE | ECONNRESET | EPIPE | ENOENT
  | EINPROGRESS | EADDRNOTAVAIL | EADDRINUSE | ECONNREFUSED | ETIMEDOUT | EOther nat

datatype 'a sysret = Ret 'a | Fail errno

datatype ev_filter = EVFILT_READ | EVFILT_WRITE | EVFILT_OTHER nat

datatype ev_flag = EV_ADD | EV_ENABLE | EV_DISABLE | EV_DELETE

datatype syscall =
    SysSocket
  | SysSetReuseAddr fd
  | SysInetPton string
  | SysBind fd string "16 word"
  | SysListen fd
  | SysConnect fd string "16 word"
  | SysFcntlGet fd
  | SysFcntlSet fd int
  | SysKqueue
  | SysKevent int fd ev_filter "ev_flag list"
  | SysAccept fd
  | SysRecv fd
  | SysSend fd string
  | SysShutdown fd
  | SysClose fd
  | SysGetrlimit
  | SysSetrlimit int

text \<open>
  \<open>bucket_order\<close> stands for the unspecified iteration order of \<open>std::unordered_map\<close>: an
  arbitrary choice depending on everything that happened and on the keys present.
\<close>

record os =
  ans_send :: "nat sysret list"
  ans_recv :: "string sysret list"
  ans_accept :: "fd sysret list"
  ans_int :: "int sysret list"
  bucket_order :: "syscall list \<Rightarrow> fd list \<Rightarrow> fd list"
  calls :: "syscall list"

definition log_call :: "syscall \<Rightarrow> os \<Rightarrow> os" where
  "log_call c w = w\<lparr>calls := calls w @ [c]\<rparr>"

definition sys_int :: "syscall \<Rightarrow> os \<Rightarrow> int sysret \<times> os" where
  "sys_int c w =
     (case ans_int w of
        [] \<Rightarrow> (Fail (EOther 0), log_call c w)
      | a # as \<Rightarrow> (a, log_call c (w\<lparr>ans_int := as\<rparr>)))"

text \<open>\<open>send\<close>: the trace records the bytes the kernel took, a prefix of what was offered.\<close>

definition sys_send :: "fd \<Rightarrow> string \<Rightarrow> os \<Rightarrow> nat sysret \<times> os" where
  "sys_send f data w =
     (case ans_send w of
        [] \<Rightarrow> (Fail EAGAIN, log_call (SysSend f []) w)
      | Ret n # as \<Rightarrow> (Ret n, log_call (SysSend f (take n data)) (w\<lparr>ans_send := as\<rparr>))
      | Fail e # as \<Rightarrow> (Fail e, log_call (SysSend f []) (w\<lparr>ans_send := as\<rparr>)))"

text \<open>\<open>recv\<close>: at most the \<open>n\<close> bytes asked for; an empty answer is the end of the stream.\<close>

definition sys_recv :: "fd \<Rightarrow> nat \<Rightarrow> os \<Rightarrow> string sysret \<times> os" where
  "sys_recv f n w =
     (case ans_recv w of
        [] \<Rightarrow> (Fail EAGAIN, log_call (SysRecv f) w)
      | Ret b # as \<Rightarrow> (Ret (take n b), log_call (SysRecv f) (w\<lparr>ans_recv := as\<rparr>))
      | Fail e # as \<Rightarrow> (Fail e, log_call (SysRecv f) (w\<lparr>ans_recv := as\<rparr>)))"

definition sys_accept :: "fd \<Rightarrow> os \<Rightarrow> fd sysret \<times> os" where
  "sys_accept f w =
     (case ans_accept w of
        [] \<Rightarrow> (Fail EAGAIN, log_call (SysAccept f) w)
      | a # as \<Rightarrow> (a, log_call (SysAccept f) (w\<lparr>ans_accept := as\<rparr>)))"

text \<open>The bytes a trace sends on one descriptor.\<close>

fun sent :: "fd \<Rightarrow> syscall list \<Rightarrow> string" where
  "sent f [] = []"
| "sent f (SysSend g b # cs) = (if g = f then b @ sent f cs else sent f cs)"
| "sent f (_ # cs) = sent f cs"

lemma sent_append [simp]: "sent f (xs @ ys) = sent f xs @ sent f ys"
  by (induction f xs rule: sent.induct) auto

lemma log_call_fields [simp]:
  "ans_send (log_call c w) = ans_send w" "ans_recv (log_call c w) = ans_recv w"
  "ans_accept (log_call c w) = ans_accept w" "ans_int (log_call c w) = ans_int w"
  "bucket_order (log_call c w) = bucket_order w" "calls (log_call c w) = calls w @ [c]"
  by (simp_all add: log_call_def)

text \<open>The descriptors a trace closes; \<open>keeps_open\<close> says that a step closes none.\<close>

fun closed :: "syscall list \<Rightarrow> fd list" where
  "closed [] = []"
| "closed (SysClose f # cs) = f # closed cs"
| "closed (_ # cs) = closed cs"

lemma closed_append [simp]: "closed (xs @ ys) = closed xs @ closed ys"
  by (induction xs rule: closed.induct) auto

definition keeps_open :: "os \<Rightarrow> os \<Rightarrow> bool" where
  "keeps_open w w' \<longleftrightarrow> (\<exists>cs. calls w' = calls w @ cs \<and> closed cs = [])"

lemma keeps_open_trans: "keeps_open a b \<Longrightarrow> keeps_open b c \<Longrightarrow> keeps_open a c"
  by (auto simp: keeps_open_def)

lemma keeps_open_same [simp]: "calls w' = calls w \<Longrightarrow> keeps_open w w'"
  by (simp add: keeps_open_def)

lemma keeps_open_log [simp]: "closed [c] = [] \<Longrightarrow> calls w' = calls w \<Longrightarrow> keeps_open w (log_call c w')"
  by (simp add: keeps_open_def)

text \<open>
  What a call leaves alone: the answers of the other kinds of call and the iteration order.
  \<open>os_frame\<close> is what every output operation keeps of the kernel side.
\<close>

definition os_frame :: "os \<Rightarrow> os \<Rightarrow> bool" where
  "os_frame w w' \<longleftrightarrow> ans_recv w' = ans_recv w \<and> ans_accept w' = ans_accept w
     \<and> bucket_order w' = bucket_order w \<and> keeps_open w w'"

lemma os_frame_refl [simp]: "os_frame w w"
  by (simp add: os_frame_def)

lemma os_frame_trans: "os_frame a b \<Longrightarrow> os_frame b c \<Longrightarrow> os_frame a c"
  by (auto simp: os_frame_def intro: keeps_open_trans)

lemma os_frame_log [simp]: "closed [c] = [] \<Longrightarrow> os_frame w (log_call c w)"
  by (simp add: os_frame_def)

lemma sys_int_frame:
  "sys_int c w = (r, w') \<Longrightarrow>
     (closed [c] = [] \<longrightarrow> os_frame w w') \<and> ans_send w' = ans_send w \<and> calls w' = calls w @ [c]"
  by (auto simp: sys_int_def os_frame_def split: list.splits)

lemma sys_send_frame: "sys_send f d w = (r, w') \<Longrightarrow> os_frame w w'"
  by (auto simp: sys_send_def os_frame_def split: list.splits sysret.splits)

lemma sys_send_Ret:
  "sys_send f d w = (Ret n, w') \<Longrightarrow> calls w' = calls w @ [SysSend f (take n d)] \<and> length (ans_send w') < length (ans_send w)"
  by (auto simp: sys_send_def split: list.splits sysret.splits)

lemma sys_send_Fail:
  "sys_send f d w = (Fail e, w') \<Longrightarrow> calls w' = calls w @ [SysSend f []]
     \<and> (e \<noteq> EAGAIN \<longrightarrow> length (ans_send w') < length (ans_send w))"
  by (auto simp: sys_send_def split: list.splits sysret.splits)

text \<open>
  The answers of a socket that takes \<open>n\<close> bytes, in whatever portions and with whatever
  interruptions, before any other error.
\<close>

fun willing :: "nat \<Rightarrow> nat sysret list \<Rightarrow> bool" where
  "willing n [] \<longleftrightarrow> n = 0"
| "willing n (Ret k # as) \<longleftrightarrow> n = 0 \<or> 0 < k \<and> willing (n - k) as"
| "willing n (Fail e # as) \<longleftrightarrow> n = 0 \<or> e = EINTR \<and> willing n as"

lemma sys_send_willing:
  assumes "willing n (ans_send w)" and "0 < n" and "sys_send f d w = (a, w')"
  obtains k where "a = Ret k" "0 < k" "willing (n - k) (ans_send w')"
    | "a = Fail EINTR" "willing n (ans_send w')"
  using assms by (cases "(n, ans_send w)" rule: willing.cases) (auto simp: sys_send_def)

text \<open>The bytes a sequence of answers of \<open>recv\<close> delivers, 4096 at most for each call.\<close>

fun recvd :: "string sysret list \<Rightarrow> string" where
  "recvd [] = []"
| "recvd (Ret b # as) = take 4096 b @ recvd as"
| "recvd (Fail e # as) = recvd as"

lemma recvd_append: "recvd (xs @ ys) = recvd xs @ recvd ys"
  by (induction xs rule: recvd.induct) simp_all

lemma sys_recv_used:
  assumes "sys_recv f 4096 w = (a, w')"
  obtains us where "ans_recv w = us @ ans_recv w'" "recvd us = (case a of Ret b \<Rightarrow> b | Fail _ \<Rightarrow> [])"
  using assms by (auto simp: sys_recv_def split: list.splits sysret.splits)

lemma sys_recv_sent: "sys_recv f n w = (a, w') \<Longrightarrow> sent g (calls w') = sent g (calls w)"
  by (auto simp: sys_recv_def split: list.splits sysret.splits)

section \<open>netutil.hpp\<close>

definition O_NONBLOCK :: int where
  "O_NONBLOCK = 4"

definition set_nonblocking :: "fd \<Rightarrow> os \<Rightarrow> bool \<times> os" where
  "set_nonblocking f w =
     (case sys_int (SysFcntlGet f) w of
        (Fail _, w1) \<Rightarrow> (False, w1)
      | (Ret fl, w1) \<Rightarrow>
          (case sys_int (SysFcntlSet f (fl OR O_NONBLOCK)) w1 of
             (Fail _, w2) \<Rightarrow> (False, w2)
           | (Ret _, w2) \<Rightarrow> (True, w2)))"

text \<open>
  \<open>socket\<close>, \<open>setsockopt\<close> (whose failure is only reported), \<open>inet_pton\<close>, \<open>bind\<close>, non-blocking
  mode, \<open>listen\<close>; \<open>-1\<close> on failure, with the descriptor closed.
\<close>

definition make_listen_socket :: "string \<Rightarrow> 16 word \<Rightarrow> os \<Rightarrow> fd \<times> os" where
  "make_listen_socket ip port w =
     (case sys_int SysSocket w of
        (Fail _, w1) \<Rightarrow> (-1, w1)
      | (Ret f, w1) \<Rightarrow>
          (let w2 = snd (sys_int (SysSetReuseAddr f) w1) in
           case sys_int (SysInetPton ip) w2 of
             (r, w3) \<Rightarrow>
               if r \<noteq> Ret 1 then (-1, log_call (SysClose f) w3)
               else (case sys_int (SysBind f ip port) w3 of
                       (Fail _, w4) \<Rightarrow> (-1, log_call (SysClose f) w4)
                     | (Ret _, w4) \<Rightarrow>
                         (case set_nonblocking f w4 of
                            (False, w5) \<Rightarrow> (-1, log_call (SysClose f) w5)
                          | (True, w5) \<Rightarrow>
                              (case sys_int (SysListen f) w5 of
                                 (Fail _, w6) \<Rightarrow> (-1, log_call (SysClose f) w6)
                               | (Ret _, w6) \<Rightarrow> (f, w6))))))"

definition kq_change :: "int \<Rightarrow> fd \<Rightarrow> ev_filter \<Rightarrow> ev_flag list \<Rightarrow> os \<Rightarrow> int \<times> os" where
  "kq_change kq f filt flags w =
     (case sys_int (SysKevent kq f filt flags) w of
        (Ret r, w1) \<Rightarrow> (r, w1)
      | (Fail _, w1) \<Rightarrow> (-1, w1))"

text \<open>The two retry loops: an \<open>EINTR\<close> answer is retried, anything else is returned.\<close>

function safe_recv :: "fd \<Rightarrow> nat \<Rightarrow> os \<Rightarrow> string sysret \<times> os" where
  "safe_recv f n w =
     (case sys_recv f n w of
        (Fail EINTR, w1) \<Rightarrow> safe_recv f n w1
      | (r, w1) \<Rightarrow> (r, w1))"
  by pat_completeness auto
termination
  by (relation "measure (\<lambda>(f, n, w). length (ans_recv w))")
    (auto simp: sys_recv_def split: list.splits sysret.splits)

function safe_send :: "fd \<Rightarrow> string \<Rightarrow> os \<Rightarrow> nat sysret \<times> os" where
  "safe_send f d w =
     (case sys_send f d w of
        (Fail EINTR, w1) \<Rightarrow> safe_send f d w1
      | (r, w1) \<Rightarrow> (r, w1))"
  by pat_completeness auto
termination
  by (relation "measure (\<lambda>(f, d, w). length (ans_send w))")
    (auto simp: sys_send_def split: list.splits sysret.splits)

declare safe_recv.simps [simp del] safe_send.simps [simp del]

lemma kq_change_frame:
  "os_frame w (snd (kq_change kq f filt flags w)) \<and> ans_send (snd (kq_change kq f filt flags w)) = ans_send w
   \<and> calls (snd (kq_change kq f filt flags w)) = calls w @ [SysKevent kq f filt flags]"
  by (auto simp: kq_change_def split: prod.splits sysret.splits dest: sys_int_frame)

lemma set_nonblocking_calls:
  "set_nonblocking f w = (ok, w') \<Longrightarrow> os_frame w w' \<and>
     (ok \<longrightarrow> (\<exists>fl. calls w' = calls w @ [SysFcntlGet f, SysFcntlSet f (fl OR O_NONBLOCK)]))"
  by (auto simp: set_nonblocking_def split: prod.splits sysret.splits dest!: sys_int_frame
      intro: os_frame_trans)



end
