(* ===== verification/Framing.thy ===== *)
theory Framing
  imports Prelude
begin

text \<open>
  \<open>src/framing.hpp\<close>: \<open>LineBuffer\<close>, which cuts the inbound byte stream into lines, and
  \<open>OutBuffer\<close>, the outbound queue with its read offset.
  The inbound side is compared with a reference splitter on whole streams, which shows
  that the lines do not depend on how the stream was cut into reads; the outbound side
  is an implementation of an abstract byte queue, stated as a locale.
\<close>

section \<open>LineBuffer\<close>

datatype LineStatus = Ok | NeedMore | TooLong

record LineBuffer =
  lb_buf :: string

definition kMaxLine :: nat where
  "kMaxLine = 65536"

definition lb_append :: "string \<Rightarrow> LineBuffer \<Rightarrow> LineBuffer" where
  "lb_append p b = b\<lparr>lb_buf := lb_buf b @ p\<rparr>"

text \<open>The statement that drops one trailing carriage return from the assigned line.\<close>

definition strip_cr :: "string \<Rightarrow> string" where
  "strip_cr l = (if l \<noteq> [] \<and> last l = CR then butlast l else l)"

text \<open>
  \<open>next_line\<close> has an out-parameter: the caller's line is passed in and comes back
  unchanged on the two branches that do not assign it.
\<close>

definition next_line :: "string \<Rightarrow> LineBuffer \<Rightarrow> LineStatus \<times> string \<times> LineBuffer" where
  "next_line out b =
     (case str_find NL (lb_buf b) of
        None \<Rightarrow> (if kMaxLine < length (lb_buf b) then TooLong else NeedMore, out, b)
      | Some pos \<Rightarrow> (Ok, strip_cr (take pos (lb_buf b)), b\<lparr>lb_buf := drop (pos + 1) (lb_buf b)\<rparr>))"

definition lb_clear :: "LineBuffer \<Rightarrow> LineBuffer" where
  "lb_clear b = b\<lparr>lb_buf := []\<rparr>"

definition lb_size :: "LineBuffer \<Rightarrow> nat" where
  "lb_size b = length (lb_buf b)"

definition lb_init :: LineBuffer where
  "lb_init = \<lparr>lb_buf = []\<rparr>"

lemma next_line_NL:
  assumes "NL \<notin> set l"
  shows "next_line out \<lparr>lb_buf = l @ NL # r\<rparr> = (Ok, strip_cr l, \<lparr>lb_buf = r\<rparr>)"
  using assms by (simp add: next_line_def)

lemma next_line_no_NL:
  "NL \<notin> set (lb_buf b) \<Longrightarrow>
   next_line out b = (if kMaxLine < length (lb_buf b) then TooLong else NeedMore, out, b)"
  by (simp add: next_line_def)

lemma next_line_Ok_shorter:
  assumes "next_line out b = (Ok, l, b')"
  shows "length (lb_buf b') < length (lb_buf b)"
proof (cases "str_find NL (lb_buf b)")
  case None
  then show ?thesis using assms by (simp add: next_line_def split: if_splits)
next
  case (Some pos)
  from str_find_SomeD [OF this] assms Some show ?thesis
    by (auto simp: next_line_def)
qed

lemma next_line_not_Ok:
  assumes "next_line out b = (st, l, b')" and "st \<noteq> Ok"
  shows "b' = b \<and> l = out \<and> NL \<notin> set (lb_buf b) \<and> (st = TooLong \<longleftrightarrow> kMaxLine < length (lb_buf b))"
  using assms by (auto simp: next_line_def split: option.splits if_splits)

section \<open>Reading every complete line\<close>

text \<open>
  The loop \<open>while (in.next_line(msg) == LineStatus::Ok)\<close> of \<open>client_loop\<close>: the lines
  in order, and the buffer when the loop stops.
\<close>

function drain_lines :: "LineBuffer \<Rightarrow> string list \<times> LineBuffer" where
  "drain_lines b =
     (case next_line [] b of
        (Ok, l, b') \<Rightarrow> (let (ls, b'') = drain_lines b' in (l # ls, b''))
      | (st, l, b') \<Rightarrow> ([], b'))"
  by pat_completeness auto
termination
  by (relation "measure (\<lambda>b. length (lb_buf b))")
    (auto dest: next_line_Ok_shorter [OF sym])

declare drain_lines.simps [simp del]

text \<open>
  The reference: the lines of a whole stream and what follows its last newline.
\<close>

fun split_nl :: "string \<Rightarrow> string list \<times> string" where
  "split_nl [] = ([], [])"
| "split_nl (c # cs) =
     (case split_nl cs of (ls, r) \<Rightarrow>
        if c = NL then ([] # ls, r)
        else (case ls of [] \<Rightarrow> ([], c # r) | l # ls' \<Rightarrow> ((c # l) # ls', r)))"

lemma split_nl_no_NL: "NL \<notin> set r \<Longrightarrow> split_nl r = ([], r)"
  by (induction r) auto

lemma split_nl_line [simp]:
  "NL \<notin> set l \<Longrightarrow> split_nl (l @ NL # r) = (l # fst (split_nl r), snd (split_nl r))"
  by (induction l) (auto split: prod.splits)

lemma split_nl_cases:
  obtains (rest) "NL \<notin> set s" | (line) l r where "NL \<notin> set l" "s = l @ NL # r"
  by (metis in_set_conv_decomp_first)

lemma split_nl_residue: "NL \<notin> set (snd (split_nl s))"
proof (induction s rule: length_induct)
  case (1 s)
  show ?case
  proof (cases s rule: split_nl_cases)
    case rest
    then show ?thesis by (simp add: split_nl_no_NL)
  next
    case (line l r)
    with "1.IH" show ?thesis by simp
  qed
qed

lemma split_nl_append:
  "split_nl (s @ t) =
     (fst (split_nl s) @ fst (split_nl (snd (split_nl s) @ t)), snd (split_nl (snd (split_nl s) @ t)))"
proof (induction s rule: length_induct)
  case (1 s)
  show ?case
  proof (cases s rule: split_nl_cases)
    case rest
    then show ?thesis by (simp add: split_nl_no_NL)
  next
    case (line l r)
    with "1.IH" have "split_nl (r @ t) =
      (fst (split_nl r) @ fst (split_nl (snd (split_nl r) @ t)), snd (split_nl (snd (split_nl r) @ t)))"
      by simp
    with line show ?thesis by simp
  qed
qed

text \<open>The lines of a stream as the reader reports them.\<close>

definition lines :: "string \<Rightarrow> string list" where
  "lines b = map strip_cr (fst (split_nl b))"

lemma lines_NL [simp]: "NL \<notin> set l \<Longrightarrow> lines (l @ NL # r) = strip_cr l # lines r"
  by (simp add: lines_def)

lemma lines_append: "lines (b @ d) = lines b @ lines (snd (split_nl b) @ d)"
  unfolding lines_def by (subst split_nl_append [of b d]) simp

lemma residue_append: "snd (split_nl (b @ d)) = snd (split_nl (snd (split_nl b) @ d))"
  by (subst split_nl_append [of b d]) simp

lemma drain_lines_split:
  "drain_lines b = (map strip_cr (fst (split_nl (lb_buf b))), b\<lparr>lb_buf := snd (split_nl (lb_buf b))\<rparr>)"
proof (induction b rule: drain_lines.induct)
  case (1 b)
  show ?case
  proof (cases "lb_buf b" rule: split_nl_cases)
    case rest
    then show ?thesis
      by (simp add: drain_lines.simps [of b] next_line_no_NL split_nl_no_NL)
  next
    case (line l r)
    then have nl: "next_line [] b = (Ok, strip_cr l, b\<lparr>lb_buf := r\<rparr>)"
      by (simp add: next_line_def)
    with line "1.IH" [OF nl [symmetric] refl refl] show ?thesis
      by (simp add: drain_lines.simps [of b])
  qed
qed

text \<open>Reads arrive in pieces; after each piece the reader drains the complete lines.\<close>

fun feed :: "string list \<Rightarrow> LineBuffer \<Rightarrow> string list \<times> LineBuffer" where
  "feed [] b = ([], b)"
| "feed (p # ps) b =
     (let (ls, b') = drain_lines (lb_append p b); (ls', b'') = feed ps b' in (ls @ ls', b''))"

lemma feed_split:
  assumes "NL \<notin> set (lb_buf b)"
  shows "feed ps b = (map strip_cr (fst (split_nl (lb_buf b @ concat ps))),
                      b\<lparr>lb_buf := snd (split_nl (lb_buf b @ concat ps))\<rparr>)"
  using assms
proof (induction ps arbitrary: b)
  case Nil
  then show ?case by (simp add: split_nl_no_NL)
next
  case (Cons p ps)
  let ?b = "b\<lparr>lb_buf := snd (split_nl (lb_buf b @ p))\<rparr>"
  have "feed ps ?b = (map strip_cr (fst (split_nl (lb_buf ?b @ concat ps))),
                      ?b\<lparr>lb_buf := snd (split_nl (lb_buf ?b @ concat ps))\<rparr>)"
    by (rule Cons.IH) (simp add: split_nl_residue)
  then show ?case
    using split_nl_append [of "lb_buf b @ p" "concat ps"]
    by (simp add: drain_lines_split lb_append_def)
qed

text \<open>
  The lines a reader sees, and the bytes it keeps, depend only on the byte stream: two
  ways of cutting the same stream into reads, fed one read at a time, give the same lines in
  the same order and leave the same residue.
\<close>

lemma feed_segmentation_independent:
  assumes "concat ps = concat qs"
  shows "feed ps lb_init = feed qs lb_init"
  using assms by (simp add: feed_split lb_init_def)

section \<open>OutBuffer\<close>

record OutBuffer =
  ob_data :: string
  ob_off :: nat

definition ob_init :: OutBuffer where
  "ob_init = \<lparr>ob_data = [], ob_off = 0\<rparr>"

definition ob_push :: "string \<Rightarrow> OutBuffer \<Rightarrow> OutBuffer" where
  "ob_push s b = b\<lparr>ob_data := ob_data b @ s\<rparr>"

definition ob_empty :: "OutBuffer \<Rightarrow> bool" where
  "ob_empty b \<longleftrightarrow> length (ob_data b) \<le> ob_off b"

text \<open>The bytes a reader of \<open>ptr()\<close> sees, \<open>len()\<close> of them.\<close>

definition ob_ptr :: "OutBuffer \<Rightarrow> string" where
  "ob_ptr b = drop (ob_off b) (ob_data b)"

definition ob_len :: "OutBuffer \<Rightarrow> nat" where
  "ob_len b = length (ob_data b) - ob_off b"

definition ob_pending :: "OutBuffer \<Rightarrow> nat" where
  "ob_pending b = ob_len b"

definition ob_consume :: "nat \<Rightarrow> OutBuffer \<Rightarrow> OutBuffer" where
  "ob_consume n b =
     (let off = ob_off b + n in
      if length (ob_data b) \<le> off then b\<lparr>ob_data := [], ob_off := 0\<rparr>
      else if 4096 < off then b\<lparr>ob_data := drop off (ob_data b), ob_off := 0\<rparr>
      else b\<lparr>ob_off := off\<rparr>)"

definition ob_clear :: "OutBuffer \<Rightarrow> OutBuffer" where
  "ob_clear b = b\<lparr>ob_data := [], ob_off := 0\<rparr>"

text \<open>
  The representation invariant: the offset never passes the data (so \<open>len()\<close>, an unsigned
  subtraction, does not wrap) and at most 4096 consumed bytes are kept.
\<close>

definition ob_inv :: "OutBuffer \<Rightarrow> bool" where
  "ob_inv b \<longleftrightarrow> ob_off b \<le> length (ob_data b) \<and> ob_off b \<le> 4096"

lemmas ob_defs = ob_init_def ob_push_def ob_empty_def ob_ptr_def ob_len_def ob_pending_def
  ob_consume_def ob_clear_def ob_inv_def

text \<open>
  The interface a user of the queue relies on: a FIFO of bytes with an abstraction function,
  in the shape of an abstract data type.
\<close>

locale byte_queue =
  fixes init :: 'q
    and push :: "string \<Rightarrow> 'q \<Rightarrow> 'q"
    and consume :: "nat \<Rightarrow> 'q \<Rightarrow> 'q"
    and is_empty :: "'q \<Rightarrow> bool"
    and pending :: "'q \<Rightarrow> nat"
    and bytes :: "'q \<Rightarrow> string"
    and inv :: "'q \<Rightarrow> bool"
  assumes bytes_init: "bytes init = []"
    and bytes_push: "inv q \<Longrightarrow> bytes (push s q) = bytes q @ s"
    and bytes_consume: "inv q \<Longrightarrow> bytes (consume n q) = drop n (bytes q)"
    and is_empty_bytes: "inv q \<Longrightarrow> is_empty q \<longleftrightarrow> bytes q = []"
    and pending_bytes: "inv q \<Longrightarrow> pending q = length (bytes q)"
    and inv_init: "inv init"
    and inv_push: "inv q \<Longrightarrow> inv (push s q)"
    and inv_consume: "inv q \<Longrightarrow> inv (consume n q)"

text \<open>A history of a queue: pushes, and sends that hand a prefix of the pending bytes on.\<close>

datatype q_op = Push string | Consume nat

fun q_run ::
  "(string \<Rightarrow> 'q \<Rightarrow> 'q) \<Rightarrow> (nat \<Rightarrow> 'q \<Rightarrow> 'q) \<Rightarrow> ('q \<Rightarrow> string) \<Rightarrow> q_op list \<Rightarrow> 'q \<Rightarrow> string \<times> 'q" where
  "q_run push consume bytes [] q = ([], q)"
| "q_run push consume bytes (Push s # ops) q = q_run push consume bytes ops (push s q)"
| "q_run push consume bytes (Consume n # ops) q =
     (let (w, q') = q_run push consume bytes ops (consume n q) in (take n (bytes q) @ w, q'))"

fun pushed :: "q_op list \<Rightarrow> string" where
  "pushed [] = []"
| "pushed (Push s # ops) = s @ pushed ops"
| "pushed (Consume n # ops) = pushed ops"

context byte_queue
begin

lemma run_fifo:
  "inv q \<Longrightarrow> q_run push consume bytes ops q = (w, q') \<Longrightarrow>
   w @ bytes q' = bytes q @ pushed ops \<and> inv q'"
proof (induction ops arbitrary: q w)
  case Nil
  then show ?case by simp
next
  case (Cons x ops)
  show ?case
  proof (cases x)
    case (Push s)
    with Cons.prems Cons.IH [OF inv_push, of q s w] show ?thesis
      by (simp add: bytes_push)
  next
    case (Consume n)
    with Cons.prems obtain v where v: "q_run push consume bytes ops (consume n q) = (v, q')"
      and w: "w = take n (bytes q) @ v"
      by (auto split: prod.splits)
    from Cons.IH [OF inv_consume [OF Cons.prems(1)] v] have
      "v @ bytes q' = drop n (bytes q) @ pushed ops" and "inv q'"
      using Cons.prems(1) by (simp_all add: bytes_consume)
    then show ?thesis
      using Consume w by (metis append_assoc append_take_drop_id pushed.simps(3))
  qed
qed

end

interpretation ob: byte_queue ob_init ob_push ob_consume ob_empty ob_pending ob_ptr ob_inv
  by unfold_locales (auto simp: ob_defs Let_def add.commute)

text \<open>
  C18: the outbound queue loses, duplicates and reorders no byte, whatever the sizes of the
  partial sends: over any history of pushes and consumes from a fresh \<open>OutBuffer\<close>, the
  bytes handed on followed by the bytes still pending are the bytes pushed, in order; the
  offset stays within the data and at most 4096 consumed bytes are retained.
\<close>

theorem out_buffer_fifo:
  assumes "q_run ob_push ob_consume ob_ptr ops ob_init = (w, q)"
  shows "w @ ob_ptr q = pushed ops \<and> ob_off q \<le> length (ob_data q) \<and> ob_off q \<le> 4096
    \<and> (ob_empty q \<longleftrightarrow> w = pushed ops)"
proof -
  from ob.run_fifo [OF ob.inv_init assms] have 1: "w @ ob_ptr q = pushed ops" and 2: "ob_inv q"
    by (simp_all add: ob.bytes_init)
  from 1 have "ob_ptr q = [] \<longleftrightarrow> w = pushed ops" by auto
  with 1 2 ob.is_empty_bytes [OF 2] show ?thesis by (simp add: ob_inv_def)
qed

theorem out_buffer_fifo_witness:
  "q_run ob_push ob_consume ob_ptr [Push ''OK'', Consume 1, Push ''!'', Consume 1] ob_init
     = (''OK'', \<lparr>ob_data = ''OK!'', ob_off = 2\<rparr>)
   \<and> ''OK'' @ ob_ptr \<lparr>ob_data = ''OK!'', ob_off = 2\<rparr> = pushed [Push ''OK'', Consume 1, Push ''!'', Consume 1]"
proof -
  have r: "q_run ob_push ob_consume ob_ptr [Push ''OK'', Consume 1, Push ''!'', Consume 1] ob_init
     = (''OK'', \<lparr>ob_data = ''OK!'', ob_off = 2\<rparr>)"
    by (simp add: ob_defs)
  with out_buffer_fifo [OF r] show ?thesis by blast
qed

end
