(* ===== verification/Protocol.thy ===== *)
theory Protocol
  imports Framing
begin

text \<open>
  \<open>src/protocol.hpp\<close>: the tokeniser, the strict number parser, the instrument table and
  the builders of every server message. The index walk of the tokeniser is shown equal to a
  reference splitter, the number parser accepts exactly the decimal strings in range, and
  what the builders print is read back by the framing and the tokeniser.
\<close>

section \<open>Constants\<close>

definition kInstruments :: "string list" where
  "kInstruments = [''JNST'', ''IMCT'']"

definition kMinValue :: u32 where
  "kMinValue = 1"

definition kMaxValue :: u32 where
  "kMaxValue = 2147483647"

definition kMaxOrderId :: u32 where
  "kMaxOrderId = 2147483647"

section \<open>Tokenising\<close>

definition is_ws :: "char \<Rightarrow> bool" where
  "is_ws c \<longleftrightarrow> c = SP \<or> c = TAB"

text \<open>\<open>while (i < n && p(s[i])) ++i\<close>, the two inner loops of \<open>split_ws\<close>.\<close>

function skip_while :: "(char \<Rightarrow> bool) \<Rightarrow> string \<Rightarrow> nat \<Rightarrow> nat" where
  "skip_while p s i = (if i < length s \<and> p (s ! i) then skip_while p s (Suc i) else i)"
  by pat_completeness auto
termination
  by (relation "measure (\<lambda>(p, s, i). length s - i)") auto

declare skip_while.simps [simp del]

lemma skip_while_ge: "i \<le> skip_while p s i"
proof (induction p s i rule: skip_while.induct)
  case (1 p s i)
  then show ?case by (subst skip_while.simps) (auto dest: Suc_leD)
qed

lemma skip_while_drop: "drop (skip_while p s i) s = dropWhile p (drop i s)"
proof (induction p s i rule: skip_while.induct)
  case (1 p s i)
  show ?case
  proof (cases "i < length s \<and> p (s ! i)")
    case True
    with 1 have "drop (skip_while p s (Suc i)) s = dropWhile p (drop (Suc i) s)" by simp
    with True show ?thesis
      by (simp add: skip_while.simps [of p s i] Cons_nth_drop_Suc [symmetric])
  next
    case False
    then show ?thesis
      by (cases "i < length s") (simp_all add: skip_while.simps [of p s i] Cons_nth_drop_Suc [symmetric])
  qed
qed

lemma skip_while_gt: "i < length s \<Longrightarrow> p (s ! i) \<Longrightarrow> i < skip_while p s i"
  by (subst skip_while.simps) (simp add: Suc_le_eq [symmetric] skip_while_ge)

lemma skip_while_stop: "skip_while p s i < length s \<Longrightarrow> \<not> p (s ! skip_while p s i)"
proof (induction p s i rule: skip_while.induct)
  case (1 p s i)
  then show ?case by (auto simp: skip_while.simps [of p s i] split: if_splits)
qed

function split_ws_from :: "string \<Rightarrow> nat \<Rightarrow> string list \<Rightarrow> string list" where
  "split_ws_from s i out =
     (if i < length s then
        (let start = skip_while is_ws s i in
         if length s \<le> start then out
         else (let k = skip_while (\<lambda>c. \<not> is_ws c) s start in
               split_ws_from s k (out @ [take (k - start) (drop start s)])))
      else out)"
  by pat_completeness auto
termination
proof (relation "measure (\<lambda>(s, i, out). length s - i)", goal_cases)
  case (2 s i out start k)
  have "\<not> is_ws (s ! start)"
    using 2 skip_while_stop [of is_ws s i] by simp
  then have "start < k"
    using 2 skip_while_gt [of start s "\<lambda>c. \<not> is_ws c"] by simp
  moreover have "i \<le> start"
    using 2 skip_while_ge by simp
  ultimately show ?case using 2 by simp
qed simp

declare split_ws_from.simps [simp del]

definition split_ws :: "string \<Rightarrow> string list" where
  "split_ws s = split_ws_from s 0 []"

text \<open>The reference: maximal runs of non-blank characters, from the left.\<close>

function tokens :: "string \<Rightarrow> string list" where
  "tokens s =
     (let r = dropWhile is_ws s in
      if r = [] then []
      else takeWhile (\<lambda>c. \<not> is_ws c) r # tokens (dropWhile (\<lambda>c. \<not> is_ws c) r))"
  by pat_completeness auto
termination
proof (relation "measure length", goal_cases)
  case (2 s r)
  then have "r \<noteq> [] \<and> \<not> is_ws (hd r)"
    using hd_dropWhile [of is_ws s] by simp
  then have "length (dropWhile (\<lambda>c. \<not> is_ws c) r) < length r"
    by (cases r) (simp_all add: length_dropWhile_le le_imp_less_Suc)
  moreover have "length r \<le> length s"
    using 2 by (simp add: length_dropWhile_le)
  ultimately show ?case by simp
qed simp

declare tokens.simps [simp del]

lemma tokens_blank: "dropWhile is_ws s = [] \<Longrightarrow> tokens s = []"
  by (subst tokens.simps) (simp only: Let_def simp_thms if_True)

lemma tokens_step:
  assumes "dropWhile is_ws s = r" and "r \<noteq> []"
  shows "tokens s = takeWhile (\<lambda>c. \<not> is_ws c) r # tokens (dropWhile (\<lambda>c. \<not> is_ws c) r)"
  using assms by (subst tokens.simps) (simp only: Let_def if_False)

lemma skip_while_take:
  "take (skip_while p s i - i) (drop i s) = takeWhile p (drop i s)"
proof -
  have "drop i s = takeWhile p (drop i s) @ drop (skip_while p s i) s"
    by (simp add: skip_while_drop)
  moreover have "drop (skip_while p s i) s = drop (skip_while p s i - i) (drop i s)"
    using skip_while_ge [of i p s] by simp
  ultimately show ?thesis
    by (metis append_same_eq append_take_drop_id)
qed

lemma split_ws_from_tokens: "split_ws_from s i out = out @ tokens (drop i s)"
proof (induction s i out rule: split_ws_from.induct)
  case (1 s i out)
  let ?st = "skip_while is_ws s i"
  let ?k = "skip_while (\<lambda>c. \<not> is_ws c) s ?st"
  have r: "dropWhile is_ws (drop i s) = drop ?st s" by (simp add: skip_while_drop)
  show ?case
  proof (cases "i < length s \<and> ?st < length s")
    case True
    then have "split_ws_from s i out = split_ws_from s ?k (out @ [take (?k - ?st) (drop ?st s)])"
      by (simp add: split_ws_from.simps [of s i out] Let_def)
    also have "\<dots> = (out @ [take (?k - ?st) (drop ?st s)]) @ tokens (drop ?k s)"
      using True by (intro "1.IH") auto
    finally have e: "split_ws_from s i out = \<dots>" .
    have "tokens (drop i s) = take (?k - ?st) (drop ?st s) # tokens (drop ?k s)"
      using True tokens_step [OF r] by (simp only: skip_while_take skip_while_drop [symmetric]) simp
    with e show ?thesis by simp
  next
    case False
    then have "drop ?st s = []"
      using skip_while_ge [of i is_ws s] by auto
    with r have "tokens (drop i s) = []"
      by (intro tokens_blank) simp
    with False show ?thesis
      by (auto simp: split_ws_from.simps [of s i out] Let_def)
  qed
qed

lemma split_ws_tokens: "split_ws s = tokens s"
  by (simp add: split_ws_def split_ws_from_tokens)

lemma split_ws_eq: "split_ws = tokens"
  by (rule ext) (rule split_ws_tokens)

lemma tokens_Nil [simp]: "tokens [] = []"
  by (rule tokens_blank) simp

lemma tokens_ws [simp]: "is_ws c \<Longrightarrow> tokens (c # s) = tokens s"
  by (subst (1 2) tokens.simps) simp

lemma tokens_word:
  assumes "w \<noteq> []" and "\<forall>c \<in> set w. \<not> is_ws c"
  shows "tokens w = [w]" and "is_ws b \<Longrightarrow> tokens (w @ b # s) = w # tokens s"
proof -
  have tw: "takeWhile (\<lambda>c. \<not> is_ws c) w = w" and dw: "dropWhile (\<lambda>c. \<not> is_ws c) w = []"
    using assms(2) by simp_all
  have d: "dropWhile is_ws (w @ t) = w @ t" for t
    using assms by (cases w) auto
  show "tokens w = [w]"
    using tokens_step [OF d [of "[]"]] assms(1) tw dw by simp
  show "tokens (w @ b # s) = w # tokens s" if "is_ws b"
    using tokens_step [OF d [of "b # s"]] assms that
    by simp
qed

lemma tokens_sound: "w \<in> set (tokens s) \<Longrightarrow> w \<noteq> [] \<and> (\<forall>c \<in> set w. \<not> is_ws c \<and> c \<in> set s)"
proof (induction s rule: tokens.induct)
  case (1 s)
  let ?r = "dropWhile is_ws s"
  have sub: "set ?r \<subseteq> set s" "set (dropWhile (\<lambda>c. \<not> is_ws c) ?r) \<subseteq> set s"
    by (auto dest: set_dropWhileD)
  show ?case
  proof (cases "?r = []")
    case True
    with 1 tokens_blank show ?thesis by fastforce
  next
    case False
    then have h: "\<not> is_ws (hd ?r)" by (rule hd_dropWhile)
    with False have ne: "takeWhile (\<lambda>c. \<not> is_ws c) ?r \<noteq> []" by (cases ?r) auto
    from False 1(2) consider "w = takeWhile (\<lambda>c. \<not> is_ws c) ?r"
      | "w \<in> set (tokens (dropWhile (\<lambda>c. \<not> is_ws c) ?r))"
      using tokens_step [OF refl False] by auto
    then show ?thesis
    proof cases
      case 1
      with ne sub(1) show ?thesis by (auto dest: set_takeWhileD)
    next
      case 2
      from "1.IH" [OF refl False 2] sub(2) show ?thesis by blast
    qed
  qed
qed

text \<open>
  C19: the index walk of \<open>split_ws\<close> terminates and computes the reference tokenisation; every
  token is non-empty, contains no blank and only characters of the input.
\<close>

theorem split_ws_correct:
  "split_ws s = tokens s \<and> list_all (\<lambda>w. w \<noteq> [] \<and> list_all (\<lambda>c. \<not> is_ws c \<and> c \<in> set s) w) (split_ws s)"
  using tokens_sound by (auto simp: split_ws_tokens list_all_iff)

section \<open>Validation\<close>

definition is_digit :: "char \<Rightarrow> bool" where
  "is_digit c \<longleftrightarrow> 48 \<le> (of_char c :: nat) \<and> (of_char c :: nat) \<le> 57"

definition digit_val :: "char \<Rightarrow> nat" where
  "digit_val c = of_char c - 48"

text \<open>The decimal value of a digit string, leading zeros allowed.\<close>

definition dec_val :: "string \<Rightarrow> nat" where
  "dec_val s = foldl (\<lambda>v c. 10 * v + digit_val c) 0 s"

text \<open>
  \<open>strtoull\<close> in base 10 on a string that starts with a digit: the value of the longest
  digit prefix, clamped at \<open>ULLONG_MAX\<close>.
\<close>

definition strtoull :: "string \<Rightarrow> nat" where
  "strtoull s = min (2 ^ 64 - 1) (dec_val (takeWhile is_digit s))"

text \<open>The out-parameter is assigned on success only: None is \<open>return false\<close>.\<close>

definition parse_u32 :: "string \<Rightarrow> u32 \<Rightarrow> u32 \<Rightarrow> u32 option" where
  "parse_u32 s lo hi =
     (if s = [] then None
      else if 10 < length s then None
      else if \<not> list_all is_digit s then None
      else (let v = strtoull s in
            if v < unat lo \<or> unat hi < v then None else Some (of_nat v)))"

lemma dec_val_snoc: "dec_val (s @ [c]) = 10 * dec_val s + digit_val c"
  by (simp add: dec_val_def)

lemma dec_val_Nil [simp]: "dec_val [] = 0"
  by (simp add: dec_val_def)

lemma dec_val_bound: "list_all is_digit s \<Longrightarrow> dec_val s < 10 ^ length s"
proof (induction s rule: rev_induct)
  case Nil
  then show ?case by simp
next
  case (snoc c s)
  then have "dec_val s < 10 ^ length s" and "digit_val c \<le> 9"
    by (auto simp: is_digit_def digit_val_def)
  then have "10 * dec_val s + digit_val c < 10 * 10 ^ length s" by linarith
  then show ?case by (simp add: dec_val_snoc)
qed

lemma strtoull_digits:
  assumes "list_all is_digit s" and "length s \<le> 10"
  shows "strtoull s = dec_val s"
proof -
  have "dec_val s < 10 ^ length s" by (rule dec_val_bound [OF assms(1)])
  also have "\<dots> \<le> 10 ^ 10" using assms(2) by (intro power_increasing) auto
  finally have "dec_val s \<le> 2 ^ 64 - 1" by simp
  moreover have "takeWhile is_digit s = s" using assms(1) by (simp add: list_all_iff)
  ultimately show ?thesis unfolding strtoull_def by (simp only: min_def if_True) simp
qed

lemma parse_u32_iff:
  "parse_u32 s lo hi = Some v \<longleftrightarrow>
     s \<noteq> [] \<and> length s \<le> 10 \<and> list_all is_digit s \<and> dec_val s = unat v \<and> lo \<le> v \<and> v \<le> hi"
proof (cases "s \<noteq> [] \<and> length s \<le> 10 \<and> list_all is_digit s")
  case True
  then have st: "strtoull s = dec_val s" by (simp add: strtoull_digits)
  have "dec_val s \<le> unat hi \<Longrightarrow> unat (of_nat (dec_val s) :: u32) = dec_val s"
    using unsigned_less [of hi, where ?'a = nat] by (simp add: unat_of_nat take_bit_nat_eq_self)
  then have "(unat lo \<le> dec_val s \<and> dec_val s \<le> unat hi \<and> of_nat (dec_val s) = v) \<longleftrightarrow>
      dec_val s = unat v \<and> lo \<le> v \<and> v \<le> hi"
    by (auto simp: word_le_nat_alt)
  with True st show ?thesis by (auto simp: parse_u32_def Let_def)
next
  case False
  then show ?thesis by (auto simp: parse_u32_def)
qed

text \<open>
  C20: \<open>parse_u32\<close> accepts exactly the non-empty strings of at most ten decimal digits whose value
  lies in \<open>[lo, hi]\<close>, and returns that value: the conversion neither overflows nor truncates.
\<close>

theorem parse_u32_exact:
  "parse_u32 s lo hi = Some v \<longleftrightarrow>
     s \<noteq> [] \<and> length s \<le> 10 \<and> list_all is_digit s \<and> dec_val s = unat v \<and> lo \<le> v \<and> v \<le> hi"
  by (rule parse_u32_iff)

section \<open>Instruments\<close>

text \<open>The loop over the two names, unrolled; \<open>-1\<close> when neither matches.\<close>

definition instrument_index :: "string \<Rightarrow> int" where
  "instrument_index s =
     (if s = kInstruments ! 0 then 0 else if s = kInstruments ! 1 then 1 else -1)"

definition inst_name :: "int \<Rightarrow> string" where
  "inst_name i = kInstruments ! nat i"

section \<open>Message builders\<close>

text \<open>\<open>std::to_string\<close> on an unsigned value.\<close>

fun dec_digits :: "nat \<Rightarrow> string" where
  "dec_digits n =
     (if n < 10 then [char_of (48 + n)] else dec_digits (n div 10) @ [char_of (48 + n mod 10)])"

declare dec_digits.simps [simp del]

definition to_string :: "u32 \<Rightarrow> string" where
  "to_string w = dec_digits (unat w)"

definition msg_ok :: string where
  "msg_ok = ''OK'' @ [NL]"

definition msg_error :: "string \<Rightarrow> string" where
  "msg_error reason = ''ERROR '' @ reason @ [NL]"

definition msg_order_accepted :: "u32 \<Rightarrow> string" where
  "msg_order_accepted i = ''ORDER_ACCEPTED '' @ to_string i @ [NL]"

definition msg_order_cancelled :: "u32 \<Rightarrow> string" where
  "msg_order_cancelled i = ''ORDER_CANCELLED '' @ to_string i @ [NL]"

definition msg_exec :: "string \<Rightarrow> int \<Rightarrow> u32 \<Rightarrow> u32 \<Rightarrow> string" where
  "msg_exec verb inst q p =
     verb @ '' '' @ inst_name inst @ '' '' @ to_string q @ '' '' @ to_string p @ [NL]"

definition msg_bought :: "int \<Rightarrow> u32 \<Rightarrow> u32 \<Rightarrow> string" where
  "msg_bought inst q p = msg_exec ''BOUGHT'' inst q p"

definition msg_sold :: "int \<Rightarrow> u32 \<Rightarrow> u32 \<Rightarrow> string" where
  "msg_sold inst q p = msg_exec ''SOLD'' inst q p"

definition msg_trade :: "int \<Rightarrow> u32 \<Rightarrow> u32 \<Rightarrow> string" where
  "msg_trade inst q p = msg_exec ''TRADE'' inst q p"

lemmas msg_defs = msg_ok_def msg_error_def msg_order_accepted_def msg_order_cancelled_def
  msg_exec_def msg_bought_def msg_sold_def msg_trade_def

lemma digit_chars:
  "char_of (48 :: nat) = CHR ''0''" "char_of (49 :: nat) = CHR ''1''" "char_of (50 :: nat) = CHR ''2''"
  "char_of (51 :: nat) = CHR ''3''" "char_of (52 :: nat) = CHR ''4''" "char_of (53 :: nat) = CHR ''5''"
  "char_of (54 :: nat) = CHR ''6''" "char_of (55 :: nat) = CHR ''7''" "char_of (56 :: nat) = CHR ''8''"
  "char_of (57 :: nat) = CHR ''9''"
  by code_simp+

lemma digit_char: "n < 10 \<Longrightarrow> is_digit (char_of (48 + n)) \<and> digit_val (char_of (48 + n)) = (n :: nat)"
  by (simp add: is_digit_def digit_val_def)

lemma dec_digits_props:
  "dec_digits n \<noteq> [] \<and> list_all is_digit (dec_digits n) \<and> dec_val (dec_digits n) = n"
proof (induction n rule: dec_digits.induct)
  case (1 n)
  show ?case
  proof (cases "n < 10")
    case True
    then show ?thesis
      by (simp add: dec_digits.simps [of n] digit_char dec_val_def)
  next
    case False
    with 1 have ih: "dec_digits (n div 10) \<noteq> []" "list_all is_digit (dec_digits (n div 10))"
      "dec_val (dec_digits (n div 10)) = n div 10" by auto
    from False have e: "dec_digits n = dec_digits (n div 10) @ [char_of (48 + n mod 10)]"
      by (simp add: dec_digits.simps [of n])
    show ?thesis
      unfolding e dec_val_snoc using ih digit_char [of "n mod 10"] by simp
  qed
qed

lemma dec_digits_length: "n < 10 ^ Suc k \<Longrightarrow> length (dec_digits n) \<le> Suc k"
proof (induction k arbitrary: n)
  case 0
  then show ?case by (subst dec_digits.simps) simp
next
  case (Suc k)
  have "n div 10 < 10 ^ Suc k" using Suc.prems by simp
  then have "length (dec_digits (n div 10)) \<le> Suc k" by (rule Suc.IH)
  then show ?case by (subst dec_digits.simps) simp
qed

lemma to_string_props:
  "to_string w \<noteq> []" "list_all is_digit (to_string w)" "dec_val (to_string w) = unat w"
  "length (to_string w) \<le> 10"
proof -
  show "to_string w \<noteq> []" "list_all is_digit (to_string w)" "dec_val (to_string w) = unat w"
    using dec_digits_props by (simp_all add: to_string_def)
  have "unat w < 10 ^ Suc 9" using unsigned_less [of w, where ?'a = nat] by simp
  from dec_digits_length [OF this] show "length (to_string w) \<le> 10"
    by (simp add: to_string_def)
qed

text \<open>Printing a number and parsing it back gives the number whenever it lies in the accepted range.\<close>

lemma parse_u32_to_string:
  "parse_u32 (to_string w) lo hi = (if lo \<le> w \<and> w \<le> hi then Some w else None)"
proof (cases "lo \<le> w \<and> w \<le> hi")
  case True
  then show ?thesis using to_string_props by (simp add: parse_u32_iff)
next
  case False
  then have "parse_u32 (to_string w) lo hi \<noteq> Some v" for v
    using to_string_props(3) [of w] by (auto simp: parse_u32_iff word_le_nat_alt)
  with False show ?thesis by (cases "parse_u32 (to_string w) lo hi") auto
qed

lemma digit_not_ws: "is_digit c \<Longrightarrow> \<not> is_ws c \<and> c \<noteq> NL \<and> c \<noteq> CR"
  by (auto simp: is_digit_def is_ws_def)

lemma to_string_no_ws: "c \<in> set (to_string w) \<Longrightarrow> \<not> is_ws c \<and> c \<noteq> NL \<and> c \<noteq> CR"
  using to_string_props(2) [of w] by (auto simp: list_all_iff dest: digit_not_ws)

lemma tokens_to_string [simp]: "tokens (to_string w) = [to_string w]"
  by (rule tokens_word) (auto simp: to_string_props to_string_no_ws)

lemma tokens_word_sp [simp]:
  "w \<noteq> [] \<Longrightarrow> \<forall>c \<in> set w. \<not> is_ws c \<Longrightarrow> tokens (w @ SP # s) = w # tokens s"
  by (rule tokens_word(2)) (auto simp: is_ws_def)

lemma tokens_word_sp2 [simp]:
  "tokens (to_string w @ SP # s) = to_string w # tokens s"
  by (rule tokens_word_sp) (auto simp: to_string_props to_string_no_ws)

subsection \<open>What goes on the wire\<close>

text \<open>
  The server's messages as values, with the text the builders give them and the fields a
  client reads back.
\<close>

datatype server_msg =
    MOk
  | MError string
  | MAccepted u32
  | MCancelled u32
  | MBought int u32 u32
  | MSold int u32 u32
  | MTrade int u32 u32

fun render :: "server_msg \<Rightarrow> string" where
  "render MOk = msg_ok"
| "render (MError r) = msg_error r"
| "render (MAccepted i) = msg_order_accepted i"
| "render (MCancelled i) = msg_order_cancelled i"
| "render (MBought i q p) = msg_bought i q p"
| "render (MSold i q p) = msg_sold i q p"
| "render (MTrade i q p) = msg_trade i q p"

fun msg_fields :: "server_msg \<Rightarrow> string list" where
  "msg_fields MOk = [''OK'']"
| "msg_fields (MError r) = ''ERROR'' # tokens r"
| "msg_fields (MAccepted i) = [''ORDER_ACCEPTED'', to_string i]"
| "msg_fields (MCancelled i) = [''ORDER_CANCELLED'', to_string i]"
| "msg_fields (MBought i q p) = [''BOUGHT'', inst_name i, to_string q, to_string p]"
| "msg_fields (MSold i q p) = [''SOLD'', inst_name i, to_string q, to_string p]"
| "msg_fields (MTrade i q p) = [''TRADE'', inst_name i, to_string q, to_string p]"

text \<open>An instrument index in range; a reason with no line break in it.\<close>

fun wire_ok :: "server_msg \<Rightarrow> bool" where
  "wire_ok (MError r) \<longleftrightarrow> NL \<notin> set r \<and> CR \<notin> set r"
| "wire_ok (MBought i q p) \<longleftrightarrow> i = 0 \<or> i = 1"
| "wire_ok (MSold i q p) \<longleftrightarrow> i = 0 \<or> i = 1"
| "wire_ok (MTrade i q p) \<longleftrightarrow> i = 0 \<or> i = 1"
| "wire_ok _ \<longleftrightarrow> True"

lemma inst_name_word: "i = 0 \<or> i = 1 \<Longrightarrow> inst_name i \<noteq> [] \<and> (\<forall>c \<in> set (inst_name i). \<not> is_ws c \<and> c \<noteq> NL \<and> c \<noteq> CR)"
  by (auto simp: inst_name_def kInstruments_def is_ws_def)

lemma strip_cr_id: "CR \<notin> set l \<Longrightarrow> strip_cr l = l"
  by (metis last_in_set strip_cr_def)

lemma exec_line:
  assumes "verb \<noteq> []" and "\<forall>c \<in> set verb. \<not> is_ws c \<and> c \<noteq> NL \<and> c \<noteq> CR" and "i = 0 \<or> i = 1"
  shows "\<exists>l. msg_exec verb i q p = l @ [NL] \<and> NL \<notin> set l \<and> CR \<notin> set l
    \<and> tokens l = [verb, inst_name i, to_string q, to_string p]"
  using assms inst_name_word [OF assms(3)]
  by (intro exI [of _ "verb @ SP # inst_name i @ SP # to_string q @ SP # to_string p"])
    (auto simp: msg_exec_def dest: to_string_no_ws)

lemma render_line:
  assumes "wire_ok m"
  shows "\<exists>l. render m = l @ [NL] \<and> NL \<notin> set l \<and> CR \<notin> set l \<and> tokens l = msg_fields m"
proof (cases m)
  case MOk
  then show ?thesis
    by (intro exI [of _ "''OK''"]) (simp add: msg_ok_def tokens_word is_ws_def)
next
  case (MError r)
  have "tokens (''ERROR'' @ SP # r) = ''ERROR'' # tokens r"
    by (rule tokens_word_sp) (auto simp: is_ws_def)
  with MError assms show ?thesis
    by (intro exI [of _ "''ERROR'' @ SP # r"]) (simp add: msg_error_def)
next
  case (MAccepted i)
  have "tokens (''ORDER_ACCEPTED'' @ SP # to_string i) = [''ORDER_ACCEPTED'', to_string i]"
    by (subst tokens_word_sp) (auto simp: is_ws_def)
  with MAccepted show ?thesis
    by (intro exI [of _ "''ORDER_ACCEPTED'' @ SP # to_string i"])
      (auto simp: msg_order_accepted_def dest: to_string_no_ws)
next
  case (MCancelled i)
  have "tokens (''ORDER_CANCELLED'' @ SP # to_string i) = [''ORDER_CANCELLED'', to_string i]"
    by (subst tokens_word_sp) (auto simp: is_ws_def)
  with MCancelled show ?thesis
    by (intro exI [of _ "''ORDER_CANCELLED'' @ SP # to_string i"])
      (auto simp: msg_order_cancelled_def dest: to_string_no_ws)
next
  case (MBought i q p)
  with assms exec_line [of "''BOUGHT''" i q p] show ?thesis by (simp add: msg_bought_def is_ws_def)
next
  case (MSold i q p)
  with assms exec_line [of "''SOLD''" i q p] show ?thesis by (simp add: msg_sold_def is_ws_def)
next
  case (MTrade i q p)
  with assms exec_line [of "''TRADE''" i q p] show ?thesis by (simp add: msg_trade_def is_ws_def)
qed

lemma render_split_nl:
  "\<forall>m \<in> set ms. wire_ok m \<Longrightarrow>
   \<exists>ls. split_nl (concat (map render ms)) = (ls, []) \<and> (\<forall>l \<in> set ls. CR \<notin> set l) \<and> map tokens ls = map msg_fields ms"
proof (induction ms)
  case Nil
  then show ?case by simp
next
  case (Cons m ms)
  then obtain l ls where "render m = l @ [NL]" "NL \<notin> set l" "CR \<notin> set l" "tokens l = msg_fields m"
    and "split_nl (concat (map render ms)) = (ls, [])" "\<forall>l \<in> set ls. CR \<notin> set l"
      "map tokens ls = map msg_fields ms"
    using render_line [of m] by auto
  then show ?case by (intro exI [of _ "l # ls"]) simp
qed

text \<open>
  A client that receives the messages the builders produced, cut into reads in any way,
  and tokenises each line, recovers every message with its fields, in order, and keeps no
  stray byte.
\<close>

lemma wire_round_trip:
  assumes "\<forall>m \<in> set ms. wire_ok m" and "concat ps = concat (map render ms)"
  shows "map split_ws (fst (feed ps lb_init)) = map msg_fields ms \<and> snd (feed ps lb_init) = lb_init"
proof -
  obtain ls where ls: "split_nl (concat (map render ms)) = (ls, [])" "\<forall>l \<in> set ls. CR \<notin> set l"
    "map tokens ls = map msg_fields ms"
    using render_split_nl [OF assms(1)] by blast
  from ls(2) have "map strip_cr ls = ls" by (simp add: map_idI strip_cr_id)
  with ls assms(2) show ?thesis by (simp add: feed_split lb_init_def split_ws_eq)
qed

end
