(* ===== verification/Book.thy ===== *)
theory Book
  imports Prelude
begin

text \<open>
  \<open>src/book.hpp\<close> and \<open>src/book.cpp\<close>: orders, trades and the matching engine
  \<open>Exchange\<close> with its two operations. The definitions follow the code: the id counter is
  a 32-bit word that wraps, \<open>orders_\<close> is a map from ids to orders, and each cell of
  \<open>books_[2][2]\<close> maps a price to the queue of ids resting at it. What the operations mean
  is proved in the theory \<open>Book_Spec\<close>.
\<close>

section \<open>Data\<close>

datatype Side = Buy | Sell

definition side_idx :: "Side \<Rightarrow> int" where
  "side_idx s = (if s = Buy then 0 else 1)"

record Order =
  o_id :: u32
  o_side :: Side
  o_inst :: int
  o_price :: u32
  o_remaining :: u32
  o_owner :: owner

record Trade =
  t_inst :: int
  t_qty :: u32
  t_price :: u32
  t_buyer_owner :: owner
  t_seller_owner :: owner

type_synonym orders = "u32 \<rightharpoonup> Order"
type_synonym books = "int \<Rightarrow> int \<Rightarrow> u32 \<rightharpoonup> u32 list"

record Exchange =
  ex_next_id :: u32
  ex_orders :: orders
  ex_books :: books

definition ex_init :: Exchange where
  "ex_init = \<lparr>ex_next_id = 0, ex_orders = Map.empty, ex_books = (\<lambda>_ _. Map.empty)\<rparr>"

text \<open>Replace, or with None erase, one price level of one book.\<close>

definition set_level :: "int \<Rightarrow> int \<Rightarrow> u32 \<Rightarrow> u32 list option \<Rightarrow> books \<Rightarrow> books" where
  "set_level i k p v b = b(i := (b i)(k := (b i k)(p := v)))"

section \<open>Submitting an order\<close>

definition mk_trade :: "Side \<Rightarrow> int \<Rightarrow> u32 \<Rightarrow> u32 \<Rightarrow> owner \<Rightarrow> owner \<Rightarrow> Trade" where
  "mk_trade side inst q price owner other_owner =
     (if side = Buy
      then \<lparr>t_inst = inst, t_qty = q, t_price = price, t_buyer_owner = owner, t_seller_owner = other_owner\<rparr>
      else \<lparr>t_inst = inst, t_qty = q, t_price = price, t_buyer_owner = other_owner, t_seller_owner = owner\<rparr>)"

text \<open>
  The matching loop over the queue \<open>dq\<close> of the level found at the incoming price: the
  incoming order's remaining quantity, the queue, the order table and the trades so far are
  its state. A stale id is popped and skipped; a resting order filled to zero is popped and
  erased; otherwise it stays at the front with what is left of it.
\<close>

function match_loop ::
  "Side \<Rightarrow> int \<Rightarrow> u32 \<Rightarrow> owner \<Rightarrow> u32 \<Rightarrow> u32 list \<Rightarrow> orders \<Rightarrow> Trade list
   \<Rightarrow> u32 \<times> u32 list \<times> orders \<times> Trade list" where
  "match_loop side inst price owner rem dq orders out =
     (if 0 < rem \<and> dq \<noteq> [] then
        (let other_id = hd dq in
         case orders other_id of
           None \<Rightarrow> match_loop side inst price owner rem (tl dq) orders out
         | Some other \<Rightarrow>
             (let q = min rem (o_remaining other);
                  rem' = rem - q;
                  other' = other\<lparr>o_remaining := o_remaining other - q\<rparr>;
                  out' = out @ [mk_trade side inst q price owner (o_owner other)]
              in if o_remaining other' = 0
                 then match_loop side inst price owner rem' (tl dq) (orders(other_id := None)) out'
                 else match_loop side inst price owner rem' dq (orders(other_id \<mapsto> other')) out'))
      else (rem, dq, orders, out))"
  by pat_completeness auto
termination
proof (relation "measures [\<lambda>(side, inst, price, owner, rem, dq, orders, out). length dq,
    \<lambda>(side, inst, price, owner, rem, dq, orders, out). unat rem]", goal_cases)
  case (4 side inst price owner rem dq orders out other_id other q rem' other' out')
  then have "o_remaining other - min rem (o_remaining other) \<noteq> 0" by simp
  then have "rem < o_remaining other" unfolding word_sub_min2_eq_0 by simp
  then have "rem' = 0" using 4 by simp
  moreover have "rem \<noteq> 0" using 4(1) by auto
  ultimately show ?case by (simp add: unat_gt_0)
qed (auto simp: Let_def)

declare match_loop.simps [simp del]

text \<open>
  \<open>submit\<close>: take the next id, match against the opposite level at exactly this price, erase
  the level if it was emptied, and rest what remains. \<open>emplace\<close> inserts only when the id is
  not in the table, and \<open>operator[]\<close> creates a missing level.
\<close>

definition emplace_order :: "u32 \<Rightarrow> Order \<Rightarrow> orders \<Rightarrow> orders" where
  "emplace_order i ord m = (case m i of None \<Rightarrow> m(i \<mapsto> ord) | Some _ \<Rightarrow> m)"

definition submit ::
  "Side \<Rightarrow> int \<Rightarrow> u32 \<Rightarrow> u32 \<Rightarrow> owner \<Rightarrow> Trade list \<Rightarrow> Exchange \<Rightarrow> u32 \<times> Trade list \<times> Exchange" where
  "submit side inst qty price owner out ex =
     (let i = ex_next_id ex;
          opp = (if side = Buy then 1 else 0);
          it = ex_books ex inst opp price;
          (rem, dq, orders, out') =
            (case it of None \<Rightarrow> (qty, [], ex_orders ex, out)
             | Some level \<Rightarrow> match_loop side inst price owner qty level (ex_orders ex) out);
          books =
            (case it of None \<Rightarrow> ex_books ex
             | Some _ \<Rightarrow> set_level inst opp price (if dq = [] then None else Some dq) (ex_books ex));
          ord = \<lparr>o_id = i, o_side = side, o_inst = inst, o_price = price, o_remaining = rem, o_owner = owner\<rparr>;
          level = (case books inst (side_idx side) price of None \<Rightarrow> [] | Some d \<Rightarrow> d)
      in (i, out',
          if 0 < rem
          then ex\<lparr>ex_next_id := i + 1, ex_orders := emplace_order i ord orders,
                  ex_books := set_level inst (side_idx side) price (Some (level @ [i])) books\<rparr>
          else ex\<lparr>ex_next_id := i + 1, ex_orders := orders, ex_books := books\<rparr>))"

section \<open>Cancelling an order\<close>

text \<open>\<open>return false\<close> with the error text is Inl, success is Inr of the new exchange.\<close>

definition cancel :: "u32 \<Rightarrow> owner \<Rightarrow> Exchange \<Rightarrow> string + Exchange" where
  "cancel i owner ex =
     (case ex_orders ex i of
        None \<Rightarrow> Inl ''unknown order''
      | Some ord \<Rightarrow>
          if o_owner ord \<noteq> owner then Inl ''not your order''
          else (let k = side_idx (o_side ord);
                    books =
                      (case ex_books ex (o_inst ord) k (o_price ord) of
                         None \<Rightarrow> ex_books ex
                       | Some dq \<Rightarrow>
                           (let dq' = remove1 i dq in
                            set_level (o_inst ord) k (o_price ord)
                              (if dq' = [] then None else Some dq') (ex_books ex)))
                in Inr (ex\<lparr>ex_orders := (ex_orders ex)(i := None), ex_books := books\<rparr>)))"

definition resting_orders :: "Exchange \<Rightarrow> nat" where
  "resting_orders ex = card (dom (ex_orders ex))"

lemma set_level_apply [book_simps]:
  "set_level i k p v b i' k' p' = (if i' = i \<and> k' = k \<and> p' = p then v else b i' k' p')"
  by (simp add: set_level_def)

lemma set_level_same [book_simps]: "b i k p = v \<Longrightarrow> set_level i k p v b = b"
  by (auto simp: set_level_def fun_eq_iff)

lemma side_idx_eq [book_simps]: "side_idx a = side_idx b \<longleftrightarrow> a = b"
  by (cases a; cases b) (simp_all add: side_idx_def)

lemma side_idx_opp [book_simps]: "side_idx a = (if side = Buy then 1 else 0) \<longleftrightarrow> a \<noteq> side"
  by (cases a; cases side) (simp_all add: side_idx_def)

lemma opp_neq_side_idx [book_simps]: "side_idx side \<noteq> (if side = Buy then 1 else 0)"
  by (simp add: side_idx_def)

lemma match_loop_stop:
  "rem = 0 \<or> dq = [] \<Longrightarrow> match_loop side inst price owner rem dq orders out = (rem, dq, orders, out)"
  by (subst match_loop.simps) auto

lemma match_loop_fill:
  assumes "0 < rem" and "orders i = Some ord" and "o_remaining ord \<le> rem"
  shows "match_loop side inst price owner rem (i # dq) orders out =
    match_loop side inst price owner (rem - o_remaining ord) dq (orders(i := None))
      (out @ [mk_trade side inst (o_remaining ord) price owner (o_owner ord)])"
  using assms by (subst match_loop.simps) (simp add: Let_def min_absorb2)

lemma match_loop_partial:
  assumes "0 < rem" and "orders i = Some ord" and "rem < o_remaining ord"
  shows "match_loop side inst price owner rem (i # dq) orders out =
    (0, i # dq, orders(i \<mapsto> ord\<lparr>o_remaining := o_remaining ord - rem\<rparr>),
     out @ [mk_trade side inst rem price owner (o_owner ord)])"
proof -
  have "o_remaining ord - rem \<noteq> 0" using assms(3) by auto
  with assms show ?thesis
    by (subst match_loop.simps) (simp add: Let_def min_absorb1 match_loop_stop)
qed

lemmas submit_eval = submit_def ex_init_def set_level_def side_idx_def emplace_order_def mk_trade_def
  match_loop_fill match_loop_partial match_loop_stop

end
