(* ===== verification/Server.thy ===== *)
theory Server
  imports Net Protocol Book
begin

text \<open>
  \<open>src/server.cpp\<close>: connections, output with backpressure, command handlers and publishing.
  A handler of the class \<open>Server\<close> is a function from the server's state to the server's
  state; a \<open>Conn&\<close> argument is the descriptor under which the connection is kept in
  \<open>conns_\<close>, looked up where the code uses the reference. The event handlers and the loop
  are in the theory \<open>Event_Loop\<close>. Writing to stderr is not modelled.
\<close>

section \<open>State\<close>

datatype Role = Unknown | Trader | MarketData

text \<open>
  \<open>subs[2]\<close> is indexed by the instrument, 0 or 1. The table \<open>conns_\<close> is the map \<open>sv_conns\<close>
  together with the list \<open>sv_keys\<close> of its keys, which iteration needs. \<open>next_owner_\<close> is an \<open>int\<close>
  and \<open>sv_next_owner\<close> its value: the increment that would make it \<open>2^31\<close> is undefined in the
  language, so a state stands for one of the program while \<open>sv_next_owner\<close> is below \<open>2^31\<close>.
\<close>

record Conn =
  c_fd :: fd
  c_owner_id :: owner
  c_role :: Role
  c_username :: string
  c_subs :: "int \<Rightarrow> bool"
  c_in :: LineBuffer
  c_out :: OutBuffer
  c_write_enabled :: bool
  c_closing :: bool
  c_dead :: bool

record Server =
  sv_ip :: string
  sv_port :: "16 word"
  sv_lfd :: fd
  sv_kq :: int
  sv_next_owner :: owner
  sv_conns :: "fd \<rightharpoonup> Conn"
  sv_keys :: "fd list"
  sv_owner_fd :: "owner \<rightharpoonup> fd"
  sv_usernames :: "string set"
  sv_dead :: "fd list"
  sv_exch :: Exchange
  sv_os :: os

definition kMaxOutBytes :: nat where
  "kMaxOutBytes = 8 * 1024 * 1024"

text \<open>A default-constructed connection, with the two fields \<open>on_accept\<close> sets.\<close>

definition new_conn :: "fd \<Rightarrow> owner \<Rightarrow> Conn" where
  "new_conn f ow = \<lparr>c_fd = f, c_owner_id = ow, c_role = Unknown, c_username = [],
     c_subs = (\<lambda>_. False), c_in = lb_init, c_out = ob_init, c_write_enabled = False,
     c_closing = False, c_dead = False\<rparr>"

text \<open>Assignment through a reference into \<open>conns_\<close>, and a change of the kernel side.\<close>

definition upd_conn :: "fd \<Rightarrow> (Conn \<Rightarrow> Conn) \<Rightarrow> Server \<Rightarrow> Server" where
  "upd_conn f g s = s\<lparr>sv_conns := (sv_conns s)(f := map_option g (sv_conns s f))\<rparr>"

definition upd_os :: "(os \<Rightarrow> os) \<Rightarrow> Server \<Rightarrow> Server" where
  "upd_os g s = s\<lparr>sv_os := g (sv_os s)\<rparr>"

text \<open>\<open>nullptr\<close> is None.\<close>

definition find_live :: "fd \<Rightarrow> Server \<Rightarrow> Conn option" where
  "find_live f s = (case sv_conns s f of None \<Rightarrow> None | Some c \<Rightarrow> if c_dead c then None else Some c)"

section \<open>Teardown\<close>

definition close_conn :: "fd \<Rightarrow> Server \<Rightarrow> Server" where
  "close_conn f s =
     (case sv_conns s f of
        None \<Rightarrow> s
      | Some c \<Rightarrow>
          if c_dead c then s
          else s\<lparr>sv_conns := (sv_conns s)(f \<mapsto> c\<lparr>c_dead := True\<rparr>),
                 sv_usernames := (if c_username c \<noteq> [] then sv_usernames s - {c_username c} else sv_usernames s),
                 sv_owner_fd := (sv_owner_fd s)(c_owner_id c := None),
                 sv_os := log_call (SysShutdown (c_fd c)) (sv_os s),
                 sv_dead := sv_dead s @ [c_fd c]\<rparr>)"

definition reap :: "Server \<Rightarrow> Server" where
  "reap s = (fold (\<lambda>f s. s\<lparr>sv_conns := (sv_conns s)(f := None), sv_keys := removeAll f (sv_keys s),
       sv_os := log_call (SysClose f) (sv_os s)\<rparr>)
     (sv_dead s) s)\<lparr>sv_dead := []\<rparr>"

section \<open>Writing\<close>

text \<open>
  The loop of \<open>try_flush\<close>: offer the pending bytes to \<open>send\<close> until the buffer is empty, the
  socket would block, or the connection is broken (an answer of 0 bytes takes the error path).
\<close>

datatype flush_end = Drained | WouldBlock | SendFailed

function flush_loop :: "fd \<Rightarrow> OutBuffer \<Rightarrow> os \<Rightarrow> flush_end \<times> OutBuffer \<times> os" where
  "flush_loop f ob w =
     (if ob_empty ob then (Drained, ob, w)
      else (case sys_send f (ob_ptr ob) w of
              (Ret n, w1) \<Rightarrow> if 0 < n then flush_loop f (ob_consume n ob) w1 else (SendFailed, ob, w1)
            | (Fail e, w1) \<Rightarrow>
                if e = EINTR then flush_loop f ob w1
                else if e = EAGAIN then (WouldBlock, ob, w1)
                else (SendFailed, ob, w1)))"
  by pat_completeness auto
termination
  by (relation "measure (\<lambda>(f, ob, w). length (ans_send w))")
    (auto dest: sys_send_Ret [OF sym] sys_send_Fail [OF sym])

declare flush_loop.simps [simp del]

definition try_flush :: "fd \<Rightarrow> Server \<Rightarrow> Server" where
  "try_flush f s =
     (case sv_conns s f of
        None \<Rightarrow> s
      | Some c \<Rightarrow>
          if c_dead c then s
          else (case flush_loop (c_fd c) (c_out c) (sv_os s) of (r, ob, w) \<Rightarrow>
            (let s1 = upd_conn f (\<lambda>c. c\<lparr>c_out := ob\<rparr>) (s\<lparr>sv_os := w\<rparr>) in
             case r of
               WouldBlock \<Rightarrow>
                 if \<not> c_write_enabled c
                 then upd_conn f (\<lambda>c. c\<lparr>c_write_enabled := True\<rparr>)
                        (upd_os (\<lambda>w. snd (kq_change (sv_kq s) (c_fd c) EVFILT_WRITE [EV_ENABLE] w)) s1)
                 else s1
             | SendFailed \<Rightarrow> close_conn f s1
             | Drained \<Rightarrow>
                 (let s2 = (if c_write_enabled c
                            then upd_conn f (\<lambda>c. c\<lparr>c_write_enabled := False\<rparr>)
                                   (upd_os (\<lambda>w. snd (kq_change (sv_kq s) (c_fd c) EVFILT_WRITE [EV_DISABLE] w)) s1)
                            else s1)
                  in if c_closing c then close_conn f s2 else s2))))"

definition queue_out :: "fd \<Rightarrow> string \<Rightarrow> Server \<Rightarrow> Server" where
  "queue_out f msg s =
     (case sv_conns s f of
        None \<Rightarrow> s
      | Some c \<Rightarrow>
          if c_dead c then s
          else (let ob = ob_push msg (c_out c) in
                if kMaxOutBytes < ob_pending ob
                then close_conn f (upd_conn f (\<lambda>c. c\<lparr>c_out := ob_clear ob\<rparr>) s)
                else try_flush f (upd_conn f (\<lambda>c. c\<lparr>c_out := ob\<rparr>) s)))"

section \<open>Publishing\<close>

text \<open>
  The iteration over \<open>conns_\<close>: some enumeration of the keys, each once.
\<close>

definition conn_iter :: "Server \<Rightarrow> fd list" where
  "conn_iter s =
     (let xs = bucket_order (sv_os s) (calls (sv_os s)) (sv_keys s) in
      if distinct xs \<and> set xs = set (sv_keys s) then xs else sv_keys s)"

definition notify_owner :: "owner \<Rightarrow> string \<Rightarrow> Server \<Rightarrow> Server" where
  "notify_owner ow msg s =
     (case sv_owner_fd s ow of
        None \<Rightarrow> s
      | Some f \<Rightarrow> (case find_live f s of None \<Rightarrow> s | Some _ \<Rightarrow> queue_out f msg s))"

definition publish_to :: "Trade \<Rightarrow> fd \<Rightarrow> Server \<Rightarrow> Server" where
  "publish_to t f s =
     (case sv_conns s f of
        None \<Rightarrow> s
      | Some c \<Rightarrow>
          if c_role c = MarketData \<and> c_subs c (t_inst t) \<and> \<not> c_closing c \<and> \<not> c_dead c
          then queue_out f (msg_trade (t_inst t) (t_qty t) (t_price t)) s
          else s)"

definition publish :: "Trade \<Rightarrow> Server \<Rightarrow> Server" where
  "publish t s =
     (let s1 = notify_owner (t_buyer_owner t) (msg_bought (t_inst t) (t_qty t) (t_price t)) s;
          s2 = notify_owner (t_seller_owner t) (msg_sold (t_inst t) (t_qty t) (t_price t)) s1
      in fold (publish_to t) (conn_iter s2) s2)"

section \<open>Command handlers\<close>

definition with_conn :: "fd \<Rightarrow> Server \<Rightarrow> (Conn \<Rightarrow> Server) \<Rightarrow> Server" where
  "with_conn f s k = (case sv_conns s f of None \<Rightarrow> s | Some c \<Rightarrow> k c)"

definition cmd_login :: "fd \<Rightarrow> string list \<Rightarrow> Server \<Rightarrow> Server" where
  "cmd_login f tk s = with_conn f s (\<lambda>c.
     if length tk \<noteq> 2 then queue_out f (msg_error ''bad arguments'') s
     else if c_role c = MarketData then queue_out f (msg_error ''not permitted for this client type'') s
     else if c_role c = Trader then queue_out f (msg_error ''already logged in'') s
     else if tk ! 1 \<in> sv_usernames s then queue_out f (msg_error ''duplicate username'') s
     else (let s1 = upd_conn f (\<lambda>c. c\<lparr>c_role := Trader, c_username := tk ! 1\<rparr>) s
           in queue_out f msg_ok
                (s1\<lparr>sv_usernames := insert (tk ! 1) (sv_usernames s1),
                    sv_owner_fd := (sv_owner_fd s1)(c_owner_id c \<mapsto> c_fd c)\<rparr>)))"

definition cmd_order :: "fd \<Rightarrow> string list \<Rightarrow> Side \<Rightarrow> Server \<Rightarrow> Server" where
  "cmd_order f tk side s = with_conn f s (\<lambda>c.
     if c_role c = MarketData then queue_out f (msg_error ''not permitted for this client type'') s
     else if c_role c = Unknown then queue_out f (msg_error ''not logged in'') s
     else if length tk \<noteq> 4 then queue_out f (msg_error ''bad arguments'') s
     else (let inst = instrument_index (tk ! 1) in
       if inst < 0 then queue_out f (msg_error ''unknown instrument'') s
       else (case parse_u32 (tk ! 2) kMinValue kMaxValue of
           None \<Rightarrow> queue_out f (msg_error ''bad quantity'') s
         | Some qty \<Rightarrow>
             (case parse_u32 (tk ! 3) kMinValue kMaxValue of
                None \<Rightarrow> queue_out f (msg_error ''bad price'') s
              | Some price \<Rightarrow>
                  (case submit side inst qty price (c_owner_id c) [] (sv_exch s) of (i, trades, ex) \<Rightarrow>
                     fold publish trades (queue_out f (msg_order_accepted i) (s\<lparr>sv_exch := ex\<rparr>)))))))"

definition cmd_cancel :: "fd \<Rightarrow> string list \<Rightarrow> Server \<Rightarrow> Server" where
  "cmd_cancel f tk s = with_conn f s (\<lambda>c.
     if c_role c = MarketData then queue_out f (msg_error ''not permitted for this client type'') s
     else if c_role c = Unknown then queue_out f (msg_error ''not logged in'') s
     else if length tk \<noteq> 2 then queue_out f (msg_error ''bad arguments'') s
     else (case parse_u32 (tk ! 1) 0 kMaxOrderId of
         None \<Rightarrow> queue_out f (msg_error ''bad order id'') s
       | Some i \<Rightarrow>
           (case cancel i (c_owner_id c) (sv_exch s) of
              Inr ex \<Rightarrow> queue_out f (msg_order_cancelled i) (s\<lparr>sv_exch := ex\<rparr>)
            | Inl err \<Rightarrow> queue_out f (msg_error err) s)))"

definition cmd_subscribe :: "fd \<Rightarrow> string list \<Rightarrow> bool \<Rightarrow> Server \<Rightarrow> Server" where
  "cmd_subscribe f tk on s = with_conn f s (\<lambda>c.
     if c_role c = Trader then queue_out f (msg_error ''not permitted for this client type'') s
     else if length tk \<noteq> 2 then queue_out f (msg_error ''bad arguments'') s
     else (let inst = instrument_index (tk ! 1) in
       if inst < 0 then queue_out f (msg_error ''unknown instrument'') s
       else queue_out f msg_ok
              (upd_conn f (\<lambda>c. c\<lparr>c_role := MarketData, c_subs := (c_subs c)(inst := on)\<rparr>) s)))"

definition cmd_quit :: "fd \<Rightarrow> Server \<Rightarrow> Server" where
  "cmd_quit f s = try_flush f (upd_conn f (\<lambda>c. c\<lparr>c_closing := True\<rparr>) s)"

definition handle_line :: "fd \<Rightarrow> string \<Rightarrow> Server \<Rightarrow> Server" where
  "handle_line f line s =
     (let tk = split_ws line in
      if tk = [] then s
      else let v = tk ! 0 in
        if v = ''LOGIN'' then cmd_login f tk s
        else if v = ''BUY'' then cmd_order f tk Buy s
        else if v = ''SELL'' then cmd_order f tk Sell s
        else if v = ''CANCEL'' then cmd_cancel f tk s
        else if v = ''SUBSCRIBE'' then cmd_subscribe f tk True s
        else if v = ''UNSUBSCRIBE'' then cmd_subscribe f tk False s
        else if v = ''QUIT'' then cmd_quit f s
        else queue_out f (msg_error ''unknown command'') s)"

lemma upd_conn_fields [simp]:
  "sv_keys (upd_conn f g s) = sv_keys s" "sv_ip (upd_conn f g s) = sv_ip s" "sv_port (upd_conn f g s) = sv_port s"
  "sv_lfd (upd_conn f g s) = sv_lfd s" "sv_kq (upd_conn f g s) = sv_kq s"
  "sv_next_owner (upd_conn f g s) = sv_next_owner s" "sv_owner_fd (upd_conn f g s) = sv_owner_fd s"
  "sv_usernames (upd_conn f g s) = sv_usernames s" "sv_dead (upd_conn f g s) = sv_dead s"
  "sv_exch (upd_conn f g s) = sv_exch s" "sv_os (upd_conn f g s) = sv_os s"
  "sv_conns (upd_conn f g s) = (sv_conns s)(f := map_option g (sv_conns s f))"
  by (simp_all add: upd_conn_def)

lemma upd_os_fields [simp]:
  "sv_keys (upd_os g s) = sv_keys s" "sv_ip (upd_os g s) = sv_ip s" "sv_port (upd_os g s) = sv_port s"
  "sv_lfd (upd_os g s) = sv_lfd s" "sv_kq (upd_os g s) = sv_kq s"
  "sv_next_owner (upd_os g s) = sv_next_owner s" "sv_owner_fd (upd_os g s) = sv_owner_fd s"
  "sv_usernames (upd_os g s) = sv_usernames s" "sv_dead (upd_os g s) = sv_dead s"
  "sv_exch (upd_os g s) = sv_exch s" "sv_os (upd_os g s) = g (sv_os s)"
  "sv_conns (upd_os g s) = sv_conns s"
  by (simp_all add: upd_os_def)

end
