(* ===== verification/Server_IO.thy ===== *)
theory Server_IO
  imports Server
begin

text \<open>
  What one output operation of the server can do. \<open>io1 f m s s'\<close> says that \<open>s'\<close> is \<open>s\<close>
  after the message \<open>m\<close> was put on the queue of connection \<open>f\<close>: either the connection
  lives, its pending bytes are those before plus \<open>m\<close> less what the kernel took, and the write
  filter is enabled exactly when bytes are pending; or it has been closed, and its name and
  owner entries are released. Everything above output is proved from this relation.
\<close>

section \<open>The flush loop\<close>

text \<open>
  The loop by its turns: the queue is empty; the kernel took some bytes; it was interrupted; or
  it would block or failed, and the loop ends with bytes pending.
\<close>

lemma flush_loop_induct [consumes 1, case_names drained took intr stopped]:
  assumes run: "flush_loop f ob w = (r, ob', w')"
    and drained: "\<And>ob w. ob_empty ob \<Longrightarrow> P ob w Drained ob w"
    and took: "\<And>ob w n w1 r ob' w'. \<not> ob_empty ob \<Longrightarrow> sys_send f (ob_ptr ob) w = (Ret n, w1) \<Longrightarrow> 0 < n \<Longrightarrow>
      P (ob_consume n ob) w1 r ob' w' \<Longrightarrow> P ob w r ob' w'"
    and intr: "\<And>ob w w1 r ob' w'. \<not> ob_empty ob \<Longrightarrow> sys_send f (ob_ptr ob) w = (Fail EINTR, w1) \<Longrightarrow>
      P ob w1 r ob' w' \<Longrightarrow> P ob w r ob' w'"
    and stopped: "\<And>ob w a w1 r. \<not> ob_empty ob \<Longrightarrow> sys_send f (ob_ptr ob) w = (a, w1) \<Longrightarrow>
      (case a of Ret n \<Rightarrow> n = 0 | Fail e \<Rightarrow> e \<noteq> EINTR) \<Longrightarrow> r \<noteq> Drained \<Longrightarrow> P ob w r ob w1"
  shows "P ob w r ob' w'"
proof -
  have "P ob w r ob' w'" if "flush_loop g ob w = (r, ob', w')" and g: "g = f" for g
    using that
  proof (induction g ob w rule: flush_loop.induct)
    case (1 g ob w)
    obtain a w1 where a: "sys_send f (ob_ptr ob) w = (a, w1)" by (metis prod.exhaust)
    note eq = "1.prems"(1) [unfolded "1.prems"(2), unfolded flush_loop.simps [of f ob w]]
    show ?case
    proof (cases "ob_empty ob")
      case True
      with eq drained show ?thesis by simp
    next
      case False
      consider n where "a = Ret n" "0 < n" | "a = Fail EINTR" | "case a of Ret n \<Rightarrow> n = 0 | Fail e \<Rightarrow> e \<noteq> EINTR"
        by (cases a) auto
      then show ?thesis
      proof cases
        case (1 n)
        with took [OF False a [unfolded 1(1)] 1(2)] "1.IH"(1) [OF False _ 1(1,2), of w1] eq a False "1.prems"(2) show ?thesis by simp
      next
        case 2
        with intr [OF False a [unfolded 2]] "1.IH"(2) [OF False _ 2 refl, of w1] eq a False "1.prems"(2) show ?thesis by simp
      next
        case 3
        with stopped [OF False a 3, of r] eq a False show ?thesis by (auto split: sysret.splits if_splits)
      qed
    qed
  qed
  with run show ?thesis by blast
qed

lemma flush_loop_spec:
  assumes "flush_loop f ob w = (r, ob', w')" and "ob_inv ob"
  shows "ob_inv ob' \<and> os_frame w w' \<and> (r = Drained \<longleftrightarrow> ob_empty ob') \<and> ob_pending ob' \<le> ob_pending ob
    \<and> (\<exists>cs. calls w' = calls w @ cs \<and> sent f cs @ ob_ptr ob' = ob_ptr ob \<and> (\<forall>g. g \<noteq> f \<longrightarrow> sent g cs = []))"
  using assms
proof (induction rule: flush_loop_induct)
  case (drained ob w)
  then show ?case by simp
next
  case (took ob w n w1 r ob' w')
  have ob: "ob_inv (ob_consume n ob)" "ob_ptr (ob_consume n ob) = drop n (ob_ptr ob)"
    using took.prems by (simp_all add: ob.inv_consume ob.bytes_consume)
  then have pe: "ob_pending (ob_consume n ob) \<le> ob_pending ob" using took.prems by (simp add: ob.pending_bytes)
  from took.IH [OF ob(1)] obtain cs where cs: "calls w' = calls w1 @ cs" "sent f cs @ ob_ptr ob' = drop n (ob_ptr ob)"
    "\<forall>g. g \<noteq> f \<longrightarrow> sent g cs = []" using ob(2) by auto
  have "calls w' = calls w @ SysSend f (take n (ob_ptr ob)) # cs" using sys_send_Ret [OF took.hyps(2)] cs(1) by simp
  with cs(2,3) have "\<exists>cs. calls w' = calls w @ cs \<and> sent f cs @ ob_ptr ob' = ob_ptr ob \<and> (\<forall>g. g \<noteq> f \<longrightarrow> sent g cs = [])"
    by (intro exI [of _ "SysSend f (take n (ob_ptr ob)) # cs"]) simp
  with took.IH [OF ob(1)] pe sys_send_frame [OF took.hyps(2)] show ?case by (auto intro: os_frame_trans)
next
  case (intr ob w w1 r ob' w')
  from intr.IH [OF intr.prems] obtain cs where "calls w' = calls w1 @ cs" "sent f cs @ ob_ptr ob' = ob_ptr ob"
    "\<forall>g. g \<noteq> f \<longrightarrow> sent g cs = []" by auto
  with sys_send_Fail [OF intr.hyps(2)] have "\<exists>cs. calls w' = calls w @ cs \<and> sent f cs @ ob_ptr ob' = ob_ptr ob
    \<and> (\<forall>g. g \<noteq> f \<longrightarrow> sent g cs = [])" by (intro exI [of _ "SysSend f [] # cs"]) simp
  with intr.IH [OF intr.prems] sys_send_frame [OF intr.hyps(2)] show ?case by (auto intro: os_frame_trans)
next
  case (stopped ob w a w1 r)
  have "\<exists>c. calls w1 = calls w @ [SysSend f c] \<and> c = []"
    using stopped sys_send_Ret sys_send_Fail by (cases a) fastforce+
  with stopped sys_send_frame [OF stopped.hyps(2)] show ?case by auto
qed

section \<open>One output operation\<close>

text \<open>The part of a connection that output never changes.\<close>

definition same_id :: "Conn \<Rightarrow> Conn \<Rightarrow> bool" where
  "same_id c c' \<longleftrightarrow> c_fd c' = c_fd c \<and> c_owner_id c' = c_owner_id c \<and> c_role c' = c_role c
     \<and> c_username c' = c_username c \<and> c_subs c' = c_subs c \<and> c_in c' = c_in c \<and> c_closing c' = c_closing c"

text \<open>
  Flow control of a connection: on a live connection the write filter is enabled exactly when
  bytes are pending, no more than the cap is pending, and a closing connection still has
  something to drain.
\<close>

definition flow_ok :: "Conn \<Rightarrow> bool" where
  "flow_ok c \<longleftrightarrow> ob_inv (c_out c) \<and>
     (\<not> c_dead c \<longrightarrow> (c_write_enabled c \<longleftrightarrow> \<not> ob_empty (c_out c))
        \<and> ob_pending (c_out c) \<le> kMaxOutBytes \<and> (c_closing c \<longrightarrow> \<not> ob_empty (c_out c)))"

inductive io1 :: "fd \<Rightarrow> string \<Rightarrow> Server \<Rightarrow> Server \<Rightarrow> bool" where
  io_keep: "sv_conns s f = Some c \<Longrightarrow> \<not> c_dead c \<Longrightarrow> same_id c c' \<Longrightarrow> \<not> c_dead c' \<Longrightarrow> flow_ok c' \<Longrightarrow>
    os_frame (sv_os s) w' \<Longrightarrow> calls w' = calls (sv_os s) @ cs \<Longrightarrow>
    sent f cs @ ob_ptr (c_out c') = ob_ptr (c_out c) @ m \<Longrightarrow> \<forall>g. g \<noteq> f \<longrightarrow> sent g cs = [] \<Longrightarrow>
    io1 f m s (s\<lparr>sv_conns := (sv_conns s)(f \<mapsto> c'), sv_os := w'\<rparr>)"
| io_drop: "sv_conns s f = Some c \<Longrightarrow> \<not> c_dead c \<Longrightarrow> same_id c c' \<Longrightarrow> c_dead c' \<Longrightarrow> ob_inv (c_out c') \<Longrightarrow>
    os_frame (sv_os s) w' \<Longrightarrow> calls w' = calls (sv_os s) @ cs \<Longrightarrow>
    \<exists>rest. sent f cs @ rest = ob_ptr (c_out c) @ m \<Longrightarrow> \<forall>g. g \<noteq> f \<longrightarrow> sent g cs = [] \<Longrightarrow>
    io1 f m s (s\<lparr>sv_conns := (sv_conns s)(f \<mapsto> c'), sv_os := w',
      sv_usernames := (if c_username c \<noteq> [] then sv_usernames s - {c_username c} else sv_usernames s),
      sv_owner_fd := (sv_owner_fd s)(c_owner_id c := None), sv_dead := sv_dead s @ [f]\<rparr>)"

text \<open>A socket that takes what is pending ends the loop with an empty queue.\<close>

lemma flush_drains:
  assumes "flush_loop f ob w = (r, ob', w')" and "ob_inv ob" and "willing (ob_pending ob) (ans_send w)"
  shows "r = Drained"
  using assms
proof (induction rule: flush_loop_induct)
  case (drained ob w)
  show ?case by simp
next
  case (took ob w n w1 r ob' w')
  have "0 < ob_pending ob" using took by (simp add: ob.is_empty_bytes ob.pending_bytes)
  then have "willing (ob_pending ob - n) (ans_send w1)"
    by (rule sys_send_willing [OF took.prems(2) _ took.hyps(2)]) simp_all
  then have "willing (ob_pending (ob_consume n ob)) (ans_send w1)"
    using took.prems(1) by (simp add: ob.pending_bytes ob.bytes_consume ob.inv_consume)
  with took show ?case by (simp add: ob.inv_consume)
next
  case (intr ob w w1 r ob' w')
  have "0 < ob_pending ob" using intr by (simp add: ob.is_empty_bytes ob.pending_bytes)
  then have "willing (ob_pending ob) (ans_send w1)"
    by (rule sys_send_willing [OF intr.prems(2) _ intr.hyps(2)]) simp_all
  with intr show ?case by simp
next
  case (stopped ob w a w1 r)
  have "0 < ob_pending ob" using stopped by (simp add: ob.is_empty_bytes ob.pending_bytes)
  then have False
    by (rule sys_send_willing [OF stopped.prems(2) _ stopped.hyps(2)]) (use stopped.hyps(3) in simp_all)
  then show ?case ..
qed

text \<open>Closing, in the form the rule \<open>io_drop\<close> has it.\<close>

lemma close_conn_live:
  assumes "sv_conns s f = Some c" and "\<not> c_dead c" and "c_fd c = f"
  shows "close_conn f s = s\<lparr>sv_conns := (sv_conns s)(f \<mapsto> c\<lparr>c_dead := True\<rparr>),
     sv_os := log_call (SysShutdown f) (sv_os s),
     sv_usernames := (if c_username c \<noteq> [] then sv_usernames s - {c_username c} else sv_usernames s),
     sv_owner_fd := (sv_owner_fd s)(c_owner_id c := None), sv_dead := sv_dead s @ [f]\<rparr>"
  using assms by (simp add: close_conn_def)

lemma close_conn_io:
  assumes "sv_conns s f = Some c" and "\<not> c_dead c" and "c_fd c = f" and "ob_inv (c_out c)"
  shows "io1 f m s (close_conn f s)"
  unfolding close_conn_live [OF assms(1-3)]
  using assms by (intro io_drop [where cs = "[SysShutdown f]"]) (auto simp: same_id_def)

text \<open>
  An output operation that first rewrites the buffer of the connection and the kernel side
  and then closes is one output operation of the state before.
\<close>

lemma io_close_after:
  assumes "sv_conns s f = Some c" and "\<not> c_dead c" and "c_fd c = f"
    and "same_id c c1" and "\<not> c_dead c1" and "ob_inv (c_out c1)"
    and "os_frame (sv_os s) w1" and "calls w1 = calls (sv_os s) @ cs"
    and "\<exists>rest. sent f cs @ rest = ob_ptr (c_out c) @ m" and "\<forall>g. g \<noteq> f \<longrightarrow> sent g cs = []"
  shows "io1 f m s (close_conn f (s\<lparr>sv_conns := (sv_conns s)(f \<mapsto> c1), sv_os := w1\<rparr>))"
proof -
  let ?s1 = "s\<lparr>sv_conns := (sv_conns s)(f \<mapsto> c1), sv_os := w1\<rparr>"
  have fd: "c_fd c1 = f" "c_username c1 = c_username c" "c_owner_id c1 = c_owner_id c"
    using assms(3,4) by (simp_all add: same_id_def)
  have eq: "close_conn f ?s1 = s\<lparr>sv_conns := (sv_conns s)(f \<mapsto> c1\<lparr>c_dead := True\<rparr>),
     sv_os := log_call (SysShutdown f) w1,
     sv_usernames := (if c_username c \<noteq> [] then sv_usernames s - {c_username c} else sv_usernames s),
     sv_owner_fd := (sv_owner_fd s)(c_owner_id c := None), sv_dead := sv_dead s @ [f]\<rparr>"
    using fd assms(5) by (simp add: close_conn_live [of ?s1 f c1])
  show ?thesis
    unfolding eq
    using assms os_frame_trans [OF assms(7) os_frame_log]
    by (intro io_drop [where cs = "cs @ [SysShutdown f]"]) (auto simp: same_id_def)
qed

text \<open>
  \<open>try_flush\<close> as an output operation of a state \<open>s0\<close> that differs from the current one only
  in the buffer of the connection.
\<close>

lemma try_flush_io_gen:
  assumes c0: "sv_conns s0 f = Some c0" "\<not> c_dead c0" "c_fd c0 = f"
    and c: "same_id c0 c" "\<not> c_dead c" "ob_inv (c_out c)" "ob_pending (c_out c) \<le> kMaxOutBytes"
    and m: "ob_ptr (c_out c) = ob_ptr (c_out c0) @ m"
  shows "io1 f m s0 (try_flush f (s0\<lparr>sv_conns := (sv_conns s0)(f \<mapsto> c)\<rparr>))"
proof -
  let ?s = "s0\<lparr>sv_conns := (sv_conns s0)(f \<mapsto> c)\<rparr>"
  have fd: "c_fd c = f" using c(1) c0(3) by (simp add: same_id_def)
  obtain r ob w where l: "flush_loop f (c_out c) (sv_os s0) = (r, ob, w)" by (metis prod_cases3)
  from flush_loop_spec [OF l c(3)] obtain cs where
    cs: "calls w = calls (sv_os s0) @ cs" "sent f cs @ ob_ptr ob = ob_ptr (c_out c0) @ m"
      "\<forall>g. g \<noteq> f \<longrightarrow> sent g cs = []"
    and inv: "ob_inv ob" "os_frame (sv_os s0) w" "r = Drained \<longleftrightarrow> ob_empty ob" "ob_pending ob \<le> ob_pending (c_out c)"
    using m by auto
  let ?c1 = "c\<lparr>c_out := ob\<rparr>"
  have id1: "same_id c0 ?c1" "same_id c0 (?c1\<lparr>c_write_enabled := b\<rparr>)" for b
    using c(1) by (simp_all add: same_id_def)
  have pend: "ob_pending ob \<le> kMaxOutBytes" using inv(4) c(4) by simp
  define w2 where "w2 fl = snd (kq_change (sv_kq s0) f EVFILT_WRITE fl w)" for fl
  have w2: "os_frame (sv_os s0) (w2 fl)" "calls (w2 fl) = calls (sv_os s0) @ cs @ [SysKevent (sv_kq s0) f EVFILT_WRITE fl]" for fl
    using kq_change_frame [of w "sv_kq s0" f EVFILT_WRITE fl] os_frame_trans [OF inv(2)] cs(1) by (auto simp: w2_def)
  have keep: "io1 f m s0 (s0\<lparr>sv_conns := (sv_conns s0)(f \<mapsto> ?c1), sv_os := w\<rparr>)" if "flow_ok ?c1"
    using that c0 id1 c cs inv by (intro io_keep) auto
  have keep2: "io1 f m s0 (s0\<lparr>sv_conns := (sv_conns s0)(f \<mapsto> ?c1\<lparr>c_write_enabled := b\<rparr>), sv_os := w2 fl\<rparr>)"
    if "flow_ok (?c1\<lparr>c_write_enabled := b\<rparr>)" for b fl
    using that c0 id1(2) c cs inv w2
    by (intro io_keep [where cs = "cs @ [SysKevent (sv_kq s0) f EVFILT_WRITE fl]"]) auto
  have drop: "io1 f m s0 (close_conn f (s0\<lparr>sv_conns := (sv_conns s0)(f \<mapsto> ?c1), sv_os := w\<rparr>))"
    using c0 id1(1) c(2) inv cs by (intro io_close_after) auto
  have drop2: "io1 f m s0 (close_conn f (s0\<lparr>sv_conns := (sv_conns s0)(f \<mapsto> ?c1\<lparr>c_write_enabled := b\<rparr>), sv_os := w2 fl\<rparr>))" for b fl
    using c0 id1(2) c(2) inv cs w2
    by (intro io_close_after [where cs = "cs @ [SysKevent (sv_kq s0) f EVFILT_WRITE fl]"]) auto
  have sw: "s0\<lparr>sv_os := v, sv_conns := k\<rparr> = s0\<lparr>sv_conns := k, sv_os := v\<rparr>" for v k by simp
  have flush: "try_flush f ?s = (let s1 = s0\<lparr>sv_conns := (sv_conns s0)(f \<mapsto> ?c1), sv_os := w\<rparr> in case r of
      WouldBlock \<Rightarrow> if \<not> c_write_enabled c
        then s0\<lparr>sv_conns := (sv_conns s0)(f \<mapsto> ?c1\<lparr>c_write_enabled := True\<rparr>), sv_os := w2 [EV_ENABLE]\<rparr> else s1
    | SendFailed \<Rightarrow> close_conn f s1
    | Drained \<Rightarrow> (let s2 = (if c_write_enabled c
        then s0\<lparr>sv_conns := (sv_conns s0)(f \<mapsto> ?c1\<lparr>c_write_enabled := False\<rparr>), sv_os := w2 [EV_DISABLE]\<rparr> else s1)
      in if c_closing c then close_conn f s2 else s2))"
    using fd c(2) l by (cases r) (simp_all add: try_flush_def upd_conn_def upd_os_def w2_def sw)
  show ?thesis
  proof (cases r)
    case Drained
    with inv c(2) pend have
      "\<not> c_closing c \<Longrightarrow> flow_ok (?c1\<lparr>c_write_enabled := False\<rparr>)"
      "\<not> c_closing c \<Longrightarrow> \<not> c_write_enabled c \<Longrightarrow> flow_ok ?c1"
      by (auto simp: flow_ok_def)
    with Drained show ?thesis unfolding flush by (auto simp: Let_def intro: keep keep2 drop drop2)
  next
    case WouldBlock
    with inv c(2) pend have "flow_ok (?c1\<lparr>c_write_enabled := True\<rparr>)" "c_write_enabled c \<Longrightarrow> flow_ok ?c1"
      by (auto simp: flow_ok_def)
    with WouldBlock show ?thesis unfolding flush by (auto simp: Let_def intro: keep keep2)
  next
    case SendFailed
    then show ?thesis unfolding flush by (simp add: Let_def drop)
  qed
qed

lemma try_flush_io:
  assumes "sv_conns s f = Some c" and "\<not> c_dead c" and "c_fd c = f" and "ob_inv (c_out c)"
    and "ob_pending (c_out c) \<le> kMaxOutBytes"
  shows "io1 f [] s (try_flush f s)"
proof -
  have "s = s\<lparr>sv_conns := (sv_conns s)(f \<mapsto> c)\<rparr>" using assms(1) by (simp add: fun_upd_idem)
  then show ?thesis
    using try_flush_io_gen [of s f c c "[]"] assms by (simp add: same_id_def)
qed

lemma queue_out_io:
  assumes "sv_conns s f = Some c" and "\<not> c_dead c" and "c_fd c = f" and "ob_inv (c_out c)"
  shows "io1 f m s (queue_out f m s)"
proof (cases "kMaxOutBytes < ob_pending (ob_push m (c_out c))")
  case True
  let ?c1 = "c\<lparr>c_out := ob_clear (ob_push m (c_out c))\<rparr>"
  have "queue_out f m s = close_conn f (s\<lparr>sv_conns := (sv_conns s)(f \<mapsto> ?c1), sv_os := sv_os s\<rparr>)"
    using assms True by (simp add: queue_out_def upd_conn_def)
  also have "io1 f m s \<dots>"
    using assms by (intro io_close_after [where cs = "[]"]) (auto simp: same_id_def ob_clear_def ob_inv_def)
  finally show ?thesis .
next
  case False
  let ?c1 = "c\<lparr>c_out := ob_push m (c_out c)\<rparr>"
  have "queue_out f m s = try_flush f (s\<lparr>sv_conns := (sv_conns s)(f \<mapsto> ?c1)\<rparr>)"
    using assms False by (simp add: queue_out_def upd_conn_def)
  also have "io1 f m s \<dots>"
    using assms False
    by (intro try_flush_io_gen) (auto simp: same_id_def ob.inv_push ob.bytes_push)
  finally show ?thesis .
qed

lemma output_noop:
  "sv_conns s f = None \<Longrightarrow> queue_out f m s = s" "sv_conns s f = None \<Longrightarrow> try_flush f s = s"
  "sv_conns s f = Some c \<Longrightarrow> c_dead c \<Longrightarrow> queue_out f m s = s"
  "sv_conns s f = Some c \<Longrightarrow> c_dead c \<Longrightarrow> try_flush f s = s"
  by (simp_all add: queue_out_def try_flush_def)

end
