(* ===== verification/Server_Inv.thy ===== *)
theory Server_Inv
  imports Server_IO
begin

text \<open>
  The invariant of the server's state and the contract every handler keeps. The identity part
  of the invariant (which connection is which trader, which names and owners are registered,
  which connections wait to be reaped) is stated on a view of the connections that forgets
  buffers, so that output leaves it alone by computation.
\<close>

section \<open>Identities\<close>

text \<open>Owner, role, user name and the dead flag of a connection.\<close>

type_synonym ident = "owner \<times> Role \<times> string \<times> bool"

definition ident :: "Conn \<Rightarrow> ident" where
  "ident c = (c_owner_id c, c_role c, c_username c, c_dead c)"

definition view :: "Server \<Rightarrow> fd \<rightharpoonup> ident" where
  "view s = (\<lambda>f. map_option ident (sv_conns s f))"

text \<open>
  \<^item> the key list has every descriptor once, owner ids have been handed out (they are at least 1 and
    below the counter), and exactly traders have a (non-empty) name;
  \<^item> no two connections, dead ones included, share an owner id;
  \<^item> \<open>owner_fd_\<close> holds exactly the live traders;
  \<^item> \<open>usernames_\<close> holds exactly the live traders' names, and no name twice;
  \<^item> \<open>dead_\<close> lists exactly the dead connections, each once.
\<close>

definition ids_wf :: "(fd \<rightharpoonup> ident) \<Rightarrow> owner \<Rightarrow> fd list \<Rightarrow> bool" where
  "ids_wf v n ks \<longleftrightarrow> 1 \<le> n \<and> distinct ks \<and> set ks = dom v \<and>
     (\<forall>f ow r u d. v f = Some (ow, r, u, d) \<longrightarrow> 1 \<le> ow \<and> ow < n \<and> (r = Trader \<longleftrightarrow> u \<noteq> []))"

definition ids_inj :: "(fd \<rightharpoonup> ident) \<Rightarrow> bool" where
  "ids_inj v \<longleftrightarrow> (\<forall>f g x y. v f = Some x \<longrightarrow> v g = Some y \<longrightarrow> fst x = fst y \<longrightarrow> f = g)"

definition owners_ok :: "(fd \<rightharpoonup> ident) \<Rightarrow> (owner \<rightharpoonup> fd) \<Rightarrow> bool" where
  "owners_ok v m \<longleftrightarrow> (\<forall>ow f. m ow = Some f \<longleftrightarrow> (\<exists>u. v f = Some (ow, Trader, u, False)))"

definition names_ok :: "(fd \<rightharpoonup> ident) \<Rightarrow> string set \<Rightarrow> bool" where
  "names_ok v us \<longleftrightarrow> (\<forall>u. u \<in> us \<longleftrightarrow> (\<exists>f ow. v f = Some (ow, Trader, u, False)))
     \<and> (\<forall>f g ow ow' u. v f = Some (ow, Trader, u, False) \<longrightarrow> v g = Some (ow', Trader, u, False) \<longrightarrow> f = g)"

definition dead_ok :: "(fd \<rightharpoonup> ident) \<Rightarrow> fd list \<Rightarrow> bool" where
  "dead_ok v ds \<longleftrightarrow> distinct ds \<and> (\<forall>f. f \<in> set ds \<longleftrightarrow> (\<exists>ow r u. v f = Some (ow, r, u, True)))"

definition ids_ok :: "Server \<Rightarrow> bool" where
  "ids_ok s \<longleftrightarrow> ids_wf (view s) (sv_next_owner s) (sv_keys s) \<and> ids_inj (view s)
     \<and> owners_ok (view s) (sv_owner_fd s) \<and> names_ok (view s) (sv_usernames s) \<and> dead_ok (view s) (sv_dead s)"

lemma ids_inj_upd:
  assumes "v f = Some x" and "ids_inj v" and "fst y = fst x"
  shows "ids_inj (v(f \<mapsto> y))"
proof -
  have "\<exists>a'. v g = Some a' \<and> fst a' = fst a" if "(v(f \<mapsto> y)) g = Some a" for g a
    using that assms(1,3) by (cases "g = f") simp_all
  then show ?thesis using assms(2) unfolding ids_inj_def by metis
qed

text \<open>Marking a connection dead, and releasing its entries.\<close>

lemma ids_close:
  assumes "v f = Some (ow, r, u, False)" and "ids_wf v n ks" and "ids_inj v"
  shows "ids_wf (v(f \<mapsto> (ow, r, u, True))) n ks"
    and "ids_inj (v(f \<mapsto> (ow, r, u, True)))"
    and "owners_ok v m \<Longrightarrow> owners_ok (v(f \<mapsto> (ow, r, u, True))) (m(ow := None))"
    and "names_ok v us \<Longrightarrow> names_ok (v(f \<mapsto> (ow, r, u, True))) (if u \<noteq> [] then us - {u} else us)"
    and "dead_ok v ds \<Longrightarrow> dead_ok (v(f \<mapsto> (ow, r, u, True))) (ds @ [f])"
proof -
  have tr: "1 \<le> ow" "ow < n" "r = Trader \<longleftrightarrow> u \<noteq> []"
    using assms(1,2) unfolding ids_wf_def by blast+
  show "ids_wf (v(f \<mapsto> (ow, r, u, True))) n ks"
    using assms(1,2) tr by (auto simp: ids_wf_def)
  show "ids_inj (v(f \<mapsto> (ow, r, u, True)))"
    using assms(1,3) by (rule ids_inj_upd) simp
  show "owners_ok (v(f \<mapsto> (ow, r, u, True))) (m(ow := None))" if "owners_ok v m"
  proof -
    have "(v(f \<mapsto> (ow, r, u, True))) g = Some (ow', Trader, x, False) \<longleftrightarrow> v g = Some (ow', Trader, x, False) \<and> ow' \<noteq> ow" for g ow' x
      using assms(1,3) unfolding ids_inj_def by (cases "g = f") fastforce+
    with that show ?thesis by (simp only: owners_ok_def) auto
  qed
  show "names_ok (v(f \<mapsto> (ow, r, u, True))) (if u \<noteq> [] then us - {u} else us)" if "names_ok v us"
  proof (cases "u = []")
    case True
    then have "(v(f \<mapsto> (ow, r, u, True))) g = Some (ow', Trader, x, False) \<longleftrightarrow> v g = Some (ow', Trader, x, False)" for g ow' x
      using tr assms(1) by auto
    with True that show ?thesis by (simp only: names_ok_def) simp
  next
    case False
    with tr assms(1) have vf: "v f = Some (ow, Trader, u, False)" by simp
    have "(v(f \<mapsto> (ow, r, u, True))) g = Some (ow', Trader, x, False) \<longleftrightarrow> v g = Some (ow', Trader, x, False) \<and> x \<noteq> u" for g ow' x
      using that vf unfolding names_ok_def by (cases "g = f") auto
    with False that show ?thesis by (simp only: names_ok_def) auto
  qed
  show "dead_ok (v(f \<mapsto> (ow, r, u, True))) (ds @ [f])" if "dead_ok v ds"
    using that assms(1) by (auto simp: dead_ok_def)
qed

section \<open>The invariant\<close>

definition conns_ok :: "Server \<Rightarrow> bool" where
  "conns_ok s \<longleftrightarrow> (\<forall>f c. sv_conns s f = Some c \<longrightarrow>
     c_fd c = f \<and> (c_role c \<noteq> MarketData \<longrightarrow> c_subs c = (\<lambda>_. False)) \<and> ob_inv (c_out c))"

definition flows_ok :: "fd set \<Rightarrow> Server \<Rightarrow> bool" where
  "flows_ok F s \<longleftrightarrow> (\<forall>f c. f \<notin> F \<longrightarrow> sv_conns s f = Some c \<longrightarrow> flow_ok c)"

text \<open>
  An owner id that may stand on a resting order: it has been handed out, and a connection that
  still has it is a trader. What output, logins, arrivals and reaping do to the view keeps this.
\<close>

definition owned :: "(fd \<rightharpoonup> ident) \<Rightarrow> owner \<Rightarrow> owner \<Rightarrow> bool" where
  "owned v n ow \<longleftrightarrow> 1 \<le> ow \<and> ow < n \<and> (\<forall>f x. v f = Some x \<longrightarrow> fst x = ow \<longrightarrow> fst (snd x) = Trader)"

lemma owned_upd:
  assumes "v f = Some (a, r, x)" and "owned v n ow" and "r = Trader \<longrightarrow> r' = Trader"
  shows "owned (v(f \<mapsto> (a, r', x'))) n ow"
proof -
  have "a = ow \<Longrightarrow> r = Trader" using assms(1,2) unfolding owned_def by fastforce
  with assms(2,3) show ?thesis by (auto simp: owned_def)
qed

lemma owned_accept: "owned v n ow \<Longrightarrow> owned (v(f \<mapsto> (n, x))) (n + 1) ow"
  by (auto simp: owned_def)

lemma owned_sub: "owned v n ow \<Longrightarrow> (\<And>f x. v' f = Some x \<Longrightarrow> v f = Some x) \<Longrightarrow> owned v' n ow"
  unfolding owned_def by blast

definition orders_owned :: "Server \<Rightarrow> bool" where
  "orders_owned s \<longleftrightarrow> (\<forall>i r. ex_orders (sv_exch s) i = Some r \<longrightarrow> owned (view s) (sv_next_owner s) (o_owner r))"

text \<open>The invariant, except for the flow control of the connections in \<open>F\<close>.\<close>

definition inv_except :: "fd set \<Rightarrow> Server \<Rightarrow> bool" where
  "inv_except F s \<longleftrightarrow> ids_ok s \<and> conns_ok s \<and> flows_ok F s \<and> orders_owned s"

abbreviation sv_inv :: "Server \<Rightarrow> bool" where
  "sv_inv \<equiv> inv_except {}"

lemma inv_except_weaken: "sv_inv s \<Longrightarrow> inv_except F s"
  by (auto simp: inv_except_def flows_ok_def)

lemma inv_connD:
  "inv_except F s \<Longrightarrow> sv_conns s f = Some c \<Longrightarrow> c_fd c = f \<and> ob_inv (c_out c)"
  by (auto simp: inv_except_def conns_ok_def)

lemma view_upd: "sv_conns s' = (sv_conns s)(f \<mapsto> c) \<Longrightarrow> view s' = (view s)(f \<mapsto> ident c)"
  by (auto simp: view_def fun_eq_iff)

lemma same_id_ident: "same_id c c' \<Longrightarrow> c_dead c' = c_dead c \<Longrightarrow> ident c' = ident c"
  by (simp add: same_id_def ident_def)

text \<open>One output operation on \<open>f\<close> restores the flow control of \<open>f\<close> and keeps the rest.\<close>

lemma io1_inv:
  assumes "io1 f m s s'" and "inv_except {f} s"
  shows "sv_inv s'"
  using assms
proof (induction rule: io1.cases)
  case (io_keep s f c c' w' cs m)
  let ?s' = "s\<lparr>sv_conns := (sv_conns s)(f \<mapsto> c'), sv_os := w'\<rparr>"
  have "view ?s' = (view s)(f \<mapsto> ident c')" by (rule view_upd) simp
  also have "\<dots> = view s"
    using io_keep same_id_ident [of c c'] by (auto simp: view_def fun_eq_iff)
  finally have v': "view ?s' = view s" .
  then have "ids_ok ?s'" using io_keep by (simp add: ids_ok_def inv_except_def)
  moreover have "conns_ok ?s'" "flows_ok {} ?s'"
    using io_keep by (auto simp: inv_except_def conns_ok_def flows_ok_def same_id_def flow_ok_def)
  moreover have "orders_owned ?s'" unfolding orders_owned_def v' using io_keep by (simp add: inv_except_def orders_owned_def)
  ultimately show ?case using io_keep by (simp add: inv_except_def)
next
  case (io_drop s f c c' w' cs m)
  let ?us = "if c_username c \<noteq> [] then sv_usernames s - {c_username c} else sv_usernames s"
  let ?s' = "s\<lparr>sv_conns := (sv_conns s)(f \<mapsto> c'), sv_os := w', sv_usernames := ?us,
      sv_owner_fd := (sv_owner_fd s)(c_owner_id c := None), sv_dead := sv_dead s @ [f]\<rparr>"
  have vf: "view s f = Some (c_owner_id c, c_role c, c_username c, False)"
    using io_drop by (simp add: view_def ident_def)
  have v': "view ?s' = (view s)(f \<mapsto> (c_owner_id c, c_role c, c_username c, True))"
    using io_drop view_upd [of ?s' s f c'] by (simp add: ident_def same_id_def)
  have ids: "ids_wf (view s) (sv_next_owner s) (sv_keys s)" "ids_inj (view s)" "owners_ok (view s) (sv_owner_fd s)"
    "names_ok (view s) (sv_usernames s)" "dead_ok (view s) (sv_dead s)"
    using io_drop by (auto simp: inv_except_def ids_ok_def)
  have "ids_ok ?s'"
    unfolding ids_ok_def v' using ids_close [OF vf ids(1,2)] ids(3-) by simp
  moreover have "conns_ok ?s'" "flows_ok {} ?s'"
    using io_drop by (auto simp: inv_except_def conns_ok_def flows_ok_def same_id_def flow_ok_def)
  moreover have "orders_owned ?s'"
    unfolding orders_owned_def v' using io_drop owned_upd [of "view s" f, OF vf] by (simp add: inv_except_def orders_owned_def)
  ultimately show ?case using io_drop by (simp add: inv_except_def)
qed

end
