(* ===== verification/Handlers.thy ===== *)
theory Handlers
  imports Server_Inv
begin

text \<open>
  The contract of the command handlers: on a live connection they keep the server invariant
  and change other connections only through output. The contract is a locale, interpreted on
  the output operations, on publishing and on \<open>handle_line\<close>.
\<close>

section \<open>What a handler may change\<close>

definition live :: "fd \<Rightarrow> Server \<Rightarrow> bool" where
  "live f s \<longleftrightarrow> (\<exists>c. sv_conns s f = Some c \<and> \<not> c_dead c)"

text \<open>
  Between two states of one connection: descriptor, owner and inbound bytes stay, dead and
  closing stay set, a role once taken stays with its name; and for any other connection than
  the handler's own nothing but output and the dead flag changes.
\<close>

definition conn_le :: "bool \<Rightarrow> Conn \<Rightarrow> Conn \<Rightarrow> bool" where
  "conn_le own c c' \<longleftrightarrow> c_fd c' = c_fd c \<and> c_owner_id c' = c_owner_id c \<and> c_in c' = c_in c
     \<and> (c_dead c \<longrightarrow> c_dead c') \<and> (c_closing c \<longrightarrow> c_closing c')
     \<and> (c_role c \<noteq> Unknown \<longrightarrow> c_role c' = c_role c \<and> c_username c' = c_username c)
     \<and> (\<not> own \<longrightarrow> same_id c c')"

definition hframe :: "fd \<Rightarrow> Server \<Rightarrow> Server \<Rightarrow> bool" where
  "hframe f s s' \<longleftrightarrow> sv_keys s' = sv_keys s \<and> sv_lfd s' = sv_lfd s \<and> sv_kq s' = sv_kq s \<and> sv_next_owner s' = sv_next_owner s
     \<and> sv_ip s' = sv_ip s \<and> sv_port s' = sv_port s \<and> os_frame (sv_os s) (sv_os s')
     \<and> (\<forall>g. rel_option (conn_le (g = f)) (sv_conns s g) (sv_conns s' g))"

lemma conn_le_refl [simp]: "conn_le b c c"
  by (simp add: conn_le_def same_id_def)

lemma conn_le_trans: "conn_le b c1 c2 \<Longrightarrow> conn_le b c2 c3 \<Longrightarrow> conn_le b c1 c3"
  by (auto simp: conn_le_def same_id_def)

lemma hframe_refl [simp]: "hframe f s s"
  by (auto simp: hframe_def intro: option.rel_refl)

lemma hframe_trans:
  assumes "hframe f a b" and "hframe f b c"
  shows "hframe f a c"
proof -
  have "rel_option (conn_le (g = f)) (sv_conns a g) (sv_conns c g)" for g
  proof -
    have "rel_option (conn_le (g = f)) (sv_conns a g) (sv_conns b g)"
      "rel_option (conn_le (g = f)) (sv_conns b g) (sv_conns c g)"
      using assms by (simp_all add: hframe_def)
    then show ?thesis
      by (cases "sv_conns a g"; cases "sv_conns b g"; cases "sv_conns c g") (auto intro: conn_le_trans)
  qed
  with assms show ?thesis by (auto simp: hframe_def intro: os_frame_trans)
qed

lemma hframe_conn:
  assumes "hframe f s s'" and "sv_conns s' g = Some c'"
  obtains c where "sv_conns s g = Some c" "conn_le (g = f) c c'"
  using assms unfolding hframe_def by (metis option.rel_cases option.distinct(1) option.inject)

lemma hframe_conn2:
  assumes "hframe f s s'" and "sv_conns s g = Some c"
  obtains c' where "sv_conns s' g = Some c'" "conn_le (g = f) c c'"
  using assms unfolding hframe_def by (metis option.rel_cases option.distinct(1) option.inject)

lemma hframe_dom: "hframe f s s' \<Longrightarrow> dom (sv_conns s') = dom (sv_conns s)"
  by (auto elim: hframe_conn hframe_conn2)

lemma io1_frame: "io1 g m s s' \<Longrightarrow> hframe f s s'"
  by (erule io1.cases) (auto simp: hframe_def conn_le_def same_id_def intro: option.rel_refl)

lemma queue_out_ok:
  assumes "sv_inv s"
  shows "sv_inv (queue_out g m s) \<and> hframe f s (queue_out g m s)"
proof (cases "live g s")
  case True
  then obtain c where c: "sv_conns s g = Some c" "\<not> c_dead c" by (auto simp: live_def)
  with inv_connD [OF assms c(1)] have io: "io1 g m s (queue_out g m s)" by (intro queue_out_io) auto
  from io1_inv [OF io inv_except_weaken [OF assms]] io1_frame [OF io] show ?thesis by blast
next
  case False
  then have "queue_out g m s = s"
    by (cases "sv_conns s g") (auto simp: live_def output_noop)
  with assms show ?thesis by simp
qed

lemma try_flush_ok:
  assumes "inv_except {g} s" and "sv_conns s g = Some c" and "ob_pending (c_out c) \<le> kMaxOutBytes"
    and "c_dead c \<longrightarrow> flow_ok c"
  shows "sv_inv (try_flush g s) \<and> hframe f s (try_flush g s)"
proof (cases "c_dead c")
  case True
  then have "try_flush g s = s" using assms(2) by (simp add: output_noop)
  moreover have "flows_ok {} s"
    unfolding flows_ok_def
  proof (intro allI impI)
    fix h ca
    assume "sv_conns s h = Some ca"
    with assms True show "flow_ok ca" by (cases "h = g") (auto simp: inv_except_def flows_ok_def)
  qed
  then have "sv_inv s" using assms(1) by (simp add: inv_except_def)
  ultimately show ?thesis by simp
next
  case False
  with inv_connD [OF assms(1,2)] have io: "io1 g [] s (try_flush g s)"
    using assms(2,3) by (intro try_flush_io) auto
  from io1_inv [OF io assms(1)] io1_frame [OF io] show ?thesis by blast
qed

text \<open>Folding operations that keep invariant and frame keeps invariant and frame.\<close>

lemma fold_ok:
  assumes "\<And>x s. sv_inv s \<Longrightarrow> sv_inv (k x s) \<and> hframe f s (k x s)" and "sv_inv s"
  shows "sv_inv (fold k xs s) \<and> hframe f s (fold k xs s)"
  using assms(2)
proof (induction xs arbitrary: s)
  case Nil
  then show ?case by simp
next
  case (Cons x xs)
  from assms(1) [OF Cons.prems, of x] Cons.IH [of "k x s"] show ?case
    by (auto intro: hframe_trans)
qed

lemma notify_owner_ok: "sv_inv s \<Longrightarrow> sv_inv (notify_owner ow m s) \<and> hframe f s (notify_owner ow m s)"
  by (auto simp: notify_owner_def queue_out_ok split: option.splits)

lemma publish_to_ok: "sv_inv s \<Longrightarrow> sv_inv (publish_to t g s) \<and> hframe f s (publish_to t g s)"
  by (auto simp: publish_to_def queue_out_ok split: option.splits)

lemma publish_ok:
  assumes "sv_inv s"
  shows "sv_inv (publish t s) \<and> hframe f s (publish t s)"
proof -
  define s1 where "s1 = notify_owner (t_buyer_owner t) (msg_bought (t_inst t) (t_qty t) (t_price t)) s"
  define s2 where "s2 = notify_owner (t_seller_owner t) (msg_sold (t_inst t) (t_qty t) (t_price t)) s1"
  have 1: "sv_inv s1" "hframe f s s1" using notify_owner_ok [OF assms] by (simp_all add: s1_def)
  have 2: "sv_inv s2" "hframe f s1 s2" using notify_owner_ok [OF 1(1)] by (simp_all add: s2_def)
  have "publish t s = fold (publish_to t) (conn_iter s2) s2"
    by (simp add: publish_def s1_def s2_def Let_def)
  with fold_ok [of "publish_to t" f s2, OF publish_to_ok 2(1)] 1 2 show ?thesis
    by (auto intro: hframe_trans)
qed

section \<open>State changes of the handlers\<close>

lemma match_loop_owners:
  "match_loop side inst price ow rem dq m out = (rem', dq', m', out') \<Longrightarrow> m' j = Some r' \<Longrightarrow>
   \<exists>i r. m i = Some r \<and> o_owner r' = o_owner r"
proof (induction side inst price ow rem dq m out rule: match_loop.induct)
  case (1 side inst price ow rem dq m out)
  show ?case
  proof (cases "0 < rem \<and> dq \<noteq> []")
    case False
    with "1.prems" show ?thesis by (auto simp: match_loop_stop word_gt_0)
  next
    case True
    show ?thesis
    proof (cases "m (hd dq)")
      case None
      with True "1.prems"(1) have "match_loop side inst price ow rem (tl dq) m out = (rem', dq', m', out')"
        by (subst (asm) match_loop.simps) simp
      from "1.IH"(1) [OF True refl None this "1.prems"(2)] show ?thesis .
    next
      case (Some ord)
      let ?q = "min rem (o_remaining ord)"
      let ?o = "ord\<lparr>o_remaining := o_remaining ord - ?q\<rparr>"
      let ?out = "out @ [mk_trade side inst ?q price ow (o_owner ord)]"
      show ?thesis
      proof (cases "o_remaining ?o = 0")
        case z: True
        with True Some "1.prems"(1) have
          "match_loop side inst price ow (rem - ?q) (tl dq) (m(hd dq := None)) ?out = (rem', dq', m', out')"
          by (subst (asm) match_loop.simps) (simp add: Let_def)
        from "1.IH"(2) [OF True refl Some refl refl refl refl z this "1.prems"(2)] show ?thesis
          by (auto split: if_splits)
      next
        case nz: False
        with True Some "1.prems"(1) have
          "match_loop side inst price ow (rem - ?q) dq (m(hd dq \<mapsto> ?o)) ?out = (rem', dq', m', out')"
          by (subst (asm) match_loop.simps) (simp add: Let_def)
        from "1.IH"(3) [OF True refl Some refl refl refl refl nz this "1.prems"(2)] Some show ?thesis
          by (fastforce split: if_splits)
      qed
    qed
  qed
qed

lemma submit_owners:
  assumes "submit side inst qty price ow out ex = (i, out', ex')" and "ex_orders ex' j = Some r'"
  shows "o_owner r' = ow \<or> (\<exists>i r. ex_orders ex i = Some r \<and> o_owner r' = o_owner r)"
proof -
  let ?it = "ex_books ex inst (if side = Buy then 1 else 0) price"
  obtain rem dq m o2 where l: "(case ?it of None \<Rightarrow> (qty, [], ex_orders ex, out)
      | Some level \<Rightarrow> match_loop side inst price ow qty level (ex_orders ex) out) = (rem, dq, m, o2)"
    by (metis prod_cases4)
  have old: "\<exists>i r. ex_orders ex i = Some r \<and> o_owner x = o_owner r" if "m k = Some x" for k x
    using l that by (auto split: option.splits dest: match_loop_owners)
  have "ex_orders ex' j = m j \<or> ex_orders ex' j = Some \<lparr>o_id = ex_next_id ex, o_side = side, o_inst = inst,
      o_price = price, o_remaining = rem, o_owner = ow\<rparr>"
    using assms(1) l by (auto simp: submit_def Let_def emplace_order_def split: if_splits option.splits)
  with assms(2) old show ?thesis by auto
qed

lemma cancel_orders: "cancel i ow ex = Inr ex' \<Longrightarrow> ex_orders ex' = (ex_orders ex)(i := None)"
  by (auto simp: cancel_def Let_def split: option.splits if_splits)

section \<open>Login and subscription\<close>

text \<open>A connection without a role becomes a trader under a fresh, non-empty name.\<close>

lemma ids_login:
  assumes v: "v f = Some (ow, Unknown, x, False)" and wf: "ids_wf v n ks" and inj: "ids_inj v"
    and u: "u \<noteq> []" "u \<notin> us"
  shows "ids_wf (v(f \<mapsto> (ow, Trader, u, False))) n ks"
    and "ids_inj (v(f \<mapsto> (ow, Trader, u, False)))"
    and "owners_ok v m \<Longrightarrow> owners_ok (v(f \<mapsto> (ow, Trader, u, False))) (m(ow \<mapsto> f))"
    and "names_ok v us \<Longrightarrow> names_ok (v(f \<mapsto> (ow, Trader, u, False))) (insert u us)"
    and "dead_ok v ds \<Longrightarrow> dead_ok (v(f \<mapsto> (ow, Trader, u, False))) ds"
proof -
  have "1 \<le> ow" "ow < n" using v wf unfolding ids_wf_def by blast+
  with wf u v show "ids_wf (v(f \<mapsto> (ow, Trader, u, False))) n ks" by (auto simp: ids_wf_def)
  show "ids_inj (v(f \<mapsto> (ow, Trader, u, False)))" using v inj by (rule ids_inj_upd) simp
  have other: "ow' \<noteq> ow" if "v g = Some (ow', r)" "g \<noteq> f" for g ow' r
    using that v inj unfolding ids_inj_def by fastforce
  show "owners_ok (v(f \<mapsto> (ow, Trader, u, False))) (m(ow \<mapsto> f))" if "owners_ok v m"
    unfolding owners_ok_def
  proof (intro allI)
    fix a g
    have "m a = Some g \<longleftrightarrow> (\<exists>y. v g = Some (a, Trader, y, False))" using that by (simp add: owners_ok_def)
    then show "(m(ow \<mapsto> f)) a = Some g \<longleftrightarrow> (\<exists>y. (v(f \<mapsto> (ow, Trader, u, False))) g = Some (a, Trader, y, False))"
      using v other [of g a] by (cases "g = f") auto
  qed
  show "names_ok (v(f \<mapsto> (ow, Trader, u, False))) (insert u us)" if n: "names_ok v us"
  proof -
    have old: "(v(f \<mapsto> (ow, Trader, u, False))) g = Some (a, Trader, y, False) \<longleftrightarrow>
        (if g = f then a = ow \<and> y = u else v g = Some (a, Trader, y, False))" for g a y by auto
    have fresh: "v g \<noteq> Some (a, Trader, u, False)" for g a using n u(2) unfolding names_ok_def by blast
    have nf: "v f \<noteq> Some (a, Trader, y, False)" for a y using v by simp
    show ?thesis
      unfolding names_ok_def old
    proof (intro conjI allI impI)
      fix y
      show "y \<in> insert u us \<longleftrightarrow> (\<exists>g a. if g = f then a = ow \<and> y = u else v g = Some (a, Trader, y, False))"
        using n nf unfolding names_ok_def by (metis insert_iff)
    next
      fix g h a b y
      assume "if g = f then a = ow \<and> y = u else v g = Some (a, Trader, y, False)"
        "if h = f then b = ow \<and> y = u else v h = Some (b, Trader, y, False)"
      then show "g = h" using n fresh unfolding names_ok_def by (metis (full_types))
    qed
  qed
  show "dead_ok (v(f \<mapsto> (ow, Trader, u, False))) ds" if "dead_ok v ds"
    using that v by (auto simp: dead_ok_def)
qed

text \<open>A connection that is not a trader becomes or stays a market-data client.\<close>

lemma ids_subscribe:
  assumes v: "v f = Some (ow, r, x, False)" and "r \<noteq> Trader" and wf: "ids_wf v n ks" and inj: "ids_inj v"
  shows "ids_wf (v(f \<mapsto> (ow, MarketData, x, False))) n ks"
    and "ids_inj (v(f \<mapsto> (ow, MarketData, x, False)))"
    and "owners_ok v m \<Longrightarrow> owners_ok (v(f \<mapsto> (ow, MarketData, x, False))) m"
    and "names_ok v us \<Longrightarrow> names_ok (v(f \<mapsto> (ow, MarketData, x, False))) us"
    and "dead_ok v ds \<Longrightarrow> dead_ok (v(f \<mapsto> (ow, MarketData, x, False))) ds"
proof -
  have "1 \<le> ow" "ow < n" "x = []" using v wf assms(2) unfolding ids_wf_def by blast+
  with wf v show "ids_wf (v(f \<mapsto> (ow, MarketData, x, False))) n ks" by (auto simp: ids_wf_def)
  show "ids_inj (v(f \<mapsto> (ow, MarketData, x, False)))" using v inj by (rule ids_inj_upd) simp
  have "(v(f \<mapsto> (ow, MarketData, x, False))) g = Some (a, Trader, y, False) \<longleftrightarrow> v g = Some (a, Trader, y, False)" for g a y
    using v assms(2) by auto
  then show "owners_ok v m \<Longrightarrow> owners_ok (v(f \<mapsto> (ow, MarketData, x, False))) m"
    "names_ok v us \<Longrightarrow> names_ok (v(f \<mapsto> (ow, MarketData, x, False))) us"
    by (simp_all only: owners_ok_def names_ok_def simp_thms) (erule conjunct2)
  show "dead_ok v ds \<Longrightarrow> dead_ok (v(f \<mapsto> (ow, MarketData, x, False))) ds"
    using v by (auto simp: dead_ok_def)
qed

section \<open>The command handlers\<close>

text \<open>Replacing the exchange by one with registered owners only.\<close>

lemma exch_ok:
  assumes "sv_inv s" and "\<And>i r. ex_orders ex i = Some r \<Longrightarrow> owned (view s) (sv_next_owner s) (o_owner r)"
  shows "sv_inv (s\<lparr>sv_exch := ex\<rparr>) \<and> hframe f s (s\<lparr>sv_exch := ex\<rparr>)"
proof -
  let ?s = "s\<lparr>sv_exch := ex\<rparr>"
  have "view ?s = view s" by (simp add: view_def)
  with assms have "sv_inv ?s"
    by (auto simp: inv_except_def ids_ok_def conns_ok_def flows_ok_def orders_owned_def)
  moreover have "hframe f s ?s"
    by (auto simp: hframe_def intro: option.rel_refl)
  ultimately show ?thesis ..
qed

lemma inv_owner:
  "sv_inv s \<Longrightarrow> sv_conns s f = Some c \<Longrightarrow> 1 \<le> c_owner_id c \<and> c_owner_id c < sv_next_owner s \<and> (c_role c = Trader \<longleftrightarrow> c_username c \<noteq> [])"
  unfolding inv_except_def ids_ok_def ids_wf_def view_def ident_def by fastforce

text \<open>What a trader submits or cancels leaves every resting order with an owner that may stand there.\<close>

lemma submit_owned:
  assumes inv: "sv_inv s" and c: "sv_conns s f = Some c" "c_role c = Trader"
    and e: "submit side inst qty price (c_owner_id c) out (sv_exch s) = (i, out', ex)" and r: "ex_orders ex j = Some r"
  shows "owned (view s) (sv_next_owner s) (o_owner r)"
proof -
  have "ids_inj (view s)" using inv by (simp add: inv_except_def ids_ok_def)
  then have "x = ident c" if "view s g = Some x" "fst x = c_owner_id c" for g x
    using that c unfolding ids_inj_def view_def ident_def by fastforce
  then have "owned (view s) (sv_next_owner s) (c_owner_id c)"
    using inv_owner [OF inv c(1)] c(2) by (auto simp: owned_def ident_def)
  with submit_owners [OF e r] inv show ?thesis by (auto simp: inv_except_def orders_owned_def)
qed

lemma cancel_owned:
  "sv_inv s \<Longrightarrow> cancel i ow (sv_exch s) = Inr ex \<Longrightarrow> ex_orders ex j = Some r \<Longrightarrow> owned (view s) (sv_next_owner s) (o_owner r)"
  by (auto simp: cancel_orders inv_except_def orders_owned_def split: if_splits)

lemma then_queue_out_ok:
  "sv_inv s1 \<and> hframe f s s1 \<Longrightarrow> sv_inv (queue_out g m s1) \<and> hframe f s (queue_out g m s1)"
  using queue_out_ok [of s1 g m f] by (auto intro: hframe_trans)

lemma cmd_order_ok:
  assumes inv: "sv_inv s"
  shows "sv_inv (cmd_order f tk side s) \<and> hframe f s (cmd_order f tk side s)"
proof -
  have acc: "sv_inv (fold publish trades (queue_out f (msg_order_accepted i) (s\<lparr>sv_exch := ex\<rparr>)))
      \<and> hframe f s (fold publish trades (queue_out f (msg_order_accepted i) (s\<lparr>sv_exch := ex\<rparr>)))"
    if c: "sv_conns s f = Some c" "c_role c \<noteq> MarketData" "c_role c \<noteq> Unknown" and e: "submit side inst qty price (c_owner_id c) [] (sv_exch s) = (i, trades, ex)"
    for c inst qty price i trades ex
  proof -
    have "c_role c = Trader" using c(2,3) by (cases "c_role c") simp_all
    from then_queue_out_ok [OF exch_ok [OF inv submit_owned [OF inv c(1) this e]]]
    have 1: "sv_inv (queue_out f (msg_order_accepted i) (s\<lparr>sv_exch := ex\<rparr>))"
      "hframe f s (queue_out f (msg_order_accepted i) (s\<lparr>sv_exch := ex\<rparr>))" by simp_all
    from fold_ok [of publish f, OF publish_ok 1(1)] 1(2) show ?thesis by (auto intro: hframe_trans)
  qed
  show ?thesis
    using inv acc by (auto simp: cmd_order_def with_conn_def queue_out_ok Let_def split: option.splits prod.splits)
qed

lemma cmd_cancel_ok:
  assumes inv: "sv_inv s"
  shows "sv_inv (cmd_cancel f tk s) \<and> hframe f s (cmd_cancel f tk s)"
proof -
  have "sv_inv (queue_out f m (s\<lparr>sv_exch := ex\<rparr>)) \<and> hframe f s (queue_out f m (s\<lparr>sv_exch := ex\<rparr>))"
    if "cancel i ow (sv_exch s) = Inr ex" for i ow ex m
    using inv cancel_owned [OF inv that] by (intro then_queue_out_ok exch_ok) auto
  then show ?thesis
    using inv by (auto simp: cmd_cancel_def with_conn_def queue_out_ok Let_def split: option.splits sum.splits)
qed

lemma cmd_login_state:
  assumes inv: "sv_inv s" and c: "sv_conns s f = Some c" "\<not> c_dead c" "c_role c = Unknown"
    and u: "u \<noteq> []" "u \<notin> sv_usernames s"
  defines "s1 \<equiv> (upd_conn f (\<lambda>c. c\<lparr>c_role := Trader, c_username := u\<rparr>) s)\<lparr>
      sv_usernames := insert u (sv_usernames s), sv_owner_fd := (sv_owner_fd s)(c_owner_id c \<mapsto> c_fd c)\<rparr>"
  shows "sv_inv s1 \<and> hframe f s s1"
proof -
  have fd: "c_fd c = f" using inv_connD [OF inv c(1)] by simp
  have vf: "view s f = Some (c_owner_id c, Unknown, c_username c, False)"
    using c by (simp add: view_def ident_def)
  have cs: "sv_conns s1 = (sv_conns s)(f \<mapsto> c\<lparr>c_role := Trader, c_username := u\<rparr>)"
    using c by (simp add: s1_def)
  have v1: "view s1 = (view s)(f \<mapsto> (c_owner_id c, Trader, u, False))"
    using view_upd [OF cs] c by (simp add: ident_def)
  have ids: "ids_wf (view s) (sv_next_owner s) (sv_keys s)" "ids_inj (view s)" "owners_ok (view s) (sv_owner_fd s)"
    "names_ok (view s) (sv_usernames s)" "dead_ok (view s) (sv_dead s)"
    using inv by (auto simp: inv_except_def ids_ok_def)
  have "ids_ok s1"
    using ids_login [OF vf ids(1,2) u] ids(3-) by (simp add: ids_ok_def v1 fd) (simp add: s1_def fd)
  moreover have "conns_ok s1" "flows_ok {} s1"
    using inv c cs by (auto simp: inv_except_def conns_ok_def flows_ok_def flow_ok_def s1_def)
  moreover have "orders_owned s1"
    unfolding orders_owned_def v1 using inv owned_upd [of "view s" f, OF vf] by (simp add: inv_except_def orders_owned_def s1_def)
  moreover have "hframe f s s1"
    using c by (auto simp: hframe_def conn_le_def same_id_def s1_def intro: option.rel_refl)
  ultimately show ?thesis by (simp add: inv_except_def)
qed

lemma cmd_login_ok:
  assumes inv: "sv_inv s" and l: "live f s" and tk: "\<forall>w \<in> set tk. w \<noteq> []"
  shows "sv_inv (cmd_login f tk s) \<and> hframe f s (cmd_login f tk s)"
proof -
  obtain c where c: "sv_conns s f = Some c" "\<not> c_dead c" using l by (auto simp: live_def)
  show ?thesis
  proof (cases "length tk = 2 \<and> c_role c = Unknown \<and> tk ! 1 \<notin> sv_usernames s")
    case True
    then have "tk ! 1 \<noteq> []" using tk by simp
    from then_queue_out_ok [OF cmd_login_state [OF inv c _ this]] True c show ?thesis
      by (simp add: cmd_login_def with_conn_def Let_def)
  next
    case False
    then have "\<exists>m. cmd_login f tk s = queue_out f m s"
      using c Role.exhaust by (auto simp: cmd_login_def with_conn_def Let_def)
    with queue_out_ok [OF inv] show ?thesis by auto
  qed
qed

lemma cmd_subscribe_state:
  fixes inst on
  assumes inv: "sv_inv s" and c: "sv_conns s f = Some c" "\<not> c_dead c" "c_role c \<noteq> Trader"
  defines "s1 \<equiv> upd_conn f (\<lambda>c. c\<lparr>c_role := MarketData, c_subs := (c_subs c)(inst := on)\<rparr>) s"
  shows "sv_inv s1 \<and> hframe f s s1"
proof -
  have vf: "view s f = Some (c_owner_id c, c_role c, c_username c, False)"
    using c by (simp add: view_def ident_def)
  have cs: "sv_conns s1 = (sv_conns s)(f \<mapsto> c\<lparr>c_role := MarketData, c_subs := (c_subs c)(inst := on)\<rparr>)"
    using c by (simp add: s1_def)
  have v1: "view s1 = (view s)(f \<mapsto> (c_owner_id c, MarketData, c_username c, False))"
    using view_upd [OF cs] c by (simp add: ident_def)
  have ids: "ids_wf (view s) (sv_next_owner s) (sv_keys s)" "ids_inj (view s)" "owners_ok (view s) (sv_owner_fd s)"
    "names_ok (view s) (sv_usernames s)" "dead_ok (view s) (sv_dead s)"
    using inv by (auto simp: inv_except_def ids_ok_def)
  have "ids_ok s1"
    using ids_subscribe [OF vf c(3) ids(1,2)] ids(3-) by (simp add: ids_ok_def v1) (simp add: s1_def)
  moreover have "conns_ok s1" "flows_ok {} s1"
    using inv c cs by (auto simp: inv_except_def conns_ok_def flows_ok_def flow_ok_def s1_def)
  moreover have "orders_owned s1"
    unfolding orders_owned_def v1 using inv owned_upd [of "view s" f, OF vf] c(3) by (simp add: inv_except_def orders_owned_def s1_def)
  moreover have "c_role c = Unknown \<or> c_role c = MarketData" using c(3) by (cases "c_role c") auto
  then have "hframe f s s1"
    using c by (auto simp: hframe_def conn_le_def same_id_def s1_def intro: option.rel_refl)
  ultimately show ?thesis by (simp add: inv_except_def)
qed

lemma cmd_subscribe_ok:
  assumes inv: "sv_inv s" and l: "live f s"
  shows "sv_inv (cmd_subscribe f tk on s) \<and> hframe f s (cmd_subscribe f tk on s)"
proof -
  obtain c where c: "sv_conns s f = Some c" "\<not> c_dead c" using l by (auto simp: live_def)
  show ?thesis
    using c queue_out_ok [OF inv] then_queue_out_ok [OF cmd_subscribe_state [OF inv c]]
    by (auto simp: cmd_subscribe_def with_conn_def Let_def)
qed

text \<open>Setting the closing flag suspends flow control until the flush that follows it.\<close>

lemma closing_state:
  assumes inv: "sv_inv s" and c: "sv_conns s f = Some c" "\<not> c_dead c"
  defines "s1 \<equiv> upd_conn f (\<lambda>c. c\<lparr>c_closing := True\<rparr>) s"
  shows "inv_except {f} s1 \<and> hframe f s s1"
proof -
  have cs: "sv_conns s1 = (sv_conns s)(f \<mapsto> c\<lparr>c_closing := True\<rparr>)" using c by (simp add: s1_def)
  have "view s1 = (view s)(f \<mapsto> ident c)" using view_upd [OF cs] by (simp add: ident_def)
  also have "\<dots> = view s" using c by (auto simp: view_def fun_eq_iff)
  finally have v1: "view s1 = view s" .
  then have "ids_ok s1" using inv by (simp add: inv_except_def ids_ok_def) (simp add: s1_def)
  moreover have "conns_ok s1" "flows_ok {f} s1" using inv c cs by (auto simp: inv_except_def conns_ok_def flows_ok_def)
  moreover have "orders_owned s1" unfolding orders_owned_def v1 using inv by (simp add: inv_except_def orders_owned_def s1_def)
  moreover have "hframe f s s1"
    using c by (auto simp: hframe_def conn_le_def same_id_def s1_def intro: option.rel_refl)
  ultimately show ?thesis by (simp add: inv_except_def)
qed

lemma cmd_quit_ok:
  assumes inv: "sv_inv s" and l: "live f s"
  shows "sv_inv (cmd_quit f s) \<and> hframe f s (cmd_quit f s)"
proof -
  obtain c where c: "sv_conns s f = Some c" "\<not> c_dead c" using l by (auto simp: live_def)
  let ?s1 = "upd_conn f (\<lambda>c. c\<lparr>c_closing := True\<rparr>) s"
  have 1: "inv_except {f} ?s1" "hframe f s ?s1" using closing_state [OF inv c] by simp_all
  have "ob_pending (c_out c) \<le> kMaxOutBytes"
    using inv c by (auto simp: inv_except_def flows_ok_def flow_ok_def)
  with try_flush_ok [OF 1(1), of "c\<lparr>c_closing := True\<rparr>" f] c have
    "sv_inv (try_flush f ?s1)" "hframe f ?s1 (try_flush f ?s1)" by simp_all
  with 1 show ?thesis unfolding cmd_quit_def by (auto intro: hframe_trans)
qed

lemma handle_line_ok:
  assumes "sv_inv s" and "live f s"
  shows "sv_inv (handle_line f line s) \<and> hframe f s (handle_line f line s)"
proof -
  have "\<forall>w \<in> set (split_ws line). w \<noteq> []" using tokens_sound by (simp add: split_ws_tokens)
  with assms show ?thesis
    by (simp add: handle_line_def Let_def cmd_login_ok cmd_order_ok cmd_cancel_ok cmd_subscribe_ok
        cmd_quit_ok queue_out_ok)
qed

section \<open>The contract as an interface\<close>

text \<open>
  A handler for connection \<open>f\<close> keeps the server invariant and stays in its frame whenever
  \<open>f\<close> lives; an output operation does so for every \<open>f\<close>, dead or alive.
\<close>

locale server_handler =
  fixes h :: "Server \<Rightarrow> Server" and f :: fd
  assumes keeps: "sv_inv s \<Longrightarrow> live f s \<Longrightarrow> sv_inv (h s) \<and> hframe f s (h s)"
begin

lemma conn_after:
  assumes "sv_inv s" and "live f s" and "sv_conns s g = Some c"
  obtains c' where "sv_conns (h s) g = Some c'" "conn_le (g = f) c c'"
  using keeps [OF assms(1,2)] assms(3) hframe_conn2 by blast

text \<open>A role, once taken, is never given up, and a name stays with it.\<close>

lemma role_fixed:
  assumes "sv_inv s" and "live f s" and "sv_conns s g = Some c" and "c_role c \<noteq> Unknown"
  shows "\<exists>c'. sv_conns (h s) g = Some c' \<and> c_role c' = c_role c \<and> c_username c' = c_username c"
  by (rule conn_after [OF assms(1-3)]) (use assms(4) in \<open>auto simp: conn_le_def\<close>)

text \<open>Other clients' sessions are left alone: only their output and the dead flag change.\<close>

lemma others_keep_session:
  assumes "sv_inv s" and "live f s" and "sv_conns s g = Some c" and "g \<noteq> f"
  shows "\<exists>c'. sv_conns (h s) g = Some c' \<and> same_id c c'"
  by (rule conn_after [OF assms(1-3)]) (use assms(4) in \<open>auto simp: conn_le_def\<close>)

end

locale server_output =
  fixes h :: "Server \<Rightarrow> Server"
  assumes keeps_any: "sv_inv s \<Longrightarrow> sv_inv (h s) \<and> hframe f s (h s)"
begin

lemma dead_stays: "sv_inv s \<Longrightarrow> live g (h s) \<Longrightarrow> live g s"
  using keeps_any [of s g] by (auto simp: live_def conn_le_def elim: hframe_conn)

end

sublocale server_output \<subseteq> server_handler h f for f
  by unfold_locales (rule keeps_any)

interpretation qo: server_output "queue_out g m" for g m
  by unfold_locales (rule queue_out_ok)

interpretation pub: server_output "publish t" for t
  by unfold_locales (rule publish_ok)

interpretation hl: server_handler "handle_line f line" f for f line
  by unfold_locales (rule handle_line_ok)

end
