(* ===== verification/Output.thy ===== *)
theory Output
  imports Handlers "HOL-Library.Sublist"
begin

text \<open>
  What the handlers put on the wire. The stream of a connection is what the kernel has taken
  on its descriptor followed by what is still pending; \<open>emits F s m s'\<close> says that between the
  two states the stream of every connection that still lives grew by exactly \<open>m\<close>, that a
  connection closed in between was sent a prefix of that, and that only connections with
  something to send, or in \<open>F\<close>, were closed. Which messages a trade produces, and
  for whom, is \<open>trade_msgs\<close>.
\<close>

section \<open>Streams\<close>

definition stream :: "fd \<Rightarrow> Server \<Rightarrow> string" where
  "stream g s = sent g (calls (sv_os s)) @
     (case sv_conns s g of None \<Rightarrow> [] | Some c \<Rightarrow> if c_dead c then [] else ob_ptr (c_out c))"

definition emits :: "fd set \<Rightarrow> Server \<Rightarrow> (fd \<Rightarrow> string) \<Rightarrow> Server \<Rightarrow> bool" where
  "emits F s m s' \<longleftrightarrow> (\<forall>g.
     if live g s
     then (if live g s' then stream g s' = stream g s @ m g
           else prefix (stream g s') (stream g s @ m g) \<and> (m g \<noteq> [] \<or> g \<in> F))
     else \<not> live g s' \<and> stream g s' = stream g s)"

definition to :: "fd \<Rightarrow> string \<Rightarrow> fd \<Rightarrow> string" where
  "to f m g = (if g = f then m else [])"

lemma to_simps [simp]: "to f m f = m" "g \<noteq> f \<Longrightarrow> to f m g = []" "to f [] g = []"
  by (simp_all add: to_def)

lemma emits_live: "emits F s m s' \<Longrightarrow> live g s' \<Longrightarrow> live g s \<and> stream g s' = stream g s @ m g"
  unfolding emits_def by metis

lemma emits_trans:
  assumes "emits F s m s'" and "emits F s' m' s''"
  shows "emits F s (\<lambda>g. m g @ m' g) s''"
  unfolding emits_def
proof
  fix g
  have 1: "if live g s then (if live g s' then stream g s' = stream g s @ m g
      else prefix (stream g s') (stream g s @ m g) \<and> (m g \<noteq> [] \<or> g \<in> F)) else \<not> live g s' \<and> stream g s' = stream g s"
    using assms(1) unfolding emits_def by blast
  have 2: "if live g s' then (if live g s'' then stream g s'' = stream g s' @ m' g
      else prefix (stream g s'') (stream g s' @ m' g) \<and> (m' g \<noteq> [] \<or> g \<in> F)) else \<not> live g s'' \<and> stream g s'' = stream g s'"
    using assms(2) unfolding emits_def by blast
  have ext: "prefix x (stream g s @ m g) \<Longrightarrow> prefix x (stream g s @ m g @ m' g)" for x
    by (metis append.assoc prefix_prefix)
  show "if live g s then (if live g s'' then stream g s'' = stream g s @ m g @ m' g
      else prefix (stream g s'') (stream g s @ m g @ m' g) \<and> (m g @ m' g \<noteq> [] \<or> g \<in> F)) else \<not> live g s'' \<and> stream g s'' = stream g s"
    using 1 2 ext by (cases "live g s"; cases "live g s'"; cases "live g s''") auto
qed

lemma emits_cong:
  assumes "emits F s m s'" and "\<And>g. live g s \<Longrightarrow> m g = m' g"
  shows "emits F s m' s'"
  using assms unfolding emits_def by metis

lemma emits_quiet:
  assumes "\<And>g. live g s' = live g s" and "\<And>g. stream g s' = stream g s"
  shows "emits F s (\<lambda>_. []) s'"
  using assms by (simp add: emits_def)

lemma emits_refl [simp]: "emits F s (\<lambda>_. []) s"
  by (simp add: emits_quiet)

text \<open>A change of the connection that touches neither output nor the dead flag is silent.\<close>

lemma emits_upd:
  assumes "\<And>c. c_out (k c) = c_out c \<and> c_dead (k c) = c_dead c"
    and "sv_conns s' = (sv_conns s)(f := map_option k (sv_conns s f))" and "sv_os s' = sv_os s"
  shows "emits F s (\<lambda>_. []) s'"
proof (rule emits_quiet)
  fix g
  show "live g s' = live g s" "stream g s' = stream g s"
    using assms by (cases "g = f"; cases "sv_conns s f"; simp add: live_def stream_def)+
qed

lemma emits_exch [simp]: "emits F s (\<lambda>_. []) (s\<lparr>sv_exch := ex\<rparr>)"
  by (rule emits_quiet) (simp_all add: live_def stream_def)

lemma io1_emits: "io1 f m s s' \<Longrightarrow> m \<noteq> [] \<or> f \<in> F \<Longrightarrow> emits F s (to f m) s'"
proof (induction rule: io1.cases)
  case (io_keep s f c c' w' cs m)
  let ?s' = "s\<lparr>sv_conns := (sv_conns s)(f \<mapsto> c'), sv_os := w'\<rparr>"
  have "live g ?s' = live g s \<and> stream g ?s' = stream g s @ to f m g" for g
    using io_keep by (cases "g = f") (auto simp: live_def stream_def)
  with io_keep show ?case by (simp add: emits_def) (simp add: live_def stream_def to_def)
next
  case (io_drop s f c c' w' cs m)
  then obtain rest where r: "sent f cs @ rest = ob_ptr (c_out c) @ m" by blast
  have "prefix (sent f (calls w')) (stream f s @ m)"
    using io_drop r by (simp add: stream_def prefix_def) metis
  with io_drop show ?case by (auto simp: emits_def live_def stream_def)
qed

lemma queue_out_emits:
  assumes "sv_inv s" and "m \<noteq> []"
  shows "emits F s (to f m) (queue_out f m s)"
proof (cases "live f s")
  case True
  then obtain c where c: "sv_conns s f = Some c" "\<not> c_dead c" by (auto simp: live_def)
  with inv_connD [OF assms(1) c(1)] assms(2) show ?thesis by (intro io1_emits queue_out_io) auto
next
  case False
  then have "queue_out f m s = s"
    by (cases "sv_conns s f") (auto simp: live_def output_noop)
  with False show ?thesis by (auto intro: emits_cong [OF emits_refl] simp: to_def)
qed

section \<open>Output operations leave the session state alone\<close>

definition oframe :: "Server \<Rightarrow> Server \<Rightarrow> bool" where
  "oframe s s' \<longleftrightarrow> (\<forall>f. hframe f s s')"

lemma oframe_conn:
  assumes "oframe s s'" and "sv_conns s' g = Some c'"
  obtains c where "sv_conns s g = Some c" "same_id c c'" "c_dead c \<longrightarrow> c_dead c'"
proof -
  have "hframe (g + 1) s s'" using assms(1) by (simp add: oframe_def)
  then obtain c where "sv_conns s g = Some c" "conn_le False c c'"
    using assms(2) by (auto elim: hframe_conn)
  then show ?thesis using that by (auto simp: conn_le_def)
qed

lemma oframe_trans: "oframe a b \<Longrightarrow> oframe b c \<Longrightarrow> oframe a c"
  unfolding oframe_def by (blast intro: hframe_trans)

text \<open>
  The registered owners after output are those from before whose connection still lives.
\<close>

lemma inv_owner_fd:
  assumes "sv_inv s"
  shows "sv_owner_fd s ow = Some g \<longleftrightarrow>
    (\<exists>c. sv_conns s g = Some c \<and> \<not> c_dead c \<and> c_role c = Trader \<and> c_owner_id c = ow)"
proof -
  have "sv_owner_fd s ow = Some g \<longleftrightarrow> (\<exists>u. view s g = Some (ow, Trader, u, False))"
    using assms unfolding inv_except_def ids_ok_def owners_ok_def by blast
  then show ?thesis by (auto simp: view_def ident_def)
qed

lemma oframe_live_same:
  assumes "oframe s s'" and "live g s'"
  obtains c c' where "sv_conns s g = Some c" "sv_conns s' g = Some c'" "same_id c c'" "\<not> c_dead c" "\<not> c_dead c'"
proof -
  obtain c' where c': "sv_conns s' g = Some c'" "\<not> c_dead c'" using assms(2) by (auto simp: live_def)
  from oframe_conn [OF assms(1) c'(1)] c' that show ?thesis by blast
qed

lemma owner_fd_frame:
  assumes "sv_inv s" and "sv_inv s'" and "oframe s s'" and "live g s'"
  shows "sv_owner_fd s' ow = Some g \<longleftrightarrow> sv_owner_fd s ow = Some g"
  by (rule oframe_live_same [OF assms(3,4)]) (auto simp: inv_owner_fd assms(1,2) same_id_def)

section \<open>The messages of a trade\<close>

lemma msg_nonempty [simp]:
  "msg_ok \<noteq> []" "msg_error e \<noteq> []" "msg_order_accepted i \<noteq> []" "msg_order_cancelled i \<noteq> []"
  "msg_bought j q p \<noteq> []" "msg_sold j q p \<noteq> []" "msg_trade j q p \<noteq> []"
  by (simp_all add: msg_ok_def msg_error_def msg_order_accepted_def msg_order_cancelled_def
      msg_bought_def msg_sold_def msg_trade_def msg_exec_def)

definition subscriber :: "int \<Rightarrow> fd \<Rightarrow> Server \<Rightarrow> bool" where
  "subscriber inst g s \<longleftrightarrow> (case sv_conns s g of None \<Rightarrow> False
     | Some c \<Rightarrow> c_role c = MarketData \<and> c_subs c inst \<and> \<not> c_closing c \<and> \<not> c_dead c)"

definition trade_msgs :: "Server \<Rightarrow> Trade \<Rightarrow> fd \<Rightarrow> string" where
  "trade_msgs s t g =
     (if sv_owner_fd s (t_buyer_owner t) = Some g then msg_bought (t_inst t) (t_qty t) (t_price t) else []) @
     (if sv_owner_fd s (t_seller_owner t) = Some g then msg_sold (t_inst t) (t_qty t) (t_price t) else []) @
     (if subscriber (t_inst t) g s then msg_trade (t_inst t) (t_qty t) (t_price t) else [])"

lemma subscriber_frame:
  assumes "oframe s s'" and "live g s'"
  shows "subscriber inst g s' = subscriber inst g s"
  by (rule oframe_live_same [OF assms]) (auto simp: subscriber_def same_id_def)

lemma trade_msgs_frame:
  assumes "sv_inv s" and "sv_inv s'" and "oframe s s'" and "live g s'"
  shows "trade_msgs s' t g = trade_msgs s t g"
  by (simp add: trade_msgs_def owner_fd_frame [OF assms] subscriber_frame [OF assms(3,4)])

lemma notify_owner_emits:
  assumes "sv_inv s" and "m \<noteq> []"
  shows "emits F s (\<lambda>g. if sv_owner_fd s ow = Some g then m else []) (notify_owner ow m s)"
proof (cases "sv_owner_fd s ow")
  case None
  then show ?thesis by (simp add: notify_owner_def)
next
  case (Some f)
  then have "notify_owner ow m s = queue_out f m s"
    using inv_owner_fd [OF assms(1), of ow f] by (auto simp: notify_owner_def find_live_def)
  with Some show ?thesis
    by (auto intro: emits_cong [OF queue_out_emits [OF assms]] simp: to_def)
qed

lemma publish_to_emits:
  assumes "sv_inv s"
  shows "emits F s (\<lambda>g. if g = f \<and> subscriber (t_inst t) g s then msg_trade (t_inst t) (t_qty t) (t_price t) else [])
    (publish_to t f s)"
proof (cases "subscriber (t_inst t) f s")
  case True
  then have "publish_to t f s = queue_out f (msg_trade (t_inst t) (t_qty t) (t_price t)) s"
    by (auto simp: publish_to_def subscriber_def split: option.splits)
  with True show ?thesis
    by (auto intro: emits_cong [OF queue_out_emits [OF assms msg_nonempty(7)]] simp: to_def)
next
  case False
  then have "publish_to t f s = s"
    by (auto simp: publish_to_def subscriber_def split: option.splits)
  with False show ?thesis by (auto intro: emits_cong [OF emits_refl])
qed

lemma publish_to_oframe: "sv_inv s \<Longrightarrow> oframe s (publish_to t f s)"
  by (simp add: oframe_def publish_to_ok)

lemma fold_publish_to_emits:
  assumes "sv_inv s" and "distinct fs"
  shows "emits F s (\<lambda>g. if g \<in> set fs \<and> subscriber (t_inst t) g s then msg_trade (t_inst t) (t_qty t) (t_price t) else [])
    (fold (publish_to t) fs s)"
  using assms
proof (induction fs arbitrary: s)
  case Nil
  then show ?case by simp
next
  case (Cons f fs)
  let ?s1 = "publish_to t f s" and ?m = "msg_trade (t_inst t) (t_qty t) (t_price t)"
  have 1: "sv_inv ?s1" "oframe s ?s1" using Cons.prems(1) by (simp_all add: publish_to_ok publish_to_oframe)
  have "emits F ?s1 (\<lambda>g. if g \<in> set fs \<and> subscriber (t_inst t) g s then ?m else []) (fold (publish_to t) fs ?s1)"
    using Cons.prems by (intro emits_cong [OF Cons.IH [OF 1(1)]]) (auto simp: subscriber_frame [OF 1(2)])
  from emits_trans [OF publish_to_emits [OF Cons.prems(1), where f = f and t = t] this] Cons.prems(2) show ?case
    by (auto elim!: emits_cong)
qed

lemma inv_keys: "sv_inv s \<Longrightarrow> distinct (sv_keys s) \<and> set (sv_keys s) = dom (sv_conns s)"
proof -
  assume "sv_inv s"
  then have "distinct (sv_keys s)" "set (sv_keys s) = dom (view s)"
    by (simp_all add: inv_except_def ids_ok_def ids_wf_def)
  moreover have "dom (view s) = dom (sv_conns s)" by (auto simp: view_def dom_def)
  ultimately show ?thesis by simp
qed

lemma conn_iter_enum: "sv_inv s \<Longrightarrow> distinct (conn_iter s) \<and> set (conn_iter s) = dom (sv_conns s)"
  using inv_keys [of s] by (simp add: conn_iter_def Let_def)

lemma subscriber_dom: "subscriber inst g s \<Longrightarrow> g \<in> dom (sv_conns s)"
  by (auto simp: subscriber_def split: option.splits)

lemma publish_emits:
  assumes inv: "sv_inv s"
  shows "emits F s (trade_msgs s t) (publish t s)"
proof -
  let ?b = "msg_bought (t_inst t) (t_qty t) (t_price t)" and ?s = "msg_sold (t_inst t) (t_qty t) (t_price t)"
    and ?t = "msg_trade (t_inst t) (t_qty t) (t_price t)"
  define s1 where "s1 = notify_owner (t_buyer_owner t) ?b s"
  define s2 where "s2 = notify_owner (t_seller_owner t) ?s s1"
  have 1: "sv_inv s1" "oframe s s1" using notify_owner_ok [OF inv] by (simp_all add: s1_def oframe_def)
  have 2: "sv_inv s2" "oframe s1 s2" using notify_owner_ok [OF 1(1)] by (simp_all add: s2_def oframe_def)
  note o2 = oframe_trans [OF 1(2) 2(2)]
  have e1: "emits F s (\<lambda>g. if sv_owner_fd s (t_buyer_owner t) = Some g then ?b else []) s1"
    unfolding s1_def by (rule notify_owner_emits [OF inv msg_nonempty(5)])
  have e2: "emits F s1 (\<lambda>g. if sv_owner_fd s (t_seller_owner t) = Some g then ?s else []) s2"
    unfolding s2_def
    by (rule emits_cong [OF notify_owner_emits [OF 1(1) msg_nonempty(6)]]) (simp add: owner_fd_frame [OF inv 1])
  have it: "distinct (conn_iter s2)" "set (conn_iter s2) = dom (sv_conns s2)"
    using conn_iter_enum [OF 2(1)] by auto
  have e3: "emits F s2 (\<lambda>g. if subscriber (t_inst t) g s then ?t else []) (fold (publish_to t) (conn_iter s2) s2)"
    using it(2) subscriber_dom
    by (intro emits_cong [OF fold_publish_to_emits [OF 2(1) it(1)]])
      (auto simp: subscriber_frame [OF o2])
  have "publish t s = fold (publish_to t) (conn_iter s2) s2"
    by (simp add: publish_def s1_def s2_def Let_def)
  with emits_trans [OF e1 emits_trans [OF e2 e3]] show ?thesis
    unfolding trade_msgs_def by simp
qed

lemma publish_oframe: "sv_inv s \<Longrightarrow> oframe s (publish t s)"
  by (simp add: oframe_def publish_ok)

lemma fold_publish_emits:
  assumes "sv_inv s"
  shows "emits F s (\<lambda>g. concat (map (\<lambda>t. trade_msgs s t g) ts)) (fold publish ts s)"
  using assms
proof (induction ts arbitrary: s)
  case Nil
  then show ?case by simp
next
  case (Cons t ts)
  have 1: "sv_inv (publish t s)" "oframe s (publish t s)"
    using Cons.prems by (simp_all add: publish_ok publish_oframe)
  have "emits F (publish t s) (\<lambda>g. concat (map (\<lambda>t. trade_msgs s t g) ts)) (fold publish ts (publish t s))"
    by (rule emits_cong [OF Cons.IH [OF 1(1)]]) (simp add: trade_msgs_frame [OF Cons.prems 1])
  from emits_trans [OF publish_emits [OF Cons.prems] this] show ?case by simp
qed

end
