(* ===== verification/Book_Spec.thy ===== *)
theory Book_Spec
  imports Book
begin

text \<open>
  The meaning of the matching engine. The specification keeps one list of resting orders in
  arrival order; submitting walks that list and fills against every order of the opposite
  side at the same instrument and price, oldest first; cancelling deletes from the list. The
  relation \<open>represents\<close> says that the tables of an \<open>Exchange\<close> are exactly the index of such
  a list, and the two operations are proved to preserve it and to compute what the
  specification computes.
\<close>

section \<open>The specification\<close>

record spec_book =
  sb_next :: u32
  sb_rest :: "Order list"

definition crosses :: "Side \<Rightarrow> int \<Rightarrow> u32 \<Rightarrow> Order \<Rightarrow> bool" where
  "crosses side inst price r \<longleftrightarrow> o_side r \<noteq> side \<and> o_inst r = inst \<and> o_price r = price"

fun fill :: "Side \<Rightarrow> int \<Rightarrow> u32 \<Rightarrow> owner \<Rightarrow> u32 \<Rightarrow> Order list \<Rightarrow> u32 \<times> Order list \<times> Trade list" where
  "fill side inst price owner rem [] = (rem, [], [])"
| "fill side inst price owner rem (r # rs) =
     (if rem = 0 \<or> \<not> crosses side inst price r
      then (let (rem', rs', ts) = fill side inst price owner rem rs in (rem', r # rs', ts))
      else (let q = min rem (o_remaining r);
                (rem', rs', ts) = fill side inst price owner (rem - q) rs
            in (rem',
                if o_remaining r = q then rs' else r\<lparr>o_remaining := o_remaining r - q\<rparr> # rs',
                mk_trade side inst q price owner (o_owner r) # ts)))"

definition spec_submit ::
  "Side \<Rightarrow> int \<Rightarrow> u32 \<Rightarrow> u32 \<Rightarrow> owner \<Rightarrow> spec_book \<Rightarrow> u32 \<times> Trade list \<times> spec_book" where
  "spec_submit side inst qty price owner b =
     (let (rem, rs, ts) = fill side inst price owner qty (sb_rest b)
      in (sb_next b, ts,
          \<lparr>sb_next = sb_next b + 1,
           sb_rest = rs @ (if rem = 0 then [] else
             [\<lparr>o_id = sb_next b, o_side = side, o_inst = inst, o_price = price,
               o_remaining = rem, o_owner = owner\<rparr>])\<rparr>))"

definition spec_cancel :: "u32 \<Rightarrow> owner \<Rightarrow> spec_book \<Rightarrow> string + spec_book" where
  "spec_cancel i owner b =
     (case find (\<lambda>r. o_id r = i) (sb_rest b) of
        None \<Rightarrow> Inl ''unknown order''
      | Some r \<Rightarrow>
          if o_owner r \<noteq> owner then Inl ''not your order''
          else Inr (b\<lparr>sb_rest := filter (\<lambda>r. o_id r \<noteq> i) (sb_rest b)\<rparr>))"

section \<open>The simulation relation\<close>

text \<open>The ids of a list of orders, and its index by instrument, side and price.\<close>

abbreviation by_id :: "Order list \<Rightarrow> orders" where
  "by_id rs \<equiv> map_of (map (\<lambda>r. (o_id r, r)) rs)"

definition at_level :: "int \<Rightarrow> int \<Rightarrow> u32 \<Rightarrow> Order \<Rightarrow> bool" where
  "at_level i k p r \<longleftrightarrow> o_inst r = i \<and> side_idx (o_side r) = k \<and> o_price r = p"

definition level :: "int \<Rightarrow> int \<Rightarrow> u32 \<Rightarrow> Order list \<Rightarrow> u32 list" where
  "level i k p rs = map o_id (filter (at_level i k p) rs)"

definition index :: "Order list \<Rightarrow> books" where
  "index rs = (\<lambda>i k p. if level i k p rs = [] then None else Some (level i k p rs))"

definition orders_ok :: "u32 \<Rightarrow> Order list \<Rightarrow> bool" where
  "orders_ok n rs \<longleftrightarrow> sorted_wrt (<) (map o_id rs) \<and> (\<forall>r \<in> set rs. o_id r < n \<and> 0 < o_remaining r)"

definition represents :: "Exchange \<Rightarrow> spec_book \<Rightarrow> bool" where
  "represents ex b \<longleftrightarrow>
     ex_next_id ex = sb_next b \<and> ex_orders ex = by_id (sb_rest b) \<and> ex_books ex = index (sb_rest b)
     \<and> orders_ok (sb_next b) (sb_rest b)"

text \<open>An uncrossed book: at one instrument and price all resting orders are on one side.\<close>

definition uncrossed :: "Order list \<Rightarrow> bool" where
  "uncrossed rs \<longleftrightarrow>
     (\<forall>r \<in> set rs. \<forall>r' \<in> set rs. o_inst r = o_inst r' \<longrightarrow> o_price r = o_price r' \<longrightarrow> o_side r = o_side r')"

lemma crosses_at_level: "crosses side inst price = at_level inst (if side = Buy then 1 else 0) price"
  by (auto simp: fun_eq_iff crosses_def at_level_def book_simps)

lemma orders_ok_distinct: "orders_ok n rs \<Longrightarrow> distinct (map o_id rs)"
  by (simp add: orders_ok_def sorted_distinct_strict)

lemma by_id_eq: "distinct (map o_id rs) \<Longrightarrow> by_id rs i = Some r \<longleftrightarrow> r \<in> set rs \<and> o_id r = i"
proof (induction rs)
  case Nil
  then show ?case by simp
next
  case (Cons a rs)
  then show ?case by (auto simp: image_iff)
qed

lemma by_id_None: "by_id rs i = None \<longleftrightarrow> i \<notin> o_id ` set rs"
  by (simp add: map_of_eq_None_iff image_image)

lemma by_id_notin [simp]: "i \<notin> o_id ` set rs \<Longrightarrow> by_id rs i = None"
  by (rule by_id_None [THEN iffD2])

section \<open>Filling\<close>

lemma fill_0 [simp]: "fill side inst price owner 0 rs = (0, rs, [])"
  by (induction rs) auto

lemma fill_sub:
  "fill side inst price owner rem rs = (rem', rs', ts) \<Longrightarrow>
   (\<forall>r' \<in> set rs'. \<exists>r \<in> set rs. o_id r' = o_id r \<and> o_side r' = o_side r \<and> o_inst r' = o_inst r
      \<and> o_price r' = o_price r \<and> o_owner r' = o_owner r)"
proof (induction rs arbitrary: rem rem' rs' ts)
  case Nil
  then show ?case by simp
next
  case (Cons r rs)
  obtain m rs2 ts2 where f: "fill side inst price owner
      (if rem = 0 \<or> \<not> crosses side inst price r then rem else rem - min rem (o_remaining r)) rs = (m, rs2, ts2)"
    by (metis prod_cases3)
  from Cons.IH [OF f] Cons.prems f show ?case
    by (auto simp: Let_def split: if_splits)
qed

lemma fill_ids: "fill side inst price owner rem rs = (rem', rs', ts) \<Longrightarrow> o_id ` set rs' \<subseteq> o_id ` set rs"
  using fill_sub by (fastforce simp: image_iff)

lemma fill_orders_ok:
  "fill side inst price owner rem rs = (rem', rs', ts) \<Longrightarrow> orders_ok n rs \<Longrightarrow> orders_ok n rs'"
proof (induction rs arbitrary: rem rem' rs' ts)
  case Nil
  then show ?case by simp
next
  case (Cons r rs)
  obtain m rs2 ts2 where f: "fill side inst price owner
      (if rem = 0 \<or> \<not> crosses side inst price r then rem else rem - min rem (o_remaining r)) rs = (m, rs2, ts2)"
    by (metis prod_cases3)
  from Cons.prems(2) have r: "\<forall>x \<in> set rs. o_id r < o_id x" "o_id r < n" "0 < o_remaining r"
    and ok: "orders_ok n rs"
    by (auto simp: orders_ok_def)
  from Cons.IH [OF f ok] have ok2: "orders_ok n rs2" .
  from fill_sub [OF f] r(1) have lt: "\<forall>x \<in> set rs2. o_id r < o_id x" by fastforce
  have pos: "o_remaining r \<noteq> min rem (o_remaining r) \<Longrightarrow> 0 < o_remaining r - min rem (o_remaining r)"
    by (simp add: word_gt_0)
  have "rs' = rs2 \<or> (\<exists>x. rs' = x # rs2 \<and> o_id x = o_id r \<and> 0 < o_remaining x)"
    using Cons.prems(1) f r(3) pos by (auto simp: Let_def split: if_splits)
  with ok2 lt r(2) show ?case by (auto simp: orders_ok_def)
qed

lemma fill_exhausts:
  "fill side inst price owner rem rs = (rem', rs', ts) \<Longrightarrow> rem' \<noteq> 0 \<Longrightarrow>
   filter (crosses side inst price) rs' = []"
proof (induction rs arbitrary: rem rem' rs' ts)
  case Nil
  then show ?case by simp
next
  case (Cons r rs)
  obtain m rs2 ts2 where f: "fill side inst price owner
      (if rem = 0 \<or> \<not> crosses side inst price r then rem else rem - min rem (o_remaining r)) rs = (m, rs2, ts2)"
    by (metis prod_cases3)
  have m: "m = rem'" using Cons.prems(1) f by (auto simp: Let_def split: if_splits)
  then have "filter (crosses side inst price) rs2 = []" using Cons.IH [OF f] Cons.prems(2) by simp
  moreover have "rem - min rem (o_remaining r) \<noteq> 0 \<Longrightarrow> o_remaining r = min rem (o_remaining r)"
    unfolding word_sub_min_eq_0 by simp
  moreover have "crosses side inst price r \<Longrightarrow> rem - min rem (o_remaining r) \<noteq> 0"
    using f m Cons.prems(2) by (auto split: if_splits)
  ultimately show ?case using Cons.prems f by (auto simp: Let_def split: if_splits)
qed

section \<open>The matching loop computes the fill\<close>

text \<open>
  The order table after filling against the orders \<open>rs\<close>: those of \<open>rs\<close> that survive,
  and the orders outside \<open>rs\<close> as before.
\<close>

definition overlay :: "orders \<Rightarrow> Order list \<Rightarrow> Order list \<Rightarrow> orders" where
  "overlay m rs rs' = (\<lambda>i. if i \<in> o_id ` set rs then by_id rs' i else m i)"

lemma overlay_Cons_gone:
  "o_id r \<notin> o_id ` set rs' \<Longrightarrow> overlay (m(o_id r := None)) rs rs' = overlay m (r # rs) rs'"
  by (auto simp: overlay_def fun_eq_iff)

lemma overlay_Cons_kept:
  "m (o_id r) = Some r \<Longrightarrow> o_id r \<notin> o_id ` set rs \<Longrightarrow> overlay m rs rs' = overlay m (r # rs) (r # rs')"
  by (auto simp: overlay_def fun_eq_iff)

lemma overlay_refl: "\<forall>r \<in> set rs. m (o_id r) = Some r \<Longrightarrow> overlay m rs rs = m"
proof (rule ext)
  fix i
  assume m: "\<forall>r \<in> set rs. m (o_id r) = Some r"
  show "overlay m rs rs i = m i"
  proof (cases "i \<in> o_id ` set rs")
    case True
    then obtain r where "by_id rs i = Some r"
      by (cases "by_id rs i") (auto simp: by_id_None)
    then have "r \<in> set rs \<and> o_id r = i" by (auto dest: map_of_SomeD)
    with m \<open>by_id rs i = Some r\<close> True show ?thesis by (auto simp: overlay_def)
  qed (simp add: overlay_def)
qed

lemma match_loop_fills:
  assumes "distinct (map o_id rs)" and "\<forall>r \<in> set rs. m (o_id r) = Some r"
    and "fill side inst price owner rem rs = (rem', rs', ts)"
  shows "match_loop side inst price owner rem (map o_id (filter (crosses side inst price) rs)) m out =
    (rem', map o_id (filter (crosses side inst price) rs'), overlay m rs rs', out @ ts)"
  using assms
proof (induction rs arbitrary: rem rem' rs' ts m out)
  case Nil
  then show ?case by (simp add: match_loop_stop overlay_def)
next
  case (Cons r rs)
  from Cons.prems(1,2) have d: "distinct (map o_id rs)" "o_id r \<notin> o_id ` set rs"
    and m: "m (o_id r) = Some r" "\<forall>x \<in> set rs. m (o_id x) = Some x" by auto
  consider (zero) "rem = 0" | (skip) "rem \<noteq> 0" "\<not> crosses side inst price r"
    | (full) "rem \<noteq> 0" "crosses side inst price r" "o_remaining r \<le> rem"
    | (part) "rem \<noteq> 0" "crosses side inst price r" "rem < o_remaining r"
    by force
  then show ?case
  proof cases
    case zero
    with Cons.prems(3) have "rem' = 0" "rs' = r # rs" "ts = []" by auto
    moreover have "overlay m (r # rs) (r # rs) = m" using Cons.prems(2) by (rule overlay_refl)
    ultimately show ?thesis using zero by (simp add: match_loop_stop)
  next
    case skip
    with Cons.prems(3) obtain rs2 where f: "fill side inst price owner rem rs = (rem', rs2, ts)"
      and "rs' = r # rs2" by (auto split: prod.splits)
    with Cons.IH [OF d(1) m(2) f] skip overlay_Cons_kept [of m r rs rs2] m d show ?thesis by simp
  next
    case full
    with Cons.prems(3) obtain ts2 where
      f: "fill side inst price owner (rem - o_remaining r) rs = (rem', rs', ts2)"
      and ts: "ts = mk_trade side inst (o_remaining r) price owner (o_owner r) # ts2"
      by (auto simp: Let_def min_absorb2 split: prod.splits)
    have g: "o_id r \<notin> o_id ` set rs'" using fill_ids [OF f] d(2) by blast
    define m2 where "m2 = m(o_id r := None)"
    have m': "\<forall>x \<in> set rs. m2 (o_id x) = Some x"
      using m(2) d(2) by (auto simp: m2_def image_iff)
    have ov: "overlay m2 rs rs' = overlay m (r # rs) rs'"
      unfolding m2_def by (rule overlay_Cons_gone [OF g])
    from full Cons.IH [OF d(1) m' f] show ?thesis
      by (simp add: match_loop_fill m word_gt_0 ts m2_def [symmetric] ov)
  next
    case part
    let ?r = "r\<lparr>o_remaining := o_remaining r - rem\<rparr>"
    from part Cons.prems(3) have e: "rem' = 0" "rs' = ?r # rs"
      "ts = [mk_trade side inst rem price owner (o_owner r)]"
      by (auto simp: Let_def min_absorb1)
    have "crosses side inst price ?r" using part(2) by (simp add: crosses_def)
    moreover have "overlay m (r # rs) (?r # rs) = m(o_id r \<mapsto> ?r)"
      using d m by (auto simp: overlay_def fun_eq_iff image_iff by_id_eq)
    ultimately show ?thesis using part by (simp add: match_loop_partial m word_gt_0 e) (simp add: fun_upd_def)
  qed
qed

section \<open>Refinement\<close>

lemma index_apply: "index rs i k p = (if level i k p rs = [] then None else Some (level i k p rs))"
  by (simp add: index_def)

lemma fill_off_level:
  assumes "fill side inst price owner rem rs = (rem', rs', ts)"
    and "\<not> (i = inst \<and> k = (if side = Buy then 1 else 0) \<and> p = price)"
  shows "level i k p rs' = level i k p rs"
  using assms(1)
proof (induction rs arbitrary: rem rem' rs' ts)
  case Nil
  then show ?case by simp
next
  case (Cons r rs)
  obtain m rs2 ts2 where f: "fill side inst price owner
      (if rem = 0 \<or> \<not> crosses side inst price r then rem else rem - min rem (o_remaining r)) rs = (m, rs2, ts2)"
    by (metis prod_cases3)
  have off: "crosses side inst price r \<Longrightarrow> \<not> at_level i k p r"
    using assms(2) by (auto simp: crosses_at_level at_level_def)
  then have off': "crosses side inst price r \<Longrightarrow> \<not> at_level i k p (r\<lparr>o_remaining := x\<rparr>)" for x
    by (simp add: at_level_def)
  from Cons.IH [OF f] Cons.prems f off off' show ?case
    by (auto simp: Let_def level_def split: if_splits)
qed

lemma level_append: "level i k p (rs @ rs') = level i k p rs @ level i k p rs'"
  by (simp add: level_def)

text \<open>One submit on the tables is one submit on the list, for every order and every counter.\<close>

lemma submit_refines:
  assumes rep: "represents ex b" and nowrap: "sb_next b + 1 \<noteq> 0"
    and spec: "spec_submit side inst qty price owner b = (i, ts, b')"
  shows "\<exists>ex'. submit side inst qty price owner out ex = (i, out @ ts, ex') \<and> represents ex' b'"
proof -
  let ?opp = "if side = Buy then 1 else 0 :: int"
  let ?rs = "sb_rest b" and ?n = "sb_next b"
  obtain rem rs' where f: "fill side inst price owner qty ?rs = (rem, rs', ts)"
    and i: "i = ?n"
    and b': "b' = \<lparr>sb_next = ?n + 1, sb_rest = rs' @ (if rem = 0 then [] else
      [\<lparr>o_id = ?n, o_side = side, o_inst = inst, o_price = price, o_remaining = rem, o_owner = owner\<rparr>])\<rparr>"
    using spec by (auto simp: spec_submit_def split: prod.splits)
  from rep have ex: "ex_next_id ex = ?n" "ex_orders ex = by_id ?rs" "ex_books ex = index ?rs"
    and ok: "orders_ok ?n ?rs" by (auto simp: represents_def)
  have d: "distinct (map o_id ?rs)" by (rule orders_ok_distinct [OF ok])
  have m: "\<forall>r \<in> set ?rs. by_id ?rs (o_id r) = Some r" by (simp add: by_id_eq [OF d])
  have ok': "orders_ok ?n rs'" by (rule fill_orders_ok [OF f ok])
  have gone: "by_id rs' x = None" if "x \<notin> o_id ` set ?rs" for x
    using fill_ids [OF f] that by (intro by_id_notin) blast
  have ov: "overlay (by_id ?rs) ?rs rs' = by_id rs'"
    by (rule ext) (simp add: overlay_def gone)
  note loop = match_loop_fills [OF d m f, of out, unfolded ov crosses_at_level, folded level_def]
  have fresh: "by_id rs' ?n = None"
    using ok' by (auto simp: by_id_None orders_ok_def)
  have A: "(case index ?rs inst ?opp price of None \<Rightarrow> (qty, [], by_id ?rs, out)
      | Some lv \<Rightarrow> match_loop side inst price owner qty lv (by_id ?rs) out)
      = (rem, level inst ?opp price rs', by_id rs', out @ ts)"
    using loop by (cases "level inst ?opp price ?rs = []") (auto simp: index_apply match_loop_stop)
  have lvl: "set_level inst ?opp price (index rs' inst ?opp price) (index ?rs) = index rs'"
    by (intro ext) (simp add: set_level_apply index_apply fill_off_level [OF f])
  have B: "(case index ?rs inst ?opp price of None \<Rightarrow> index ?rs
      | Some _ \<Rightarrow> set_level inst ?opp price (if level inst ?opp price rs' = [] then None
          else Some (level inst ?opp price rs')) (index ?rs)) = index rs'"
  proof (cases "level inst ?opp price ?rs = []")
    case True
    with loop have "index rs' inst ?opp price = index ?rs inst ?opp price"
      by (simp add: index_apply match_loop_stop)
    with lvl True show ?thesis by (simp add: set_level_same index_apply)
  next
    case False
    with lvl show ?thesis by (simp add: index_apply)
  qed
  let ?ord = "\<lparr>o_id = ?n, o_side = side, o_inst = inst, o_price = price, o_remaining = rem, o_owner = owner\<rparr>"
  have C: "emplace_order ?n ?ord (by_id rs') = by_id (rs' @ [?ord])"
    by (rule ext) (auto simp: emplace_order_def fresh map_add_def split: option.splits)
  have D: "set_level inst (side_idx side) price
      (Some ((case index rs' inst (side_idx side) price of None \<Rightarrow> [] | Some d \<Rightarrow> d) @ [?n])) (index rs')
      = index (rs' @ [?ord])"
    by (intro ext) (auto simp: set_level_apply index_apply level_append level_def at_level_def)
  have E: "orders_ok (?n + 1) rs'" "orders_ok ?n rs' \<Longrightarrow> 0 < rem \<Longrightarrow> orders_ok (?n + 1) (rs' @ [?ord])"
    using ok' nowrap by (auto simp: orders_ok_def sorted_wrt_append word_less_Suc word_self_less_Suc)
  show ?thesis
    unfolding submit_def ex Let_def A prod.case B C D b'
    using ok' E i by (auto simp: represents_def ex C D word_gt_0)
qed

lemma by_id_find: "by_id rs i = find (\<lambda>r. o_id r = i) rs"
  by (induction rs) auto

lemma by_id_filter: "by_id (filter (\<lambda>r. o_id r \<noteq> i) rs) x = (if x = i then None else by_id rs x)"
  by (induction rs) auto

lemma level_remove:
  assumes "distinct (map o_id rs)"
  shows "remove1 x (level i k p rs) = level i k p (filter (\<lambda>r. o_id r \<noteq> x) rs)"
proof -
  have "distinct (level i k p rs)"
    using assms by (simp add: level_def distinct_map_filter)
  then have "remove1 x (level i k p rs) = filter (\<lambda>y. y \<noteq> x) (level i k p rs)"
    by (simp add: distinct_remove1_removeAll removeAll_filter_not_eq [symmetric] conj_commute)
      (simp add: removeAll_filter_not_eq fun_eq_iff neq_commute)
  then show ?thesis
    by (simp add: level_def filter_map o_def conj_commute)
qed

lemma cancel_refines:
  assumes rep: "represents ex b"
  shows "case spec_cancel i owner b of
      Inl e \<Rightarrow> cancel i owner ex = Inl e
    | Inr b' \<Rightarrow> \<exists>ex'. cancel i owner ex = Inr ex' \<and> represents ex' b'"
proof -
  let ?rs = "sb_rest b"
  from rep have ex: "ex_next_id ex = sb_next b" "ex_orders ex = by_id ?rs" "ex_books ex = index ?rs"
    and ok: "orders_ok (sb_next b) ?rs" by (auto simp: represents_def)
  have d: "distinct (map o_id ?rs)" by (rule orders_ok_distinct [OF ok])
  show ?thesis
  proof (cases "by_id ?rs i")
    case None
    then show ?thesis by (simp add: cancel_def spec_cancel_def ex by_id_find)
  next
    case (Some r)
    then have r: "r \<in> set ?rs" "o_id r = i" by (auto simp: by_id_eq [OF d])
    let ?k = "side_idx (o_side r)" and ?rs' = "filter (\<lambda>r. o_id r \<noteq> i) ?rs"
    have ne: "level (o_inst r) ?k (o_price r) ?rs \<noteq> []"
      using r by (auto simp: level_def at_level_def filter_empty_conv)
    have same: "level j k p ?rs' = level j k p ?rs"
      if "\<not> (j = o_inst r \<and> k = ?k \<and> p = o_price r)" for j k p
    proof -
      have "at_level j k p x \<Longrightarrow> x \<in> set ?rs \<Longrightarrow> o_id x \<noteq> i" for x
        using that r d by (metis at_level_def distinct_map inj_onD)
      then have "filter (at_level j k p) ?rs' = filter (at_level j k p) ?rs"
        by (auto intro: filter_cong)
      then show ?thesis by (simp add: level_def)
    qed
    have B: "set_level (o_inst r) ?k (o_price r)
        (if level (o_inst r) ?k (o_price r) ?rs' = [] then None
         else Some (level (o_inst r) ?k (o_price r) ?rs')) (index ?rs) = index ?rs'"
      by (intro ext) (simp add: set_level_apply index_apply same)
    have O: "(by_id ?rs)(i := None) = by_id ?rs'"
      by (rule ext) (simp add: by_id_filter)
    have "orders_ok (sb_next b) ?rs'"
      using ok by (auto simp: orders_ok_def sorted_wrt_map sorted_wrt_filter)
    then show ?thesis
      using Some ne B O
      by (simp add: cancel_def spec_cancel_def ex by_id_find [symmetric] Let_def index_apply
          level_remove [OF d] represents_def)
  qed
qed

section \<open>The engine as an interface\<close>

text \<open>
  What a client of the engine relies on: from the empty book every submit and every cancel
  computes what the specification computes. A session is a sequence of commands, its log what
  the client sees of it.
\<close>

datatype book_cmd = Submit Side int u32 u32 owner | Cancel u32 owner

datatype book_evt = Accepted u32 "Trade list" | Cancelled u32 | Refused string

fun run_cmds ::
  "(Side \<Rightarrow> int \<Rightarrow> u32 \<Rightarrow> u32 \<Rightarrow> owner \<Rightarrow> Trade list \<Rightarrow> 'x \<Rightarrow> u32 \<times> Trade list \<times> 'x)
   \<Rightarrow> (u32 \<Rightarrow> owner \<Rightarrow> 'x \<Rightarrow> string + 'x) \<Rightarrow> book_cmd list \<Rightarrow> 'x \<Rightarrow> book_evt list \<times> 'x" where
  "run_cmds sub can [] x = ([], x)"
| "run_cmds sub can (Submit side inst qty price owner # cs) x =
     (case sub side inst qty price owner [] x of (i, ts, x') \<Rightarrow>
        let (log, x'') = run_cmds sub can cs x' in (Accepted i ts # log, x''))"
| "run_cmds sub can (Cancel i owner # cs) x =
     (case can i owner x of
        Inl e \<Rightarrow> let (log, x'') = run_cmds sub can cs x in (Refused e # log, x'')
      | Inr x' \<Rightarrow> let (log, x'') = run_cmds sub can cs x' in (Cancelled i # log, x''))"

definition spec_init :: spec_book where
  "spec_init = \<lparr>sb_next = 0, sb_rest = []\<rparr>"

fun is_submit :: "book_cmd \<Rightarrow> bool" where
  "is_submit (Submit _ _ _ _ _) = True"
| "is_submit (Cancel _ _) = False"

abbreviation spec_run :: "book_cmd list \<Rightarrow> spec_book \<Rightarrow> book_evt list \<times> spec_book" where
  "spec_run \<equiv> run_cmds (\<lambda>side inst qty price owner out b.
     case spec_submit side inst qty price owner b of (i, ts, b') \<Rightarrow> (i, out @ ts, b')) spec_cancel"

locale matching_engine =
  fixes sub :: "Side \<Rightarrow> int \<Rightarrow> u32 \<Rightarrow> u32 \<Rightarrow> owner \<Rightarrow> Trade list \<Rightarrow> 'x \<Rightarrow> u32 \<times> Trade list \<times> 'x"
    and can :: "u32 \<Rightarrow> owner \<Rightarrow> 'x \<Rightarrow> string + 'x"
    and empty_book :: 'x
    and rep :: "'x \<Rightarrow> spec_book \<Rightarrow> bool"
  assumes rep_init: "rep empty_book spec_init"
    and rep_submit: "rep x b \<Longrightarrow> sb_next b + 1 \<noteq> 0 \<Longrightarrow>
      spec_submit side inst qty price owner b = (i, ts, b') \<Longrightarrow>
      \<exists>x'. sub side inst qty price owner out x = (i, out @ ts, x') \<and> rep x' b'"
    and rep_cancel: "rep x b \<Longrightarrow> (case spec_cancel i owner b of
        Inl e \<Rightarrow> can i owner x = Inl e | Inr b' \<Rightarrow> \<exists>x'. can i owner x = Inr x' \<and> rep x' b')"
begin

lemma run_refines:
  assumes "rep x b" and "unat (sb_next b) + length (filter is_submit cs) < 2 ^ 32"
  shows "\<exists>x'. run_cmds sub can cs x = (fst (spec_run cs b), x') \<and> rep x' (snd (spec_run cs b))"
  using assms
proof (induction cs arbitrary: x b)
  case Nil
  then show ?case by simp
next
  case (Cons c cs)
  show ?case
  proof (cases c)
    case (Submit side inst qty price owner)
    obtain i ts b' where s: "spec_submit side inst qty price owner b = (i, ts, b')"
      by (metis prod_cases3)
    have b: "unat (sb_next b) + 1 < 2 ^ 32" using Cons.prems(2) Submit by simp
    then have nz: "sb_next b + 1 \<noteq> 0" and u: "unat (sb_next b + 1) = unat (sb_next b) + 1"
      by (simp_all add: word_unat_eq_iff unat_word_ariths)
    from rep_submit [OF Cons.prems(1) nz s, of "[]"] obtain x' where
      x': "sub side inst qty price owner [] x = (i, ts, x')" "rep x' b'" by auto
    have "sb_next b' = sb_next b + 1" using s by (auto simp: spec_submit_def split: prod.splits)
    then have "unat (sb_next b') + length (filter is_submit cs) < 2 ^ 32"
      using Cons.prems(2) Submit u by simp
    from Cons.IH [OF x'(2) this] Submit s x' show ?thesis by (auto split: prod.splits)
  next
    case (Cancel i owner)
    show ?thesis
    proof (cases "spec_cancel i owner b")
      case (Inl e)
      with rep_cancel [OF Cons.prems(1), of i owner] Cons.IH [OF Cons.prems(1)] Cons.prems(2) Cancel
      show ?thesis by (auto split: prod.splits)
    next
      case (Inr b')
      with rep_cancel [OF Cons.prems(1), of i owner] obtain x' where
        x': "can i owner x = Inr x'" "rep x' b'" by auto
      have "sb_next b' = sb_next b"
        using Inr by (auto simp: spec_cancel_def split: option.splits if_splits)
      with Cons.IH [OF x'(2)] Cons.prems(2) Cancel Inr x' show ?thesis by (auto split: prod.splits)
    qed
  qed
qed

end

lemma represents_init: "represents ex_init spec_init"
  by (simp add: represents_def ex_init_def spec_init_def orders_ok_def index_def level_def)

interpretation eng: matching_engine submit cancel ex_init represents
  by unfold_locales (rule represents_init, rule submit_refines, assumption+, rule cancel_refines)

text \<open>
  C2: refinement of the matching engine: any session of fewer than \<open>2^32\<close> submits, with cancels in
  between, run on the engine's tables (order table, four price-indexed books, id counter)
  gives the client exactly the ids, trades, confirmations and refusals of the specification,
  which keeps a single list of orders in arrival order.
\<close>

theorem engine_refines_spec:
  assumes "length (filter is_submit cs) < 2 ^ 32"
  shows "fst (run_cmds submit cancel cs ex_init) = fst (spec_run cs spec_init)
    \<and> represents (snd (run_cmds submit cancel cs ex_init)) (snd (spec_run cs spec_init))"
  using eng.run_refines [OF represents_init, of cs] assms by (auto simp: spec_init_def)

theorem engine_refines_spec_witness:
  "fst (run_cmds submit cancel [Submit Sell 0 5 238 1, Submit Buy 0 7 238 2, Cancel 1 3, Cancel 1 2, Cancel 1 2] ex_init)
   = [Accepted 0 [], Accepted 1 [\<lparr>t_inst = 0, t_qty = 5, t_price = 238, t_buyer_owner = 2, t_seller_owner = 1\<rparr>],
      Refused ''not your order'', Cancelled 1, Refused ''unknown order'']"
  using engine_refines_spec [of "[Submit Sell 0 5 238 1, Submit Buy 0 7 238 2, Cancel 1 3, Cancel 1 2, Cancel 1 2]"]
  by (simp add: spec_submit_def spec_cancel_def spec_init_def crosses_def mk_trade_def)

end
