(* ===== verification/Book_Props.thy ===== *)
theory Book_Props
  imports Book_Spec
begin

text \<open>
  What the refinement gives for the engine itself, in every state it can reach: the tables
  are a consistent index, the book is never crossed, quantity is conserved, older orders at a
  price are filled first, other prices are not touched, and only its owner removes an order.
  The last section is about the id counter: it wraps, and what happens then.
\<close>

section \<open>Reachable exchanges\<close>

text \<open>\<open>ex_reach n ex\<close>: \<open>ex\<close> is reached from the empty exchange with \<open>n\<close> submits and any cancels.\<close>

inductive ex_reach :: "nat \<Rightarrow> Exchange \<Rightarrow> bool" where
  reach_init: "ex_reach 0 ex_init"
| reach_submit: "ex_reach n ex \<Longrightarrow> submit side inst qty price owner out ex = (i, out', ex') \<Longrightarrow>
    ex_reach (Suc n) ex'"
| reach_cancel: "ex_reach n ex \<Longrightarrow> cancel i owner ex = Inr ex' \<Longrightarrow> ex_reach n ex'"

inductive_cases ex_reach_0: "ex_reach 0 ex"

lemma uncrossed_snoc:
  assumes "uncrossed rs" and "\<forall>r \<in> set rs. \<not> crosses (o_side x) (o_inst x) (o_price x) r"
  shows "uncrossed (rs @ [x])"
  unfolding uncrossed_def
proof (intro ballI impI)
  fix r r'
  assume r: "r \<in> set (rs @ [x])" "r' \<in> set (rs @ [x])"
    and e: "o_inst r = o_inst r'" "o_price r = o_price r'"
  have new: "o_side y = o_side x" if "y \<in> set rs" "o_inst y = o_inst x" "o_price y = o_price x" for y
    using assms(2) that unfolding crosses_def by blast
  from r consider "r \<in> set rs" "r' \<in> set rs" | "r \<in> set rs" "r' = x" | "r = x" "r' \<in> set rs"
    | "r = x" "r' = x" by auto
  then show "o_side r = o_side r'"
  proof cases
    case 1
    with assms(1) e show ?thesis unfolding uncrossed_def by blast
  next
    case 2
    with new [of r] e show ?thesis by simp
  next
    case 3
    with new [of r'] e show ?thesis by simp
  qed simp
qed

lemma spec_submit_uncrossed:
  assumes "uncrossed (sb_rest b)" and "spec_submit side inst qty price owner b = (i, ts, b')"
  shows "uncrossed (sb_rest b')"
proof -
  obtain rem rs' where f: "fill side inst price owner qty (sb_rest b) = (rem, rs', ts)"
    and b': "sb_rest b' = rs' @ (if rem = 0 then [] else
      [\<lparr>o_id = sb_next b, o_side = side, o_inst = inst, o_price = price, o_remaining = rem, o_owner = owner\<rparr>])"
    using assms(2) by (auto simp: spec_submit_def split: prod.splits)
  have u: "uncrossed rs'"
    using assms(1) fill_sub [OF f] unfolding uncrossed_def by metis
  show ?thesis
  proof (cases "rem = 0")
    case True
    with u b' show ?thesis by simp
  next
    case False
    then have "\<forall>r \<in> set rs'. \<not> crosses side inst price r"
      using fill_exhausts [OF f] by (simp add: filter_empty_conv)
    with u b' False show ?thesis by (simp add: uncrossed_snoc)
  qed
qed

lemma spec_cancel_uncrossed:
  "uncrossed (sb_rest b) \<Longrightarrow> spec_cancel i owner b = Inr b' \<Longrightarrow> uncrossed (sb_rest b')"
  by (auto simp: spec_cancel_def uncrossed_def split: option.splits if_splits)

lemma nowrap_iff: "unat (x :: u32) = n \<Longrightarrow> Suc n < 2 ^ 32 \<Longrightarrow> x + 1 \<noteq> 0 \<and> unat (x + 1) = Suc n"
  by (auto simp: word_unat_eq_iff unat_word_ariths)

lemma reach_represents:
  assumes "ex_reach n ex" and "n < 2 ^ 32"
  shows "\<exists>b. represents ex b \<and> unat (sb_next b) = n \<and> uncrossed (sb_rest b)"
  using assms
proof (induction rule: ex_reach.induct)
  case reach_init
  then show ?case
    by (intro exI [of _ spec_init] conjI)
      (rule represents_init, simp_all add: spec_init_def uncrossed_def)
next
  case (reach_submit n ex side inst qty price owner out i out' ex')
  then obtain b where b: "represents ex b" "unat (sb_next b) = n" "uncrossed (sb_rest b)" by auto
  obtain j ts b' where s: "spec_submit side inst qty price owner b = (j, ts, b')" by (metis prod_cases3)
  have nw: "sb_next b + 1 \<noteq> 0" "unat (sb_next b + 1) = Suc n"
    using nowrap_iff [OF b(2)] reach_submit.prems by auto
  from submit_refines [OF b(1) nw(1) s, of out] reach_submit.hyps(2) have "represents ex' b'" by auto
  moreover have "sb_next b' = sb_next b + 1" using s by (auto simp: spec_submit_def split: prod.splits)
  ultimately show ?case using nw spec_submit_uncrossed [OF b(3) s] by auto
next
  case (reach_cancel n ex i owner ex')
  then obtain b where b: "represents ex b" "unat (sb_next b) = n" "uncrossed (sb_rest b)" by auto
  from cancel_refines [OF b(1), of i owner] reach_cancel.hyps(2) obtain b' where
    b': "spec_cancel i owner b = Inr b'" "represents ex' b'" by (auto split: sum.splits)
  moreover have "sb_next b' = sb_next b"
    using b'(1) by (auto simp: spec_cancel_def split: option.splits if_splits)
  ultimately show ?case using b spec_cancel_uncrossed by auto
qed

lemma run_cmds_reach:
  "ex_reach n ex \<Longrightarrow> ex_reach (n + length (filter is_submit cs)) (snd (run_cmds submit cancel cs ex))"
proof (induction cs arbitrary: n ex)
  case Nil
  then show ?case by simp
next
  case (Cons c cs)
  show ?case
  proof (cases c)
    case (Submit side inst qty price owner)
    obtain i ts ex' where s: "submit side inst qty price owner [] ex = (i, ts, ex')" by (metis prod_cases3)
    from Cons.IH [OF ex_reach.reach_submit [OF Cons.prems s]] Submit s show ?thesis
      by (simp add: split_def Let_def)
  next
    case (Cancel i owner)
    then show ?thesis
      using Cons.IH [OF Cons.prems] Cons.IH [OF ex_reach.reach_cancel [OF Cons.prems]]
      by (cases "cancel i owner ex") (simp_all add: split_def Let_def)
  qed
qed

text \<open>Two small books, one and two sellers of the same instrument at the same price.\<close>

definition demo1 :: Exchange where
  "demo1 = snd (run_cmds submit cancel [Submit Sell 0 5 238 1] ex_init)"

definition demo2 :: Exchange where
  "demo2 = snd (run_cmds submit cancel [Submit Sell 0 5 238 1, Submit Sell 0 3 238 2] ex_init)"

lemma demo_reach: "ex_reach 1 demo1" "ex_reach 2 demo2"
  using run_cmds_reach [OF ex_reach.reach_init, of "[Submit Sell 0 5 238 1]"]
    run_cmds_reach [OF ex_reach.reach_init, of "[Submit Sell 0 5 238 1, Submit Sell 0 3 238 2]"]
  by (simp_all add: demo1_def demo2_def numeral_2_eq_2)

lemma demo_values:
  "ex_next_id demo2 = 2" "ex_books demo2 0 1 238 = Some [0, 1]" "ex_books demo1 0 1 238 = Some [0]"
  "ex_orders demo1 0 = Some \<lparr>o_id = 0, o_side = Sell, o_inst = 0, o_price = 238, o_remaining = 5, o_owner = 1\<rparr>"
  "ex_next_id demo1 = 1" "ex_books demo1 1 1 100 = None"
  by (simp_all add: demo1_def demo2_def submit_eval)

text \<open>
  C11: in every exchange reached with fewer than \<open>2^32\<close> submits the order table and the four
  books index each other: every order in the table has quantity left, an id already issued,
  and stands in the queue of its own instrument, side and price; every price level is
  non-empty, strictly increasing in id (arrival order), and holds no stale or misplaced id.
\<close>

theorem book_index_consistent:
  assumes "ex_reach n ex" and "n < 2 ^ 32"
  shows "(\<forall>i r. ex_orders ex i = Some r \<longrightarrow>
        o_id r = i \<and> 0 < o_remaining r \<and> unat i < n
        \<and> (\<exists>dq. ex_books ex (o_inst r) (side_idx (o_side r)) (o_price r) = Some dq \<and> i \<in> set dq))
    \<and> (\<forall>j k p dq. ex_books ex j k p = Some dq \<longrightarrow>
        dq \<noteq> [] \<and> sorted_wrt (<) dq
        \<and> (\<forall>i \<in> set dq. \<exists>r. ex_orders ex i = Some r \<and> o_inst r = j \<and> side_idx (o_side r) = k \<and> o_price r = p))"
proof -
  obtain b where b: "represents ex b" "unat (sb_next b) = n"
    using reach_represents [OF assms] by blast
  then have ex: "ex_orders ex = by_id (sb_rest b)" "ex_books ex = index (sb_rest b)"
    and ok: "orders_ok (sb_next b) (sb_rest b)" by (auto simp: represents_def)
  have d: "distinct (map o_id (sb_rest b))" by (rule orders_ok_distinct [OF ok])
  have srt: "sorted_wrt (<) (level j k p (sb_rest b))" for j k p
    using ok by (auto simp: orders_ok_def level_def sorted_wrt_map sorted_wrt_filter)
  have lvl: "i \<in> set (level j k p (sb_rest b)) \<longleftrightarrow> (\<exists>r \<in> set (sb_rest b). o_id r = i \<and> at_level j k p r)" for i j k p
    by (auto simp: level_def)
  have A: "o_id r = i \<and> 0 < o_remaining r \<and> unat i < n
      \<and> i \<in> set (level (o_inst r) (side_idx (o_side r)) (o_price r) (sb_rest b))"
    if "by_id (sb_rest b) i = Some r" for i r
    using that ok b(2) by (auto simp: by_id_eq [OF d] orders_ok_def lvl at_level_def word_less_nat_alt)
  have B: "\<exists>r. by_id (sb_rest b) i = Some r \<and> o_inst r = j \<and> side_idx (o_side r) = k \<and> o_price r = p"
    if "i \<in> set (level j k p (sb_rest b))" for i j k p
    using that by (auto simp: lvl by_id_eq [OF d] at_level_def)
  show ?thesis
    unfolding ex
  proof (intro conjI allI impI)
    fix i r
    assume s: "by_id (sb_rest b) i = Some r"
    from A [OF s] show "o_id r = i" "0 < o_remaining r" "unat i < n" by simp_all
    from A [OF s] show "\<exists>dq. index (sb_rest b) (o_inst r) (side_idx (o_side r)) (o_price r) = Some dq \<and> i \<in> set dq"
      by (auto simp: index_apply)
  next
    fix j k p dq
    assume "index (sb_rest b) j k p = Some dq"
    then have dq: "dq = level j k p (sb_rest b)" and ne: "dq \<noteq> []"
      by (auto simp: index_apply split: if_splits)
    show "dq \<noteq> []" by (rule ne)
    show "sorted_wrt (<) dq" unfolding dq by (rule srt)
    show "\<forall>i \<in> set dq. \<exists>r. by_id (sb_rest b) i = Some r \<and> o_inst r = j \<and> side_idx (o_side r) = k \<and> o_price r = p"
      unfolding dq using B by blast
  qed
qed

theorem book_index_consistent_witness:
  "ex_books demo2 0 1 238 = Some [0, 1] \<and> sorted_wrt (<) [0, 1 :: u32]
   \<and> (\<exists>r. ex_orders demo2 1 = Some r \<and> o_price r = 238)"
proof -
  have n: "(2 :: nat) < 2 ^ 32" by simp
  from book_index_consistent [OF demo_reach(2) n, THEN conjunct2, rule_format, OF demo_values(2)]
  show ?thesis using demo_values(2) by auto
qed

lemma uncrossed_levels:
  assumes "represents ex b" and "uncrossed (sb_rest b)"
  shows "ex_books ex j (side_idx Buy) p = None \<or> ex_books ex j (side_idx Sell) p = None"
proof -
  have "level j (side_idx Buy) p (sb_rest b) = [] \<or> level j (side_idx Sell) p (sb_rest b) = []"
  proof (rule ccontr)
    assume "\<not> ?thesis"
    then obtain r r' where "r \<in> set (sb_rest b)" "at_level j (side_idx Buy) p r"
      "r' \<in> set (sb_rest b)" "at_level j (side_idx Sell) p r'"
      by (auto simp: level_def filter_empty_conv)
    with assms(2) show False unfolding uncrossed_def at_level_def by (metis Side.distinct(1) side_idx_eq)
  qed
  with assms(1) show ?thesis by (auto simp: represents_def index_apply)
qed

text \<open>
  C16: the book is never crossed: in every exchange reached with fewer than \<open>2^32\<close> submits, no
  instrument has buyers and sellers resting at the same price.
\<close>

theorem book_uncrossed:
  assumes "ex_reach n ex" and "n < 2 ^ 32"
  shows "ex_books ex j (side_idx Buy) p = None \<or> ex_books ex j (side_idx Sell) p = None"
proof -
  obtain b where "represents ex b" "uncrossed (sb_rest b)" using reach_represents [OF assms] by blast
  then show ?thesis by (rule uncrossed_levels)
qed

theorem book_uncrossed_witness:
  "ex_books (snd (run_cmds submit cancel [Submit Sell 0 5 238 1, Submit Buy 0 7 238 2] ex_init)) 0 (side_idx Sell) 238 = None
   \<and> ex_books (snd (run_cmds submit cancel [Submit Sell 0 5 238 1, Submit Buy 0 7 238 2] ex_init)) 0 (side_idx Buy) 238 = Some [1]"
proof -
  let ?ex = "snd (run_cmds submit cancel [Submit Sell 0 5 238 1, Submit Buy 0 7 238 2] ex_init)"
  have r: "ex_reach 2 ?ex"
    using run_cmds_reach [OF ex_reach.reach_init, of "[Submit Sell 0 5 238 1, Submit Buy 0 7 238 2]"]
    by (simp add: numeral_2_eq_2)
  have e: "ex_books ?ex 0 (side_idx Buy) 238 = Some [1]"
    by (simp add: submit_eval)
  from book_uncrossed [OF r, of 0 238] e show ?thesis by simp
qed

section \<open>Conservation\<close>

abbreviation traded :: "Trade list \<Rightarrow> nat" where
  "traded ts \<equiv> sum_list (map (\<lambda>t. unat (t_qty t)) ts)"

abbreviation quantity :: "Order list \<Rightarrow> nat" where
  "quantity rs \<equiv> sum_list (map (\<lambda>r. unat (o_remaining r)) rs)"

text \<open>The total quantity resting in an exchange.\<close>

definition volume :: "Exchange \<Rightarrow> nat" where
  "volume ex = (\<Sum>i \<in> dom (ex_orders ex). unat (o_remaining (the (ex_orders ex i))))"

lemma mk_trade_fields [simp]:
  "t_qty (mk_trade side inst q price owner other) = q"
  "t_price (mk_trade side inst q price owner other) = price"
  "t_inst (mk_trade side inst q price owner other) = inst"
  by (simp_all add: mk_trade_def)

lemma fill_conserves:
  "fill side inst price owner rem rs = (rem', rs', ts) \<Longrightarrow>
   unat rem = unat rem' + traded ts \<and> quantity rs = quantity rs' + traded ts"
proof (induction rs arbitrary: rem rem' rs' ts)
  case Nil
  then show ?case by simp
next
  case (Cons r rs)
  let ?q = "min rem (o_remaining r)"
  have q: "unat (rem - ?q) = unat rem - unat ?q" "unat ?q \<le> unat rem"
    "unat (o_remaining r - ?q) = unat (o_remaining r) - unat ?q" "unat ?q \<le> unat (o_remaining r)"
    by (simp_all only: unat_sub_min unat_sub_min2) (simp_all add: unat_min)
  obtain m rs2 ts2 where f: "fill side inst price owner
      (if rem = 0 \<or> \<not> crosses side inst price r then rem else rem - ?q) rs = (m, rs2, ts2)"
    by (metis prod_cases3)
  show ?case
  proof (cases "rem = 0 \<or> \<not> crosses side inst price r")
    case True
    with Cons.IH [OF f] Cons.prems f show ?thesis by auto
  next
    case False
    with Cons.IH [OF f] have ih: "unat rem - unat ?q = unat m + traded ts2"
      "quantity rs = quantity rs2 + traded ts2" using q(1) by auto
    from False Cons.prems f have e: "m = rem'" "ts = mk_trade side inst ?q price owner (o_owner r) # ts2"
      "rs' = (if o_remaining r = ?q then rs2 else r\<lparr>o_remaining := o_remaining r - ?q\<rparr> # rs2)"
      by (auto simp: Let_def)
    have "quantity rs' = unat (o_remaining r) - unat ?q + quantity rs2"
      using e(3) q(3) by (cases "o_remaining r = ?q") simp_all
    with ih e q(2,4) show ?thesis by simp
  qed
qed

lemma volume_represents:
  assumes "represents ex b"
  shows "volume ex = quantity (sb_rest b)"
proof -
  have d: "distinct (map o_id (sb_rest b))" and ex: "ex_orders ex = by_id (sb_rest b)"
    using assms by (auto simp: represents_def dest: orders_ok_distinct)
  have dom: "dom (by_id (sb_rest b)) = o_id ` set (sb_rest b)"
    by (simp add: dom_map_of_conv_image_fst image_image)
  have inj: "inj_on o_id (set (sb_rest b))" and ds: "distinct (sb_rest b)"
    using d by (auto simp: distinct_map)
  have "volume ex = (\<Sum>r \<in> set (sb_rest b). unat (o_remaining (the (by_id (sb_rest b) (o_id r)))))"
    by (simp add: volume_def ex dom sum.reindex [OF inj])
  also have "\<dots> = (\<Sum>r \<in> set (sb_rest b). unat (o_remaining r))"
  proof (rule sum.cong)
    fix r
    assume "r \<in> set (sb_rest b)"
    then have "by_id (sb_rest b) (o_id r) = Some r" by (simp add: by_id_eq [OF d])
    then show "unat (o_remaining (the (by_id (sb_rest b) (o_id r)))) = unat (o_remaining r)" by simp
  qed simp
  also have "\<dots> = quantity (sb_rest b)" by (simp add: sum_list_distinct_conv_sum_set [OF ds])
  finally show ?thesis .
qed

text \<open>
  The common shape of a statement about one submit in a reachable exchange: the list of
  resting orders before and after, and the fill between them.
\<close>

lemma reach_submitE:
  assumes "ex_reach n ex" and "Suc n < 2 ^ 32"
    and "submit side inst qty price owner [] ex = (i, ts, ex')"
  obtains b b' rem rs' where "represents ex b" "represents ex' b'" "i = sb_next b" "unat i = n"
    "fill side inst price owner qty (sb_rest b) = (rem, rs', ts)"
    "sb_rest b' = rs' @ (if rem = 0 then [] else
      [\<lparr>o_id = i, o_side = side, o_inst = inst, o_price = price, o_remaining = rem, o_owner = owner\<rparr>])"
    "orders_ok i rs'"
proof -
  from reach_represents [OF assms(1)] assms(2) obtain b where b: "represents ex b" "unat (sb_next b) = n"
    by auto
  obtain j ts' b' where s: "spec_submit side inst qty price owner b = (j, ts', b')" by (metis prod_cases3)
  have nw: "sb_next b + 1 \<noteq> 0" using nowrap_iff [OF b(2) assms(2)] by simp
  from submit_refines [OF b(1) nw s, of "[]"] assms(3) have e: "j = i" "ts' = ts" "represents ex' b'" by auto
  from s e obtain rem rs' where f: "fill side inst price owner qty (sb_rest b) = (rem, rs', ts)"
    and i: "i = sb_next b" and r: "sb_rest b' = rs' @ (if rem = 0 then [] else
      [\<lparr>o_id = i, o_side = side, o_inst = inst, o_price = price, o_remaining = rem, o_owner = owner\<rparr>])"
    by (auto simp: spec_submit_def split: prod.splits)
  have "orders_ok i rs'" using fill_orders_ok [OF f] b(1) i by (simp add: represents_def)
  with that b e i f r show thesis by blast
qed

lemma represents_orders: "represents ex b \<Longrightarrow> ex_orders ex = by_id (sb_rest b)"
  by (simp add: represents_def)

text \<open>
  C6: conservation of quantity: a submit splits the incoming quantity exactly into what was
  traded and what rests under the new id, and every unit traded leaves the resting book once.
\<close>

theorem submit_conserves_quantity:
  assumes "ex_reach n ex" and "Suc n < 2 ^ 32"
    and "submit side inst qty price owner [] ex = (i, ts, ex')"
  shows "unat qty = traded ts + (case ex_orders ex' i of None \<Rightarrow> 0 | Some r \<Rightarrow> unat (o_remaining r))
    \<and> volume ex + unat qty = volume ex' + 2 * traded ts"
proof -
  from assms obtain b b' rem rs' where b: "represents ex b" "represents ex' b'"
    and f: "fill side inst price owner qty (sb_rest b) = (rem, rs', ts)"
    and r: "sb_rest b' = rs' @ (if rem = 0 then [] else
      [\<lparr>o_id = i, o_side = side, o_inst = inst, o_price = price, o_remaining = rem, o_owner = owner\<rparr>])"
    and ok: "orders_ok i rs'"
    by (rule reach_submitE)
  have "by_id rs' i = None" using ok by (auto simp: orders_ok_def by_id_None)
  then have new: "(case ex_orders ex' i of None \<Rightarrow> 0 | Some r \<Rightarrow> unat (o_remaining r)) = unat rem"
    using r by (simp add: represents_orders [OF b(2)] map_add_def)
  have "quantity (sb_rest b') = quantity rs' + unat rem" using r by simp
  with fill_conserves [OF f] new show ?thesis
    by (simp add: volume_represents [OF b(1)] volume_represents [OF b(2)])
qed

theorem submit_conserves_quantity_witness:
  "\<exists>i ts ex'. submit Buy 0 7 238 2 [] demo1 = (i, ts, ex')
   \<and> volume demo1 + unat (7 :: u32) = volume ex' + 2 * traded ts"
proof -
  obtain i ts ex' where s: "submit Buy 0 7 238 2 [] demo1 = (i, ts, ex')" by (metis prod_cases3)
  have n: "Suc 1 < (2 :: nat) ^ 32" by simp
  from s submit_conserves_quantity [OF demo_reach(1) n s] show ?thesis by blast
qed

section \<open>Price-time priority\<close>

text \<open>The trade that takes all of a resting order.\<close>

abbreviation whole :: "Side \<Rightarrow> int \<Rightarrow> u32 \<Rightarrow> owner \<Rightarrow> Order \<Rightarrow> Trade" where
  "whole side inst price owner r \<equiv> mk_trade side inst (o_remaining r) price owner (o_owner r)"

text \<open>
  What filling does to the orders \<open>L\<close> at the level: the first \<open>k\<close> are consumed whole, where \<open>k\<close> is
  as large as the quantity \<open>rem\<close> allows; the next one, if there is one, gives what is then left
  of \<open>rem\<close>, and nothing is left after that.
\<close>

definition consumed ::
  "Side \<Rightarrow> int \<Rightarrow> u32 \<Rightarrow> owner \<Rightarrow> nat \<Rightarrow> u32 \<Rightarrow> u32 \<Rightarrow> Order list \<Rightarrow> Order list \<Rightarrow> Trade list \<Rightarrow> bool" where
  "consumed side inst price owner k rem rem' L L' ts \<longleftrightarrow> k \<le> length L \<and> quantity (take k L) \<le> unat rem \<and>
     (if k = length L then unat rem' = unat rem - quantity L \<and> L' = [] \<and> ts = map (whole side inst price owner) L
      else rem' = 0 \<and> unat rem < quantity (take (Suc k) L) \<and>
        (let q = of_nat (unat rem - quantity (take k L)) in
         L' = (L ! k)\<lparr>o_remaining := o_remaining (L ! k) - q\<rparr> # drop (Suc k) L \<and>
         ts = map (whole side inst price owner) (take k L) @
           (if q = 0 then [] else [mk_trade side inst q price owner (o_owner (L ! k))])))"

lemma consumed_none:
  assumes "\<forall>r \<in> set L. 0 < o_remaining r"
  shows "consumed side inst price owner 0 0 0 L L []"
  using assms by (cases L) (auto simp: consumed_def Let_def word_gt_0 unat_gt_0)

lemma consumed_part:
  assumes "rem < o_remaining r" and "rem \<noteq> 0"
  shows "consumed side inst price owner 0 rem 0 (r # L) (r\<lparr>o_remaining := o_remaining r - rem\<rparr> # L)
    [mk_trade side inst rem price owner (o_owner r)]"
  using assms by (simp add: consumed_def word_less_nat_alt)

lemma consumed_Cons:
  assumes c: "consumed side inst price owner k (rem - o_remaining r) rem' L L' ts" and "o_remaining r \<le> rem"
  shows "consumed side inst price owner (Suc k) rem rem' (r # L) L' (whole side inst price owner r # ts)"
proof -
  have u: "unat (rem - o_remaining r) = unat rem - unat (o_remaining r)" "unat (o_remaining r) \<le> unat rem"
    using assms(2) by (simp_all add: unat_sub word_le_nat_alt)
  have q: "unat (rem - o_remaining r) - quantity (take k L) = unat rem - quantity (take (Suc k) (r # L))"
    using u by simp
  show ?thesis
    using c u unfolding consumed_def q by (auto simp: Let_def split: if_splits)
qed

lemma fill_consumes:
  assumes "fill side inst price owner rem rs = (rem', rs', ts)" and "\<forall>r \<in> set rs. 0 < o_remaining r"
  shows "\<exists>k. consumed side inst price owner k rem rem'
    (filter (crosses side inst price) rs) (filter (crosses side inst price) rs') ts"
  using assms
proof (induction rs arbitrary: rem rem' rs' ts)
  case Nil
  then show ?case by (auto simp: consumed_def)
next
  case (Cons r rs)
  consider (zero) "rem = 0" | (skip) "rem \<noteq> 0" "\<not> crosses side inst price r"
    | (full) "rem \<noteq> 0" "crosses side inst price r" "o_remaining r \<le> rem"
    | (part) "rem \<noteq> 0" "crosses side inst price r" "rem < o_remaining r"
    by force
  then show ?case
  proof cases
    case zero
    with Cons.prems consumed_none [of "filter (crosses side inst price) (r # rs)"] show ?thesis
      by (auto intro!: exI [of _ 0])
  next
    case skip
    with Cons.prems(1) obtain rs2 where f: "fill side inst price owner rem rs = (rem', rs2, ts)"
      and "rs' = r # rs2" by (auto split: prod.splits)
    with Cons.IH [OF f] Cons.prems(2) skip show ?thesis by simp
  next
    case full
    with Cons.prems(1) obtain ts2 where
      f: "fill side inst price owner (rem - o_remaining r) rs = (rem', rs', ts2)"
      and ts: "ts = whole side inst price owner r # ts2"
      by (auto simp: Let_def min_absorb2 split: prod.splits)
    from Cons.IH [OF f] Cons.prems(2) obtain k where "consumed side inst price owner k (rem - o_remaining r) rem'
      (filter (crosses side inst price) rs) (filter (crosses side inst price) rs') ts2" by auto
    from consumed_Cons [OF this full(3)] full(2) ts show ?thesis by auto
  next
    case part
    let ?r = "r\<lparr>o_remaining := o_remaining r - rem\<rparr>"
    from part Cons.prems(1) have e: "rem' = 0" "rs' = ?r # rs"
      "ts = [mk_trade side inst rem price owner (o_owner r)]"
      by (auto simp: Let_def min_absorb1)
    have "crosses side inst price ?r" using part(2) by (simp add: crosses_def)
    with consumed_part [OF part(3,1)] part(2) e show ?thesis by (auto intro!: exI [of _ 0])
  qed
qed

lemma consumed_ids:
  assumes "consumed side inst price owner k rem rem' L L' ts"
  shows "k \<le> length L \<and> map o_id L' = drop k (map o_id L)"
proof (cases "k = length L")
  case False
  with assms have "k < length L" by (simp add: consumed_def)
  from Cons_nth_drop_Suc [OF this] False assms show ?thesis
    by (auto simp: consumed_def Let_def drop_map simp flip: Cons_nth_drop_Suc)
qed (use assms in \<open>simp add: consumed_def\<close>)

text \<open>An order filled whole is found nowhere in what survives.\<close>

lemma opp_level_gone:
  assumes "fill side inst price owner rem rs = (rem', rs', ts)" and "orders_ok n rs"
    and "map o_id (filter (crosses side inst price) rs') = drop k (map o_id (filter (crosses side inst price) rs))"
    and "j \<in> set (take k (map o_id (filter (crosses side inst price) rs)))"
  shows "by_id rs' j = None \<and> j < n"
proof -
  let ?L = "map o_id (filter (crosses side inst price) rs)"
  have dL: "distinct ?L" using assms(2) by (simp add: distinct_map_filter orders_ok_distinct)
  have jL: "j \<in> set ?L" using assms(4) by (rule in_set_takeD)
  then obtain r where r: "r \<in> set rs" "o_id r = j" "crosses side inst price r" by auto
  have "j \<notin> set (drop k ?L)"
    using assms(4) dL set_take_disj_set_drop_if_distinct [of ?L k k] by auto
  then have off: "j \<notin> o_id ` {x \<in> set rs'. crosses side inst price x}"
    unfolding assms(3) [symmetric] by (auto simp: image_iff)
  have "o_id x \<noteq> j" if x: "x \<in> set rs'" for x
  proof
    assume e: "o_id x = j"
    from fill_sub [OF assms(1)] x obtain y where y: "y \<in> set rs" "o_id x = o_id y" "o_side x = o_side y"
      "o_inst x = o_inst y" "o_price x = o_price y" by metis
    from y(1,2) e r(1,2) orders_ok_distinct [OF assms(2)] have "y = r"
      by (metis distinct_map inj_onD)
    with y r(3) have "crosses side inst price x" by (simp add: crosses_def)
    with off x e show False by blast
  qed
  then have "by_id rs' j = None" by (auto simp: by_id_None)
  with r assms(2) show ?thesis by (auto simp: orders_ok_def)
qed

text \<open>
  One submit against a queue, in terms of the orders \<open>L\<close> in that queue and \<open>L'\<close> left of them.
\<close>

lemma submit_consumes:
  assumes "ex_reach n ex" and "Suc n < 2 ^ 32"
    and "submit side inst qty price owner [] ex = (i, ts, ex')"
    and "ex_books ex inst (if side = Buy then 1 else 0) price = Some dq"
  obtains k rem L L' where "dq = map o_id L" "consumed side inst price owner k qty rem L L' ts"
    "ex_books ex' inst (if side = Buy then 1 else 0) price = (if drop k dq = [] then None else Some (drop k dq))"
    "\<forall>j \<in> set (take k dq). ex_orders ex' j = None" "\<forall>x \<in> set L. ex_orders ex (o_id x) = Some x"
    "\<forall>x \<in> set L'. ex_orders ex' (o_id x) = Some x"
    "ex_orders ex' i = (if rem = 0 then None else
      Some \<lparr>o_id = i, o_side = side, o_inst = inst, o_price = price, o_remaining = rem, o_owner = owner\<rparr>)"
proof -
  let ?opp = "if side = Buy then 1 else 0 :: int"
  from assms(1-3) obtain b b' rem rs' where b: "represents ex b" "represents ex' b'" and i: "i = sb_next b"
    and f: "fill side inst price owner qty (sb_rest b) = (rem, rs', ts)"
    and r: "sb_rest b' = rs' @ (if rem = 0 then [] else
      [\<lparr>o_id = i, o_side = side, o_inst = inst, o_price = price, o_remaining = rem, o_owner = owner\<rparr>])"
    and ok': "orders_ok i rs'"
    by (rule reach_submitE)
  let ?L = "filter (crosses side inst price) (sb_rest b)" and ?L' = "filter (crosses side inst price) rs'"
  have ok: "orders_ok i (sb_rest b)" "orders_ok (sb_next b') (sb_rest b')"
    using b i by (auto simp: represents_def)
  from fill_consumes [OF f] ok(1) obtain k where k: "consumed side inst price owner k qty rem ?L ?L' ts"
    by (auto simp: orders_ok_def)
  note ids = consumed_ids [OF k]
  have dq: "dq = map o_id ?L"
    using assms(4) b(1) by (auto simp: represents_def index_apply level_def crosses_at_level split: if_splits)
  have "level inst ?opp price (sb_rest b') = drop k dq"
    using ids r opp_neq_side_idx [of side] by (auto simp: level_def dq crosses_at_level at_level_def)
  then have books: "ex_books ex' inst ?opp price = (if drop k dq = [] then None else Some (drop k dq))"
    using b(2) by (simp add: represents_def index_apply)
  have gone: "\<forall>j \<in> set (take k dq). ex_orders ex' j = None"
    using opp_level_gone [OF f ok(1) conjunct2 [OF ids]] r by (auto simp: dq represents_orders [OF b(2)] map_add_def)
  have "by_id rs' i = None" using ok' by (auto simp: orders_ok_def by_id_None)
  then have new: "ex_orders ex' i = (if rem = 0 then None else
      Some \<lparr>o_id = i, o_side = side, o_inst = inst, o_price = price, o_remaining = rem, o_owner = owner\<rparr>)"
    using r by (simp add: represents_orders [OF b(2)] map_add_def)
  have "\<forall>x \<in> set ?L. ex_orders ex (o_id x) = Some x"
    by (simp add: represents_orders [OF b(1)] by_id_eq [OF orders_ok_distinct [OF ok(1)]])
  moreover have "\<forall>x \<in> set ?L'. ex_orders ex' (o_id x) = Some x"
    unfolding represents_orders [OF b(2)] by_id_eq [OF orders_ok_distinct [OF ok(2)]] using r by simp
  ultimately show thesis using dq k books gone new by (intro that) assumption+
qed

text \<open>The quantity that the orders with the given ids have left.\<close>

definition depth :: "Exchange \<Rightarrow> u32 list \<Rightarrow> nat" where
  "depth ex js = sum_list (map (\<lambda>j. unat (o_remaining (the (ex_orders ex j)))) js)"

text \<open>
  C5: price-time priority: against the queue \<open>dq\<close> resting on the opposite side at the incoming
  price, a submit fills the first \<open>k\<close> orders of the queue, in queue order and each for its
  whole remaining quantity; they are gone and the queue is what followed them. Here \<open>k\<close> is
  determined by the quantities: either it is the whole queue, and what the queue could not
  give rests as the new order; or the incoming quantity covers the first \<open>k\<close> orders and not the
  next one, which then gives exactly what was missing, if anything, and keeps the rest, and
  the incoming order is exhausted and does not rest.
\<close>

theorem submit_price_time_priority:
  assumes "ex_reach n ex" and "Suc n < 2 ^ 32"
    and "submit side inst qty price owner [] ex = (i, ts, ex')"
    and "ex_books ex inst (if side = Buy then 1 else 0) price = Some dq"
  shows "\<exists>k \<le> length dq.
      ex_books ex' inst (if side = Buy then 1 else 0) price = (if drop k dq = [] then None else Some (drop k dq))
    \<and> (\<forall>j \<in> set (take k dq). ex_orders ex' j = None)
    \<and> depth ex (take k dq) \<le> unat qty
    \<and> (k = length dq
         \<and> (case ex_orders ex' i of None \<Rightarrow> 0 | Some r \<Rightarrow> unat (o_remaining r)) = unat qty - depth ex dq
         \<and> ts = map (\<lambda>j. whole side inst price owner (the (ex_orders ex j))) dq
       \<or> k < length dq \<and> unat qty < depth ex (take (Suc k) dq) \<and> ex_orders ex' i = None
         \<and> (\<exists>r q. ex_orders ex (dq ! k) = Some r \<and> q = of_nat (unat qty - depth ex (take k dq))
              \<and> ex_orders ex' (dq ! k) = Some (r\<lparr>o_remaining := o_remaining r - q\<rparr>)
              \<and> ts = map (\<lambda>j. whole side inst price owner (the (ex_orders ex j))) (take k dq)
                  @ (if q = 0 then [] else [mk_trade side inst q price owner (o_owner r)])))"
proof -
  from assms obtain k rem L L' where dq: "dq = map o_id L" and k: "consumed side inst price owner k qty rem L L' ts"
    and books: "ex_books ex' inst (if side = Buy then 1 else 0) price = (if drop k dq = [] then None else Some (drop k dq))"
    and gone: "\<forall>j \<in> set (take k dq). ex_orders ex' j = None" and look: "\<forall>x \<in> set L. ex_orders ex (o_id x) = Some x"
    and look': "\<forall>x \<in> set L'. ex_orders ex' (o_id x) = Some x"
    and new: "ex_orders ex' i = (if rem = 0 then None else
      Some \<lparr>o_id = i, o_side = side, o_inst = inst, o_price = price, o_remaining = rem, o_owner = owner\<rparr>)"
    by (rule submit_consumes)
  have takes: "map (\<lambda>j. h (the (ex_orders ex j))) (take k dq) = map h (take k L)" for h :: "Order \<Rightarrow> 'x" and k
    unfolding dq take_map map_map comp_def using look by (intro map_cong) (auto dest: in_set_takeD)
  have dp: "depth ex (take k dq) = quantity (take k L)" for k
    unfolding depth_def takes [of "\<lambda>r. unat (o_remaining r)"] ..
  have len: "length dq = length L" by (simp add: dq)
  have le: "k \<le> length dq \<and> depth ex (take k dq) \<le> unat qty" using k len unfolding dp by (simp add: consumed_def)
  show ?thesis
  proof (cases "k = length L")
    case True
    with k have "unat rem = unat qty - depth ex dq" "ts = map (\<lambda>j. whole side inst price owner (the (ex_orders ex j))) dq"
      using dp [of "length dq"] takes [of "whole side inst price owner" "length dq"] len by (simp_all add: consumed_def)
    moreover have "(case ex_orders ex' i of None \<Rightarrow> 0 | Some r \<Rightarrow> unat (o_remaining r)) = unat rem" by (simp add: new)
    ultimately show ?thesis using True len le books gone by (intro exI [of _ k]) simp
  next
    case False
    let ?q = "of_nat (unat qty - depth ex (take k dq)) :: u32"
    from False k have c: "k < length L" "rem = 0" "unat qty < depth ex (take (Suc k) dq)"
      "L' = (L ! k)\<lparr>o_remaining := o_remaining (L ! k) - ?q\<rparr> # drop (Suc k) L"
      "ts = map (whole side inst price owner) (take k L) @
         (if ?q = 0 then [] else [mk_trade side inst ?q price owner (o_owner (L ! k))])"
      unfolding dp by (simp_all add: consumed_def Let_def)
    have "ex_orders ex (dq ! k) = Some (L ! k)" "ex_orders ex' (dq ! k) = Some ((L ! k)\<lparr>o_remaining := o_remaining (L ! k) - ?q\<rparr>)"
      using bspec [OF look, of "L ! k"] bspec [OF look', of "(L ! k)\<lparr>o_remaining := o_remaining (L ! k) - ?q\<rparr>"] c(1,4) by (simp_all add: dq)
    with c(5) have "\<exists>r q. ex_orders ex (dq ! k) = Some r \<and> q = ?q
         \<and> ex_orders ex' (dq ! k) = Some (r\<lparr>o_remaining := o_remaining r - q\<rparr>)
         \<and> ts = map (\<lambda>j. whole side inst price owner (the (ex_orders ex j))) (take k dq)
             @ (if q = 0 then [] else [mk_trade side inst q price owner (o_owner r)])"
      using takes [of "whole side inst price owner" k] by (intro exI [of _ "L ! k"] exI [of _ ?q]) simp
    with c(1-3) len new le books gone show ?thesis by (intro exI [of _ k]) simp
  qed
qed

theorem submit_price_time_priority_witness:
  "\<exists>i ts ex'. submit Buy 0 6 238 3 [] demo2 = (i, ts, ex') \<and> ex_books ex' 0 1 238 = Some [1] \<and> ex_orders ex' 0 = None
   \<and> ts = [mk_trade Buy 0 5 238 3 1, mk_trade Buy 0 1 238 3 2]"
proof -
  obtain i ts ex' where s: "submit Buy 0 6 238 3 [] demo2 = (i, ts, ex')" by (metis prod_cases3)
  have n: "Suc 2 < (2 :: nat) ^ 32" by simp
  have e: "ex_books demo2 0 (if Buy = Buy then 1 else 0) 238 = Some [0, 1]" by (simp add: demo_values)
  have o: "ex_orders demo2 0 = Some \<lparr>o_id = 0, o_side = Sell, o_inst = 0, o_price = 238, o_remaining = 5, o_owner = 1\<rparr>"
    "ex_orders demo2 1 = Some \<lparr>o_id = 1, o_side = Sell, o_inst = 0, o_price = 238, o_remaining = 3, o_owner = 2\<rparr>"
    by (simp_all add: demo2_def submit_eval)
  have d: "depth demo2 [] = 0" "depth demo2 [0] = 5" "depth demo2 [0, 1] = 8" by (simp_all add: depth_def o)
  from submit_price_time_priority [OF demo_reach(2) n s e] obtain k where k: "k \<le> length [0, 1 :: u32]"
    and rest: "ex_books ex' 0 (if Buy = Buy then 1 else 0) 238 = (if drop k [0, 1 :: u32] = [] then None else Some (drop k [0, 1]))
      \<and> (\<forall>j \<in> set (take k [0, 1]). ex_orders ex' j = None) \<and> depth demo2 (take k [0, 1]) \<le> unat (6 :: u32)
      \<and> (k = length [0, 1 :: u32]
         \<and> (case ex_orders ex' i of None \<Rightarrow> 0 | Some r \<Rightarrow> unat (o_remaining r)) = unat (6 :: u32) - depth demo2 [0, 1]
         \<and> ts = map (\<lambda>j. whole Buy 0 238 3 (the (ex_orders demo2 j))) [0, 1]
       \<or> k < length [0, 1 :: u32] \<and> unat (6 :: u32) < depth demo2 (take (Suc k) [0, 1]) \<and> ex_orders ex' i = None
         \<and> (\<exists>r q. ex_orders demo2 ([0, 1] ! k) = Some r \<and> q = of_nat (unat (6 :: u32) - depth demo2 (take k [0, 1]))
              \<and> ex_orders ex' ([0, 1] ! k) = Some (r\<lparr>o_remaining := o_remaining r - q\<rparr>)
              \<and> ts = map (\<lambda>j. whole Buy 0 238 3 (the (ex_orders demo2 j))) (take k [0, 1])
                  @ (if q = 0 then [] else [mk_trade Buy 0 q 238 3 (o_owner r)])))"
    by blast
  consider "k = 0" | "k = 1" | "k = 2" using k by fastforce
  then have "ex_books ex' 0 1 238 = Some [1] \<and> ex_orders ex' 0 = None
    \<and> ts = [mk_trade Buy 0 5 238 3 1, mk_trade Buy 0 1 238 3 2]"
    by cases (use rest in \<open>simp_all add: d o\<close>)
  with s show ?thesis by blast
qed

section \<open>Trades and isolation\<close>

lemma fill_trades:
  "fill side inst price owner rem rs = (rem', rs', ts) \<Longrightarrow> \<forall>r \<in> set rs. 0 < o_remaining r \<Longrightarrow>
   t \<in> set ts \<Longrightarrow> \<exists>r \<in> set rs. crosses side inst price r \<and>
     (\<exists>q. 0 < q \<and> q \<le> o_remaining r \<and> t = mk_trade side inst q price owner (o_owner r))"
proof (induction rs arbitrary: rem rem' rs' ts)
  case Nil
  then show ?case by simp
next
  case (Cons r rs)
  let ?q = "min rem (o_remaining r)"
  obtain m rs2 ts2 where f: "fill side inst price owner
      (if rem = 0 \<or> \<not> crosses side inst price r then rem else rem - ?q) rs = (m, rs2, ts2)"
    by (metis prod_cases3)
  from Cons.prems(1,3) f consider "t \<in> set ts2"
    | "rem \<noteq> 0" "crosses side inst price r" "t = mk_trade side inst ?q price owner (o_owner r)"
    by (auto simp: Let_def split: if_splits)
  then show ?case
  proof cases
    case 1
    with Cons.IH [OF f] Cons.prems(2) show ?thesis by auto
  next
    case 2
    moreover have "0 < ?q" using 2(1) Cons.prems(2) by (simp add: min_def word_gt_0)
    ultimately show ?thesis by (auto intro!: exI [of _ ?q])
  qed
qed

text \<open>
  Every trade of a submit has positive quantity, the incoming instrument and price, the
  submitter on its own side, and as counterparty the owner of an order that was resting on the
  opposite side at exactly that instrument and price with at least that quantity left.
\<close>

lemma submit_trades_sound:
  assumes "ex_reach n ex" and "Suc n < 2 ^ 32"
    and "submit side inst qty price owner [] ex = (i, ts, ex')" and "t \<in> set ts"
  shows "t_inst t = inst \<and> t_price t = price \<and> 0 < t_qty t
    \<and> (side = Buy \<longrightarrow> t_buyer_owner t = owner) \<and> (side = Sell \<longrightarrow> t_seller_owner t = owner)
    \<and> (\<exists>r \<in> ran (ex_orders ex). o_side r \<noteq> side \<and> o_inst r = inst \<and> o_price r = price
         \<and> t_qty t \<le> o_remaining r
         \<and> o_owner r = (if side = Buy then t_seller_owner t else t_buyer_owner t))"
proof -
  from assms(1-3) obtain b b' rem rs' where b: "represents ex b" "represents ex' b'" and i: "i = sb_next b"
    and f: "fill side inst price owner qty (sb_rest b) = (rem, rs', ts)"
    by (rule reach_submitE)
  have ok: "orders_ok i (sb_rest b)" using b(1) i by (simp add: represents_def)
  then have pos: "\<forall>r \<in> set (sb_rest b). 0 < o_remaining r" by (simp add: orders_ok_def)
  obtain r q where r: "r \<in> set (sb_rest b)" "crosses side inst price r" "0 < q" "q \<le> o_remaining r"
    "t = mk_trade side inst q price owner (o_owner r)"
    using fill_trades [OF f pos assms(4)] by blast
  have "by_id (sb_rest b) (o_id r) = Some r"
    using r(1) by (simp add: by_id_eq [OF orders_ok_distinct [OF ok]])
  then have ran: "r \<in> ran (ex_orders ex)"
    unfolding represents_orders [OF b(1)] by (rule ranI)
  show ?thesis using r ran
    by (cases side) (auto simp: mk_trade_def crosses_def intro!: bexI [of _ r])
qed

text \<open>
  C23: isolation: a submit touches no other price, instrument or side: every level other than the
  opposite level at the incoming price and the own-side level at that price is unchanged, and
  the own-side level at most gains the new id at its end.
\<close>

theorem submit_isolated:
  assumes "ex_reach n ex" and "Suc n < 2 ^ 32"
    and "submit side inst qty price owner [] ex = (i, ts, ex')"
  shows "(j \<noteq> inst \<or> p \<noteq> price \<longrightarrow> ex_books ex' j k p = ex_books ex j k p)
    \<and> (ex_books ex' inst (side_idx side) price =
        (case ex_orders ex' i of None \<Rightarrow> ex_books ex inst (side_idx side) price
         | Some _ \<Rightarrow> Some ((case ex_books ex inst (side_idx side) price of None \<Rightarrow> [] | Some dq \<Rightarrow> dq) @ [i])))"
proof -
  from assms obtain b b' rem rs' where b: "represents ex b" "represents ex' b'"
    and f: "fill side inst price owner qty (sb_rest b) = (rem, rs', ts)"
    and r: "sb_rest b' = rs' @ (if rem = 0 then [] else
      [\<lparr>o_id = i, o_side = side, o_inst = inst, o_price = price, o_remaining = rem, o_owner = owner\<rparr>])"
    and ok: "orders_ok i rs'"
    by (rule reach_submitE)
  have bk: "ex_books ex = index (sb_rest b)" "ex_books ex' = index (sb_rest b')"
    using b by (auto simp: represents_def)
  have new: "ex_orders ex' i = None \<longleftrightarrow> rem = 0"
    using ok r by (auto simp: represents_orders [OF b(2)] orders_ok_def by_id_None)
  have "level j k p (sb_rest b') = level j k p (sb_rest b)" if "j \<noteq> inst \<or> p \<noteq> price"
  proof -
    have "level j k p rs' = level j k p (sb_rest b)"
      using that by (intro fill_off_level [OF f]) auto
    with that r show ?thesis by (auto simp: level_append level_def at_level_def)
  qed
  then have 1: "j \<noteq> inst \<or> p \<noteq> price \<longrightarrow> ex_books ex' j k p = ex_books ex j k p"
    by (simp add: bk index_apply)
  have "level inst (side_idx side) price rs' = level inst (side_idx side) price (sb_rest b)"
    using opp_neq_side_idx by (intro fill_off_level [OF f]) auto
  then have "level inst (side_idx side) price (sb_rest b') = level inst (side_idx side) price (sb_rest b)
      @ (if rem = 0 then [] else [i])"
    using r by (simp add: level_append) (simp add: level_def at_level_def)
  then have "ex_books ex' inst (side_idx side) price =
        (case ex_orders ex' i of None \<Rightarrow> ex_books ex inst (side_idx side) price
         | Some _ \<Rightarrow> Some ((case ex_books ex inst (side_idx side) price of None \<Rightarrow> [] | Some dq \<Rightarrow> dq) @ [i]))"
    using new by (cases "ex_orders ex' i") (auto simp: bk index_apply)
  with 1 show ?thesis by blast
qed

theorem submit_isolated_witness:
  "\<exists>i ts ex'. submit Sell 1 7 100 2 [] demo1 = (i, ts, ex') \<and> ex_books ex' 0 1 238 = Some [0]"
proof -
  obtain i ts ex' where s: "submit Sell 1 7 100 2 [] demo1 = (i, ts, ex')" by (metis prod_cases3)
  have n: "Suc 1 < (2 :: nat) ^ 32" by simp
  from s submit_isolated [OF demo_reach(1) n s, of 0 238 1] show ?thesis by (simp add: demo_values)
qed

section \<open>Cancelling\<close>

text \<open>
  C12: a cancel in a reachable exchange refuses an id that is not resting and an id of another
  owner, with the two error texts and no change of state; otherwise it removes exactly that
  order from the table and from its queue, leaves every other order and queue position as it
  was, returns the whole remaining quantity, and a second cancel of the id is refused.
\<close>

theorem cancel_exact:
  assumes "ex_reach n ex" and "n < 2 ^ 32"
  shows "(ex_orders ex i = None \<longrightarrow> cancel i owner ex = Inl ''unknown order'')
    \<and> (\<forall>r. ex_orders ex i = Some r \<and> o_owner r \<noteq> owner \<longrightarrow> cancel i owner ex = Inl ''not your order'')
    \<and> (\<forall>r. ex_orders ex i = Some r \<and> o_owner r = owner \<longrightarrow>
        (\<exists>ex'. cancel i owner ex = Inr ex'
          \<and> ex_orders ex' = (ex_orders ex)(i := None) \<and> ex_next_id ex' = ex_next_id ex
          \<and> (\<forall>j k p. ex_books ex' j k p =
               (case ex_books ex j k p of None \<Rightarrow> None
                | Some dq \<Rightarrow> if remove1 i dq = [] then None else Some (remove1 i dq)))
          \<and> volume ex = volume ex' + unat (o_remaining r)
          \<and> cancel i owner ex' = Inl ''unknown order''))"
proof -
  obtain b where b: "represents ex b" using reach_represents [OF assms] by blast
  then have ex: "ex_orders ex = by_id (sb_rest b)" "ex_books ex = index (sb_rest b)"
    and ok: "orders_ok (sb_next b) (sb_rest b)" by (auto simp: represents_def)
  have d: "distinct (map o_id (sb_rest b))" by (rule orders_ok_distinct [OF ok])
  let ?rs' = "filter (\<lambda>x. o_id x \<noteq> i) (sb_rest b)"
  have "\<exists>ex'. cancel i owner ex = Inr ex'
          \<and> ex_orders ex' = (ex_orders ex)(i := None) \<and> ex_next_id ex' = ex_next_id ex
          \<and> (\<forall>j k p. ex_books ex' j k p =
               (case ex_books ex j k p of None \<Rightarrow> None
                | Some dq \<Rightarrow> if remove1 i dq = [] then None else Some (remove1 i dq)))
          \<and> volume ex = volume ex' + unat (o_remaining r)
          \<and> cancel i owner ex' = Inl ''unknown order''"
    if r: "ex_orders ex i = Some r" "o_owner r = owner" for r
  proof -
    let ?b' = "b\<lparr>sb_rest := ?rs'\<rparr>"
    have "spec_cancel i owner b = Inr ?b'"
      using r by (simp add: ex spec_cancel_def by_id_find)
    with cancel_refines [OF b, of i owner] obtain ex' where
      ex': "cancel i owner ex = Inr ex'" "represents ex' ?b'" by auto
    have o': "ex_orders ex' = (ex_orders ex)(i := None)" "ex_next_id ex' = ex_next_id ex"
      using ex'(1) r by (auto simp: cancel_def Let_def)
    have lv: "level j k p ?rs' = remove1 i (level j k p (sb_rest b))" for j k p
      by (simp add: level_remove [OF d])
    have bk: "ex_books ex' = index ?rs'" using ex'(2) by (simp add: represents_def)
    have "filter (\<lambda>x. o_id x = i) (sb_rest b) = [r]"
      using r(1) distinct_filter_eq [OF d, of r] by (auto simp: ex by_id_eq [OF d])
    then have "quantity (sb_rest b) = unat (o_remaining r) + quantity ?rs'"
      using sum_list_filter_split [of "\<lambda>x. unat (o_remaining x)" "sb_rest b" "\<lambda>x. o_id x = i"] by simp
    then have "volume ex = volume ex' + unat (o_remaining r)"
      by (simp add: volume_represents [OF b] volume_represents [OF ex'(2)])
    moreover have "cancel i owner ex' = Inl ''unknown order''" by (simp add: cancel_def o')
    moreover have "ex_books ex' j k p =
               (case ex_books ex j k p of None \<Rightarrow> None
                | Some dq \<Rightarrow> if remove1 i dq = [] then None else Some (remove1 i dq))" for j k p
      by (simp add: bk ex index_apply lv)
    ultimately show ?thesis using ex'(1) o' by blast
  qed
  then show ?thesis by (auto simp: cancel_def)
qed

theorem cancel_exact_witness:
  "cancel 0 9 demo1 = Inl ''not your order'' \<and> cancel 4 1 demo1 = Inl ''unknown order''
   \<and> (\<exists>ex'. cancel 0 1 demo1 = Inr ex' \<and> cancel 0 1 ex' = Inl ''unknown order'')"
proof -
  have n: "(1 :: nat) < 2 ^ 32" by simp
  note c = cancel_exact [OF demo_reach(1) n]
  have "ex_orders demo1 4 = None" by (simp add: demo1_def submit_eval)
  then have 1: "cancel 4 1 demo1 = Inl ''unknown order''" using c [of 4 1] by blast
  have 2: "cancel 0 9 demo1 = Inl ''not your order''"
    using c [of 0 9, THEN conjunct2, THEN conjunct1] by (simp add: demo_values)
  have 3: "\<exists>ex'. cancel 0 1 demo1 = Inr ex' \<and> cancel 0 1 ex' = Inl ''unknown order''"
    using c [of 0 1, THEN conjunct2, THEN conjunct2, rule_format, OF conjI, OF demo_values(4)] by auto
  from 1 2 3 show ?thesis by blast
qed

section \<open>The id counter wraps\<close>

text \<open>
  Two orders that fill each other leave the tables as they were and use up two ids. Repeated,
  they take the counter once around while two old orders keep resting.
\<close>

lemma pair_restores:
  assumes "ex_reach n ex" and "ex_books ex 0 0 100 = None" and "ex_books ex 0 1 100 = None"
    and "ex_orders ex (ex_next_id ex) = None"
  shows "ex_reach (n + 2) (ex\<lparr>ex_next_id := ex_next_id ex + 2\<rparr>)"
proof -
  let ?i = "ex_next_id ex"
  let ?o = "\<lparr>o_id = ?i, o_side = Buy, o_inst = 0, o_price = 100, o_remaining = 1, o_owner = 1\<rparr>"
  let ?ex1 = "ex\<lparr>ex_next_id := ?i + 1, ex_orders := (ex_orders ex)(?i \<mapsto> ?o),
    ex_books := set_level 0 0 100 (Some [?i]) (ex_books ex)\<rparr>"
  have 1: "submit Buy 0 1 100 1 [] ex = (?i, [], ?ex1)"
    using assms by (simp add: submit_def Let_def emplace_order_def side_idx_def)
  have "set_level 0 0 100 None (set_level 0 0 100 (Some [?i]) (ex_books ex)) = ex_books ex"
    using assms(2) by (auto simp: fun_eq_iff set_level_apply)
  moreover have "(ex_orders ex)(?i := None) = ex_orders ex" using assms(4) by (simp add: fun_upd_idem)
  moreover have "match_loop Sell 0 100 1 1 [?i] ((ex_orders ex)(?i \<mapsto> ?o)) []
    = (0, [], ex_orders ex, [mk_trade Sell 0 1 100 1 1])"
    using assms(4) by (simp add: match_loop_fill match_loop_stop fun_upd_idem)
  ultimately have 2: "submit Sell 0 1 100 1 [] ?ex1 = (?i + 1, [mk_trade Sell 0 1 100 1 1], ex\<lparr>ex_next_id := ?i + 2\<rparr>)"
    by (simp add: submit_def Let_def set_level_apply)
  from ex_reach.reach_submit [OF ex_reach.reach_submit [OF assms(1) 1] 2] show ?thesis by simp
qed

lemma pairs_restore:
  assumes "ex_reach n ex" and "ex_books ex 0 0 100 = None" and "ex_books ex 0 1 100 = None"
    and "\<And>j. j < k \<Longrightarrow> ex_orders ex (ex_next_id ex + of_nat (2 * j)) = None"
  shows "ex_reach (n + 2 * k) (ex\<lparr>ex_next_id := ex_next_id ex + of_nat (2 * k)\<rparr>)"
  using assms(4)
proof (induction k)
  case 0
  with assms(1) show ?case by simp
next
  case (Suc k)
  let ?ex = "ex\<lparr>ex_next_id := ex_next_id ex + of_nat (2 * k)\<rparr>"
  have "ex_reach (n + 2 * k) ?ex" using Suc by simp
  moreover have "ex_orders ?ex (ex_next_id ?ex) = None" using Suc.prems [of k] by simp
  ultimately have "ex_reach (n + 2 * k + 2) (?ex\<lparr>ex_next_id := ex_next_id ?ex + 2\<rparr>)"
    using assms(2,3) by (intro pair_restores) simp_all
  then show ?case by (simp add: algebra_simps)
qed

lemma wrapped_reach: "ex_reach (2 ^ 32) (demo2\<lparr>ex_next_id := 0\<rparr>)"
proof -
  have none: "ex_orders demo2 j = None" if "j \<noteq> 0" "j \<noteq> 1" for j using that by (simp add: demo2_def submit_eval)
  have "ex_orders demo2 (ex_next_id demo2 + of_nat (2 * j)) = None" if "j < 2 ^ 31 - 1" for j
  proof -
    define m where "m = 2 * j + 2"
    have m: "2 \<le> m" "m < 2 ^ 32" "(2 + of_nat (2 * j) :: u32) = of_nat m" using that by (simp_all add: m_def)
    then have u: "unat (of_nat m :: u32) = m" by (simp add: unat_of_nat)
    have "(of_nat m :: u32) \<noteq> 0" "(of_nat m :: u32) \<noteq> 1" using m(1) u by auto
    then show ?thesis unfolding demo_values(1) m(3) by (rule none)
  qed
  moreover have "ex_books demo2 0 0 100 = None" "ex_books demo2 0 1 100 = None" by (simp_all add: demo2_def submit_eval)
  ultimately have "ex_reach (2 + 2 * (2 ^ 31 - 1)) (demo2\<lparr>ex_next_id := ex_next_id demo2 + of_nat (2 * (2 ^ 31 - 1))\<rparr>)"
    using demo_reach(2) by (intro pairs_restore) simp_all
  moreover have "(4294967296 :: u32) = 0" using word_exp_length_eq_0 [where 'a = 32] by simp
  ultimately show ?thesis by (simp add: demo_values)
qed

text \<open>
  C37: the id counter is 32 bits wide and wraps: after \<open>2^32\<close> submits an exchange is reachable in
  which the next id, 0, is that of an order that still rests, a sell of 5 by owner 1. There a
  further sell at the same price, for any positive quantity, is acknowledged with id 0 and
  the order table does not change: its quantity and owner are in no order, the quantity at
  rest does not grow although nothing was traded, its owner cannot cancel it, and the queue of
  its price has the id 0 a second time.
\<close>

theorem submit_id_collision:
  assumes "0 < qty" and "owner \<noteq> 1"
  shows "\<exists>ex ex'. ex_reach (2 ^ 32) ex \<and> ex_next_id ex = 0
    \<and> ex_orders ex 0 = Some \<lparr>o_id = 0, o_side = Sell, o_inst = 0, o_price = 238, o_remaining = 5, o_owner = 1\<rparr>
    \<and> submit Sell 0 qty 238 owner [] ex = (0, [], ex') \<and> ex_orders ex' = ex_orders ex \<and> volume ex' = volume ex
    \<and> cancel 0 owner ex' = Inl ''not your order''
    \<and> ex_books ex 0 1 238 = Some [0, 1] \<and> ex_books ex' 0 1 238 = Some [0, 1, 0]"
proof -
  let ?ex = "demo2\<lparr>ex_next_id := 0\<rparr>"
  have o: "ex_orders demo2 0 = Some \<lparr>o_id = 0, o_side = Sell, o_inst = 0, o_price = 238, o_remaining = 5, o_owner = 1\<rparr>"
    "ex_books demo2 0 0 238 = None" by (simp_all add: demo2_def submit_eval)
  obtain ex' where s: "submit Sell 0 qty 238 owner [] ?ex = (0, [], ex')" and e: "ex_orders ex' = ex_orders ?ex"
    "ex_books ex' 0 1 238 = Some [0, 1, 0]"
    using o assms(1) demo_values(2) by (simp add: submit_def Let_def emplace_order_def side_idx_def set_level_apply)
  from e(1) have "volume ex' = volume ?ex" by (simp add: volume_def)
  moreover have "cancel 0 owner ex' = Inl ''not your order''" using e(1) o(1) assms(2) by (simp add: cancel_def)
  ultimately show ?thesis
    using wrapped_reach s e o demo_values(2) by (intro exI [of _ ?ex] exI [of _ ex']) simp
qed

theorem submit_id_collision_witness:
  "\<exists>ex ex'. ex_reach (2 ^ 32) ex \<and> submit Sell 0 3 238 7 [] ex = (0, [], ex') \<and> ex_orders ex' = ex_orders ex"
  using submit_id_collision [of 3 7] by auto

end
