(* ===== verification/Session_Spec.thy ===== *)
theory Session_Spec
  imports Output Book_Props
begin

text \<open>
  What the command layer of the server promises its clients, without buffers, sockets and
  indices: a session per live connection and a book in arrival order. \<open>request\<close> says what a
  line asks for or why it is refused, given the role of the client; \<open>perform\<close> says what it
  does and who is told. The last section proves that \<open>handle_line\<close> refines this: the only
  freedom the server has is to close a connection to which it had something to send, or the
  one that asked to quit.
\<close>

section \<open>The specification\<close>

record session =
  se_owner :: owner
  se_role :: Role
  se_name :: string
  se_subs :: "int \<Rightarrow> bool"
  se_closing :: bool

record spec_server =
  sp_sess :: "fd \<rightharpoonup> session"
  sp_book :: spec_book

datatype request =
    Nothing
  | Refuse string
  | Login string
  | Place Side int u32 u32
  | Withdraw u32
  | Listen int bool
  | Quit

definition req_order :: "Side \<Rightarrow> string list \<Rightarrow> request" where
  "req_order side args =
     (case args of
        [n, q, p] \<Rightarrow>
          if n \<notin> set kInstruments then Refuse ''unknown instrument''
          else (case (parse_u32 q kMinValue kMaxValue, parse_u32 p kMinValue kMaxValue) of
                  (None, _) \<Rightarrow> Refuse ''bad quantity''
                | (Some qty, None) \<Rightarrow> Refuse ''bad price''
                | (Some qty, Some price) \<Rightarrow> Place side (instrument_index n) qty price)
      | _ \<Rightarrow> Refuse ''bad arguments'')"

definition req_cancel :: "string list \<Rightarrow> request" where
  "req_cancel args =
     (case args of
        [i] \<Rightarrow> (case parse_u32 i 0 kMaxOrderId of None \<Rightarrow> Refuse ''bad order id'' | Some i \<Rightarrow> Withdraw i)
      | _ \<Rightarrow> Refuse ''bad arguments'')"

definition req_listen :: "bool \<Rightarrow> string list \<Rightarrow> request" where
  "req_listen on args =
     (case args of
        [n] \<Rightarrow> if n \<in> set kInstruments then Listen (instrument_index n) on else Refuse ''unknown instrument''
      | _ \<Rightarrow> Refuse ''bad arguments'')"

definition req_login :: "Role \<Rightarrow> string list \<Rightarrow> request" where
  "req_login r args =
     (case args of
        [u] \<Rightarrow> (case r of Unknown \<Rightarrow> Login u | Trader \<Rightarrow> Refuse ''already logged in''
                | MarketData \<Rightarrow> Refuse ''not permitted for this client type'')
      | _ \<Rightarrow> Refuse ''bad arguments'')"

text \<open>Orders and cancels are for traders, subscriptions for anyone but a trader.\<close>

definition for_trader :: "Role \<Rightarrow> request \<Rightarrow> request" where
  "for_trader r q = (case r of Trader \<Rightarrow> q | Unknown \<Rightarrow> Refuse ''not logged in''
     | MarketData \<Rightarrow> Refuse ''not permitted for this client type'')"

definition request :: "Role \<Rightarrow> string list \<Rightarrow> request" where
  "request r tk =
     (case tk of
        [] \<Rightarrow> Nothing
      | v # args \<Rightarrow>
          if v = ''LOGIN'' then req_login r args
          else if v = ''BUY'' then for_trader r (req_order Buy args)
          else if v = ''SELL'' then for_trader r (req_order Sell args)
          else if v = ''CANCEL'' then for_trader r (req_cancel args)
          else if v = ''SUBSCRIBE'' \<or> v = ''UNSUBSCRIBE''
            then (if r = Trader then Refuse ''not permitted for this client type''
                  else req_listen (v = ''SUBSCRIBE'') args)
          else if v = ''QUIT'' then Quit
          else Refuse ''unknown command'')"

definition taken :: "string \<Rightarrow> spec_server \<Rightarrow> bool" where
  "taken u sp \<longleftrightarrow> (\<exists>x \<in> ran (sp_sess sp). se_role x = Trader \<and> se_name x = u)"

definition trades_as :: "spec_server \<Rightarrow> owner \<Rightarrow> fd \<Rightarrow> bool" where
  "trades_as sp ow g \<longleftrightarrow> (case sp_sess sp g of None \<Rightarrow> False | Some x \<Rightarrow> se_role x = Trader \<and> se_owner x = ow)"

definition listens :: "spec_server \<Rightarrow> int \<Rightarrow> fd \<Rightarrow> bool" where
  "listens sp inst g \<longleftrightarrow> (case sp_sess sp g of None \<Rightarrow> False
     | Some x \<Rightarrow> se_role x = MarketData \<and> se_subs x inst \<and> \<not> se_closing x)"

text \<open>Who is told what of one trade: the buyer, the seller, and every listener once.\<close>

definition news :: "spec_server \<Rightarrow> Trade \<Rightarrow> fd \<Rightarrow> string" where
  "news sp t g =
     (if trades_as sp (t_buyer_owner t) g then msg_bought (t_inst t) (t_qty t) (t_price t) else []) @
     (if trades_as sp (t_seller_owner t) g then msg_sold (t_inst t) (t_qty t) (t_price t) else []) @
     (if listens sp (t_inst t) g then msg_trade (t_inst t) (t_qty t) (t_price t) else [])"

definition upd_sess :: "fd \<Rightarrow> session \<Rightarrow> spec_server \<Rightarrow> spec_server" where
  "upd_sess f x sp = sp\<lparr>sp_sess := (sp_sess sp)(f \<mapsto> x)\<rparr>"

definition perform :: "fd \<Rightarrow> session \<Rightarrow> request \<Rightarrow> spec_server \<Rightarrow> spec_server \<times> (fd \<Rightarrow> string)" where
  "perform f x q sp =
     (case q of
        Nothing \<Rightarrow> (sp, \<lambda>_. [])
      | Refuse e \<Rightarrow> (sp, to f (msg_error e))
      | Login u \<Rightarrow>
          if taken u sp then (sp, to f (msg_error ''duplicate username''))
          else (upd_sess f (x\<lparr>se_role := Trader, se_name := u\<rparr>) sp, to f msg_ok)
      | Place side inst qty price \<Rightarrow>
          (let (i, ts, b) = spec_submit side inst qty price (se_owner x) (sp_book sp)
           in (sp\<lparr>sp_book := b\<rparr>,
               \<lambda>g. to f (msg_order_accepted i) g @ concat (map (\<lambda>t. news sp t g) ts)))
      | Withdraw i \<Rightarrow>
          (case spec_cancel i (se_owner x) (sp_book sp) of
             Inl e \<Rightarrow> (sp, to f (msg_error e))
           | Inr b \<Rightarrow> (sp\<lparr>sp_book := b\<rparr>, to f (msg_order_cancelled i)))
      | Listen inst on \<Rightarrow>
          (upd_sess f (x\<lparr>se_role := MarketData, se_subs := (se_subs x)(inst := on)\<rparr>) sp, to f msg_ok)
      | Quit \<Rightarrow> (upd_sess f (x\<lparr>se_closing := True\<rparr>) sp, \<lambda>_. []))"

definition spec_line :: "fd \<Rightarrow> string \<Rightarrow> spec_server \<Rightarrow> spec_server \<times> (fd \<Rightarrow> string)" where
  "spec_line f line sp =
     (case sp_sess sp f of
        None \<Rightarrow> (sp, \<lambda>_. [])
      | Some x \<Rightarrow> perform f x (request (se_role x) (tokens line)) sp)"

section \<open>Parsing a line into a request\<close>

text \<open>The state changes of the handlers, by request.\<close>

definition do_login :: "fd \<Rightarrow> Conn \<Rightarrow> string \<Rightarrow> Server \<Rightarrow> Server" where
  "do_login f c u s = (upd_conn f (\<lambda>c. c\<lparr>c_role := Trader, c_username := u\<rparr>) s)\<lparr>
     sv_usernames := insert u (sv_usernames s), sv_owner_fd := (sv_owner_fd s)(c_owner_id c \<mapsto> c_fd c)\<rparr>"

definition do_listen :: "fd \<Rightarrow> int \<Rightarrow> bool \<Rightarrow> Server \<Rightarrow> Server" where
  "do_listen f inst on s = upd_conn f (\<lambda>c. c\<lparr>c_role := MarketData, c_subs := (c_subs c)(inst := on)\<rparr>) s"

definition serve :: "fd \<Rightarrow> Conn \<Rightarrow> request \<Rightarrow> Server \<Rightarrow> Server" where
  "serve f c q s =
     (case q of
        Nothing \<Rightarrow> s
      | Refuse e \<Rightarrow> queue_out f (msg_error e) s
      | Login u \<Rightarrow>
          if u \<in> sv_usernames s then queue_out f (msg_error ''duplicate username'') s
          else queue_out f msg_ok (do_login f c u s)
      | Place side inst qty price \<Rightarrow>
          (case submit side inst qty price (c_owner_id c) [] (sv_exch s) of (i, ts, ex) \<Rightarrow>
             fold publish ts (queue_out f (msg_order_accepted i) (s\<lparr>sv_exch := ex\<rparr>)))
      | Withdraw i \<Rightarrow>
          (case cancel i (c_owner_id c) (sv_exch s) of
             Inl e \<Rightarrow> queue_out f (msg_error e) s
           | Inr ex \<Rightarrow> queue_out f (msg_order_cancelled i) (s\<lparr>sv_exch := ex\<rparr>))
      | Listen inst on \<Rightarrow> queue_out f msg_ok (do_listen f inst on s)
      | Quit \<Rightarrow> cmd_quit f s)"

lemma instrument_index_neg: "instrument_index n < 0 \<longleftrightarrow> n \<notin> set kInstruments"
  by (auto simp: instrument_index_def kInstruments_def)

lemma cmd_login_serve:
  "sv_conns s f = Some c \<Longrightarrow> cmd_login f (v # args) s = serve f c (req_login (c_role c) args) s"
  by (cases args; cases "tl args"; cases "c_role c")
    (auto simp: cmd_login_def with_conn_def req_login_def serve_def do_login_def Let_def)

lemma cmd_order_serve:
  "sv_conns s f = Some c \<Longrightarrow>
   cmd_order f (v # args) side s = serve f c (for_trader (c_role c) (req_order side args)) s"
  by (cases "c_role c")
    (auto simp: cmd_order_def with_conn_def req_order_def for_trader_def serve_def Let_def
      instrument_index_neg split: list.splits option.splits prod.splits)

lemma cmd_cancel_serve:
  "sv_conns s f = Some c \<Longrightarrow>
   cmd_cancel f (v # args) s = serve f c (for_trader (c_role c) (req_cancel args)) s"
  by (cases "c_role c")
    (auto simp: cmd_cancel_def with_conn_def req_cancel_def for_trader_def serve_def Let_def
      split: list.splits option.splits sum.splits)

lemma cmd_subscribe_serve:
  "sv_conns s f = Some c \<Longrightarrow> cmd_subscribe f (v # args) on s =
   serve f c (if c_role c = Trader then Refuse ''not permitted for this client type'' else req_listen on args) s"
  by (auto simp: cmd_subscribe_def with_conn_def req_listen_def serve_def do_listen_def Let_def
      instrument_index_neg split: list.splits)

lemma handle_line_serve:
  assumes "sv_conns s f = Some c"
  shows "handle_line f line s = serve f c (request (c_role c) (tokens line)) s"
proof (cases "tokens line")
  case Nil
  then show ?thesis by (simp add: handle_line_def split_ws_tokens request_def serve_def)
next
  case (Cons v args)
  have "serve f c Quit s = cmd_quit f s" "serve f c (Refuse e) s = queue_out f (msg_error e) s" for e
    by (simp_all add: serve_def)
  with Cons assms show ?thesis
    by (simp add: handle_line_def split_ws_tokens request_def Let_def cmd_login_serve cmd_order_serve
        cmd_cancel_serve cmd_subscribe_serve)
qed

section \<open>Refinement\<close>

definition sess_of :: "Conn \<Rightarrow> session" where
  "sess_of c = \<lparr>se_owner = c_owner_id c, se_role = c_role c, se_name = c_username c, se_subs = c_subs c,
     se_closing = c_closing c\<rparr>"

definition abs_sess :: "Server \<Rightarrow> fd \<rightharpoonup> session" where
  "abs_sess s g = (case sv_conns s g of None \<Rightarrow> None | Some c \<Rightarrow> if c_dead c then None else Some (sess_of c))"

definition refines :: "Server \<Rightarrow> spec_server \<Rightarrow> bool" where
  "refines s sp \<longleftrightarrow> sp_sess sp = abs_sess s \<and> represents (sv_exch s) (sp_book sp)"

text \<open>
  One command: the streams of the connections grow by what the specification sends, the book
  follows the specification, and every connection that lives has the session it prescribes.
\<close>

definition carries_out :: "fd set \<Rightarrow> Server \<Rightarrow> spec_server \<times> (fd \<Rightarrow> string) \<Rightarrow> Server \<Rightarrow> bool" where
  "carries_out F s r s' \<longleftrightarrow> emits F s (snd r) s' \<and> represents (sv_exch s') (sp_book (fst r))
     \<and> (\<forall>g. live g s' \<longrightarrow> abs_sess s' g = sp_sess (fst r) g)"

lemma exch_output [simp]:
  "sv_exch (close_conn f s) = sv_exch s" "sv_exch (try_flush f s) = sv_exch s"
  "sv_exch (queue_out f m s) = sv_exch s" "sv_exch (notify_owner ow m s) = sv_exch s"
  "sv_exch (publish_to t f s) = sv_exch s"
proof -
  show 1: "sv_exch (close_conn f s) = sv_exch s" for f s
    by (simp add: close_conn_def split: option.splits)
  show 2: "sv_exch (try_flush f s) = sv_exch s" for f s
    by (simp add: try_flush_def Let_def 1 split: option.splits prod.splits flush_end.splits)
  show 3: "sv_exch (queue_out f m s) = sv_exch s" for f m s
    by (simp add: queue_out_def Let_def 1 2 split: option.splits)
  show "sv_exch (notify_owner ow m s) = sv_exch s" "sv_exch (publish_to t f s) = sv_exch s"
    by (simp_all add: notify_owner_def publish_to_def 3 split: option.splits)
qed

lemma exch_fold: "(\<And>x s. sv_exch (k x s) = sv_exch s) \<Longrightarrow> sv_exch (fold k xs s) = sv_exch s"
  by (induction xs arbitrary: s) simp_all

lemma exch_publish [simp]: "sv_exch (publish t s) = sv_exch s" "sv_exch (fold publish ts s) = sv_exch s"
  by (simp_all add: publish_def Let_def exch_fold)

lemma abs_sess_oframe: "oframe s s' \<Longrightarrow> live g s' \<Longrightarrow> abs_sess s' g = abs_sess s g"
  by (rule oframe_live_same) (auto simp: abs_sess_def sess_of_def same_id_def)

lemma abs_sess_upd:
  assumes "sv_conns s f = Some c" and "\<not> c_dead c" and "\<And>c. c_dead (k c) = c_dead c"
    and "sv_conns s' = (sv_conns s)(f := map_option k (sv_conns s f))"
  shows "abs_sess s' = (abs_sess s)(f \<mapsto> sess_of (k c))"
  using assms by (auto simp: abs_sess_def fun_eq_iff)

text \<open>A silent change of state followed by one message to the client.\<close>

lemma reply_carries_out:
  assumes inv: "sv_inv s1" and q: "emits F s (\<lambda>_. []) s1" and m: "m \<noteq> []"
    and "sp_sess sp' = abs_sess s1" and "represents (sv_exch s1) (sp_book sp')"
  shows "carries_out F s (sp', to f m) (queue_out f m s1)"
proof -
  have "oframe s1 (queue_out f m s1)" using queue_out_ok [OF inv] by (simp add: oframe_def)
  with assms emits_trans [OF q queue_out_emits [OF inv m]] show ?thesis
    by (simp add: carries_out_def abs_sess_oframe)
qed

lemma names_taken:
  assumes "sv_inv s" and "sp_sess sp = abs_sess s"
  shows "taken u sp \<longleftrightarrow> u \<in> sv_usernames s"
proof -
  have "u \<in> sv_usernames s \<longleftrightarrow> (\<exists>f ow. view s f = Some (ow, Trader, u, False))"
    using assms(1) unfolding inv_except_def ids_ok_def names_ok_def by blast
  also have "\<dots> \<longleftrightarrow> (\<exists>f c. sv_conns s f = Some c \<and> \<not> c_dead c \<and> c_role c = Trader \<and> c_username c = u)"
    by (auto simp: view_def ident_def)
  also have "\<dots> \<longleftrightarrow> taken u sp"
    by (force simp: taken_def ran_def assms(2) abs_sess_def sess_of_def split: option.splits if_splits)
  finally show ?thesis ..
qed

lemma news_msgs:
  assumes "sv_inv s" and "sp_sess sp = abs_sess s"
  shows "news sp t g = trade_msgs s t g"
proof -
  have "trades_as sp ow g \<longleftrightarrow> sv_owner_fd s ow = Some g" for ow
    by (auto simp: inv_owner_fd [OF assms(1)] trades_as_def assms(2) abs_sess_def sess_of_def split: option.splits)
  moreover have "listens sp inst g \<longleftrightarrow> subscriber inst g s" for inst
    by (auto simp: listens_def subscriber_def assms(2) abs_sess_def sess_of_def split: option.splits)
  ultimately show ?thesis by (simp add: news_def trade_msgs_def)
qed

lemma place_carries_out:
  assumes inv: "sv_inv s" and c: "sv_conns s f = Some c" "c_role c = Trader" and r: "refines s sp"
    and nowrap: "sb_next (sp_book sp) + 1 \<noteq> 0" and x: "se_owner x = c_owner_id c"
  shows "carries_out F s (perform f x (Place side inst qty price) sp) (serve f c (Place side inst qty price) s)"
proof -
  obtain i ts b where sp: "spec_submit side inst qty price (c_owner_id c) (sp_book sp) = (i, ts, b)"
    by (metis prod_cases3)
  obtain ex where ex: "submit side inst qty price (c_owner_id c) [] (sv_exch s) = (i, ts, ex)" "represents ex b"
    using submit_refines [OF _ nowrap sp, of "sv_exch s" "[]"] r by (auto simp: refines_def)
  define s1 where "s1 = s\<lparr>sv_exch := ex\<rparr>"
  define s2 where "s2 = queue_out f (msg_order_accepted i) s1"
  from exch_ok [OF inv submit_owned [OF inv c ex(1)]] have 1: "sv_inv s1" by (simp add: s1_def)
  have 2: "sv_inv s2" "oframe s1 s2" using queue_out_ok [OF 1] by (simp_all add: s2_def oframe_def)
  have 3: "oframe s2 (fold publish ts s2)"
    using fold_ok [of publish, OF publish_ok 2(1)] by (simp add: oframe_def)
  have tm: "trade_msgs s1 t g = news sp t g" for t g
    using news_msgs [OF inv, of sp t g] r by (simp add: refines_def trade_msgs_def subscriber_def s1_def)
  have e1: "emits F s (\<lambda>g. [] @ to f (msg_order_accepted i) g) s2"
    unfolding s2_def s1_def by (rule emits_trans [OF emits_exch queue_out_emits [OF 1 [unfolded s1_def]]]) simp
  have e2: "emits F s2 (\<lambda>g. concat (map (\<lambda>t. news sp t g) ts)) (fold publish ts s2)"
    by (rule emits_cong [OF fold_publish_emits [OF 2(1)]]) (simp add: trade_msgs_frame [OF 1 2] tm)
  have "abs_sess s1 = abs_sess s" by (simp add: abs_sess_def s1_def fun_eq_iff)
  then have a: "live g (fold publish ts s2) \<Longrightarrow> abs_sess (fold publish ts s2) g = sp_sess sp g" for g
    using abs_sess_oframe [OF oframe_trans [OF 2(2) 3]] r by (simp add: refines_def)
  have "serve f c (Place side inst qty price) s = fold publish ts s2"
    by (simp add: serve_def ex s1_def s2_def)
  moreover have "sv_exch (fold publish ts s2) = ex" by (simp add: s1_def s2_def)
  ultimately show ?thesis
    using emits_trans [OF e1 e2] a ex(2) by (simp add: carries_out_def perform_def x sp)
qed

lemma quit_carries_out:
  assumes inv: "sv_inv s" and c: "sv_conns s f = Some c" "\<not> c_dead c" and r: "refines s sp" and x: "x = sess_of c"
  shows "carries_out {f} s (perform f x Quit sp) (serve f c Quit s)"
proof -
  let ?k = "\<lambda>c :: Conn. c\<lparr>c_closing := True\<rparr>"
  let ?s1 = "upd_conn f ?k s"
  have 1: "inv_except {f} ?s1" using closing_state [OF inv c] by simp
  have pend: "ob_pending (c_out c) \<le> kMaxOutBytes"
    using inv c by (auto simp: inv_except_def flows_ok_def flow_ok_def)
  have io: "io1 f [] ?s1 (try_flush f ?s1)"
    using c inv_connD [OF inv c(1)] pend by (intro try_flush_io [of _ _ "?k c"]) simp_all
  have "emits {f} s (\<lambda>g. [] @ to f [] g) (try_flush f ?s1)"
    by (rule emits_trans [OF emits_upd [where k = ?k and f = f] io1_emits [OF io]]) simp_all
  moreover have "oframe ?s1 (try_flush f ?s1)" using io1_frame [OF io] by (simp add: oframe_def)
  moreover have "abs_sess ?s1 = (abs_sess s)(f \<mapsto> sess_of (?k c))" by (rule abs_sess_upd [OF c]) simp_all
  ultimately show ?thesis
    using r abs_sess_oframe
    by (simp add: carries_out_def serve_def perform_def cmd_quit_def upd_sess_def refines_def x sess_of_def)
qed

lemma login_carries_out:
  assumes inv: "sv_inv s" and c: "sv_conns s f = Some c" "\<not> c_dead c" and r: "refines s sp"
    and u: "u \<noteq> []" and role: "c_role c = Unknown"
  shows "carries_out F s (perform f (sess_of c) (Login u) sp) (serve f c (Login u) s)"
proof -
  have sp: "sp_sess sp = abs_sess s" "represents (sv_exch s) (sp_book sp)" using r by (simp_all add: refines_def)
  show ?thesis
  proof (cases "u \<in> sv_usernames s")
    case True
    then show ?thesis
      by (simp add: serve_def perform_def names_taken [OF inv sp(1)] reply_carries_out [OF inv emits_refl _ sp])
  next
    case False
    let ?k = "\<lambda>c. c\<lparr>c_role := Trader, c_username := u\<rparr>"
    have cs: "sv_conns (do_login f c u s) = (sv_conns s)(f := map_option ?k (sv_conns s f))"
      by (simp add: do_login_def)
    have "sv_inv (do_login f c u s)" using cmd_login_state [OF inv c _ _ False] u role by (simp add: do_login_def)
    moreover have "emits F s (\<lambda>_. []) (do_login f c u s)"
      by (rule emits_upd [OF _ cs]) (simp_all add: do_login_def)
    moreover have "abs_sess (do_login f c u s) = (abs_sess s)(f \<mapsto> sess_of (?k c))"
      by (rule abs_sess_upd [OF c _ cs]) simp
    moreover have "sv_exch (do_login f c u s) = sv_exch s" by (simp add: do_login_def)
    ultimately show ?thesis
      using False sp
      by (simp add: serve_def perform_def names_taken [OF inv sp(1)] reply_carries_out upd_sess_def sess_of_def)
  qed
qed

lemma withdraw_carries_out:
  assumes inv: "sv_inv s" and r: "refines s sp"
  shows "carries_out F s (perform f (sess_of c) (Withdraw i) sp) (serve f c (Withdraw i) s)"
proof -
  have sp: "sp_sess sp = abs_sess s" "represents (sv_exch s) (sp_book sp)" using r by (simp_all add: refines_def)
  show ?thesis
  proof (cases "spec_cancel i (c_owner_id c) (sp_book sp)")
    case (Inl e)
    with cancel_refines [OF sp(2), of i "c_owner_id c"] show ?thesis
      by (simp add: serve_def perform_def sess_of_def reply_carries_out [OF inv emits_refl _ sp])
  next
    case (Inr b)
    with cancel_refines [OF sp(2), of i "c_owner_id c"] obtain ex where
      ex: "cancel i (c_owner_id c) (sv_exch s) = Inr ex" "represents ex b" by auto
    from exch_ok [OF inv cancel_owned [OF inv ex(1)]] have "sv_inv (s\<lparr>sv_exch := ex\<rparr>)" by simp
    moreover have "abs_sess (s\<lparr>sv_exch := ex\<rparr>) = abs_sess s" by (simp add: abs_sess_def fun_eq_iff)
    ultimately show ?thesis
      using Inr ex sp by (simp add: serve_def perform_def sess_of_def reply_carries_out)
  qed
qed

lemma listen_carries_out:
  assumes inv: "sv_inv s" and c: "sv_conns s f = Some c" "\<not> c_dead c" and r: "refines s sp" and role: "c_role c \<noteq> Trader"
  shows "carries_out F s (perform f (sess_of c) (Listen inst on) sp) (serve f c (Listen inst on) s)"
proof -
  let ?k = "\<lambda>c. c\<lparr>c_role := MarketData, c_subs := (c_subs c)(inst := on)\<rparr>"
  have cs: "sv_conns (do_listen f inst on s) = (sv_conns s)(f := map_option ?k (sv_conns s f))"
    by (simp add: do_listen_def)
  have "sv_inv (do_listen f inst on s)" using cmd_subscribe_state [OF inv c] role by (simp add: do_listen_def)
  moreover have "emits F s (\<lambda>_. []) (do_listen f inst on s)"
    by (rule emits_upd [OF _ cs]) (simp_all add: do_listen_def)
  moreover have "abs_sess (do_listen f inst on s) = (abs_sess s)(f \<mapsto> sess_of (?k c))"
    by (rule abs_sess_upd [OF c _ cs]) simp
  moreover have "sv_exch (do_listen f inst on s) = sv_exch s" by (simp add: do_listen_def)
  ultimately show ?thesis
    using r by (simp add: refines_def serve_def perform_def reply_carries_out upd_sess_def sess_of_def)
qed

lemma serve_refines:
  assumes inv: "sv_inv s" and c: "sv_conns s f = Some c" "\<not> c_dead c" and r: "refines s sp"
    and nowrap: "sb_next (sp_book sp) + 1 \<noteq> 0"
    and login: "\<And>u. q = Login u \<Longrightarrow> u \<noteq> [] \<and> c_role c = Unknown"
    and listen: "\<And>j on. q = Listen j on \<Longrightarrow> c_role c \<noteq> Trader"
    and place: "\<And>side j a b. q = Place side j a b \<Longrightarrow> c_role c = Trader"
  shows "carries_out (if q = Quit then {f} else {}) s (perform f (sess_of c) q sp) (serve f c q s)"
proof (cases q)
  case Nothing
  then show ?thesis using r by (simp add: refines_def carries_out_def serve_def perform_def)
next
  case (Refuse e)
  then show ?thesis using r reply_carries_out [OF inv emits_refl] by (simp add: refines_def serve_def perform_def)
next
  case (Login u)
  then show ?thesis using login_carries_out [OF inv c r] login by simp
next
  case (Place side inst qty price)
  then show ?thesis using place_carries_out [OF inv c(1) place [OF Place] r nowrap] by (simp add: sess_of_def)
next
  case (Withdraw i)
  then show ?thesis using withdraw_carries_out [OF inv r] by simp
next
  case (Listen inst on)
  then show ?thesis using listen_carries_out [OF inv c r] listen by simp
next
  case Quit
  then show ?thesis using quit_carries_out [OF inv c r refl] by simp
qed

text \<open>A login request carries a token of the line, and only a client without a role gets one.\<close>

lemma request_Login: "request r tk = Login u \<Longrightarrow> u \<in> set tk \<and> r = Unknown"
  by (auto simp: request_def req_login_def for_trader_def req_order_def req_cancel_def req_listen_def
      split: list.splits if_splits Role.splits option.splits)

lemma request_Listen: "request r tk = Listen j on \<Longrightarrow> r \<noteq> Trader"
  by (auto simp: request_def req_login_def for_trader_def req_order_def req_cancel_def req_listen_def
      split: list.splits if_splits Role.splits option.splits)

lemma request_Place: "request r tk = Place side j a b \<Longrightarrow> r = Trader"
  by (auto simp: request_def req_login_def for_trader_def req_order_def req_cancel_def req_listen_def
      split: list.splits if_splits Role.splits option.splits)

lemma handle_line_simulates:
  assumes inv: "sv_inv s" and l: "live f s" and r: "refines s sp" and nowrap: "sb_next (sp_book sp) + 1 \<noteq> 0"
    and spec: "spec_line f line sp = (sp', out)"
  shows "\<exists>F. (F = {} \<or> F = {f}) \<and> carries_out F s (sp', out) (handle_line f line s)"
proof -
  obtain c where c: "sv_conns s f = Some c" "\<not> c_dead c" using l by (auto simp: live_def)
  let ?q = "request (c_role c) (tokens line)"
  have "sp_sess sp f = Some (sess_of c)" using r c by (simp add: refines_def abs_sess_def)
  then have "spec_line f line sp = perform f (sess_of c) ?q sp" by (simp add: spec_line_def sess_of_def)
  moreover have "u \<noteq> [] \<and> c_role c = Unknown" if "?q = Login u" for u
    using request_Login [OF that] tokens_sound by blast
  moreover have "c_role c \<noteq> Trader" if "?q = Listen j on" for j on
    using request_Listen [OF that] .
  moreover have "c_role c = Trader" if "?q = Place side j a b" for side j a b
    using request_Place [OF that] .
  ultimately have "carries_out (if ?q = Quit then {f} else {}) s (sp', out) (handle_line f line s)"
    using serve_refines [OF inv c r nowrap, of ?q] spec handle_line_serve [OF c(1), of line] by simp
  then show ?thesis by (intro exI [of _ "if ?q = Quit then {f} else {}"]) simp
qed

end
