(* ===== verification/Event_Loop.thy ===== *)
theory Event_Loop
  imports Server_IO
begin

text \<open>
  \<open>src/server.cpp\<close>: the event handlers \<open>on_accept\<close>, \<open>on_readable\<close>, \<open>on_writable\<close>, the loop
  \<open>run\<close>, \<open>init\<close> and \<open>main\<close>. The loops end because each turn consumes an answer of the kernel
  or a line of the inbound buffer; the proofs of termination rest on the fact that no handler
  touches inbound bytes, proved first.
\<close>

section \<open>Handlers leave inbound data alone\<close>

text \<open>The unread answers of the kernel and the inbound buffers.\<close>

definition rx :: "Server \<Rightarrow> string sysret list \<times> fd sysret list \<times> (fd \<rightharpoonup> LineBuffer)" where
  "rx s = (ans_recv (sv_os s), ans_accept (sv_os s), \<lambda>f. map_option c_in (sv_conns s f))"

lemma rx_upd [simp]:
  "(\<And>c. c_in (k c) = c_in c) \<Longrightarrow> rx (upd_conn f k s) = rx s"
  "(\<And>w. ans_recv (k' w) = ans_recv w \<and> ans_accept (k' w) = ans_accept w) \<Longrightarrow> rx (upd_os k' s) = rx s"
  "rx (s\<lparr>sv_exch := ex\<rparr>) = rx s" "rx (s\<lparr>sv_usernames := us, sv_owner_fd := m\<rparr>) = rx s"
  by (auto simp: rx_def fun_eq_iff option.map_comp o_def)

lemma rx_close [simp]: "rx (close_conn f s) = rx s"
  by (auto simp: rx_def close_conn_def fun_eq_iff split: option.splits)

lemma flush_loop_ans:
  "flush_loop f ob w = (r, ob', w') \<Longrightarrow> ans_recv w' = ans_recv w \<and> ans_accept w' = ans_accept w"
proof (induction rule: flush_loop_induct)
qed (auto dest!: sys_send_frame simp: os_frame_def)

lemma kq_change_ans [simp]:
  "ans_recv (snd (kq_change k f filt fl w)) = ans_recv w" "ans_accept (snd (kq_change k f filt fl w)) = ans_accept w"
  using kq_change_frame [of w k f filt fl] by (simp_all add: os_frame_def)

lemma rx_try_flush [simp]: "rx (try_flush f s) = rx s"
proof -
  have "rx (s\<lparr>sv_os := w\<rparr>) = rx s" if "flush_loop g ob (sv_os s) = (r, ob', w)" for g ob r ob' w
    using flush_loop_ans [OF that] by (simp add: rx_def)
  then show ?thesis
    by (auto simp: try_flush_def Let_def split: option.splits prod.splits flush_end.splits)
qed

lemma rx_output [simp]:
  "rx (queue_out f m s) = rx s" "rx (notify_owner ow m s) = rx s" "rx (publish_to t f s) = rx s"
proof -
  show 1: "rx (queue_out f m s) = rx s" for f m s
    by (simp add: queue_out_def Let_def split: option.splits)
  show "rx (notify_owner ow m s) = rx s" "rx (publish_to t f s) = rx s"
    by (simp_all add: notify_owner_def publish_to_def 1 split: option.splits)
qed

lemma rx_fold: "(\<And>x s. rx (k x s) = rx s) \<Longrightarrow> rx (fold k xs s) = rx s"
  by (induction xs arbitrary: s) simp_all

lemma rx_publish [simp]: "rx (publish t s) = rx s" "rx (fold publish ts s) = rx s"
  by (simp_all add: publish_def Let_def rx_fold)

lemma rx_handle_line [simp]: "rx (handle_line f line s) = rx s"
  by (auto simp: handle_line_def cmd_login_def cmd_order_def cmd_cancel_def cmd_subscribe_def cmd_quit_def
      with_conn_def Let_def split: option.splits prod.splits sum.splits)

section \<open>Accepting\<close>

text \<open>\<open>emplace\<close> inserts only under a new key; the owner id is used up either way.\<close>

definition accept_conn :: "fd \<Rightarrow> Server \<Rightarrow> Server" where
  "accept_conn cfd s =
     (let s1 = upd_os (\<lambda>w. snd (set_nonblocking cfd w)) s;
          s2 = s1\<lparr>sv_next_owner := sv_next_owner s1 + 1,
                  sv_conns := (case sv_conns s1 cfd of
                      None \<Rightarrow> (sv_conns s1)(cfd \<mapsto> new_conn cfd (sv_next_owner s1))
                    | Some _ \<Rightarrow> sv_conns s1),
                  sv_keys := (case sv_conns s1 cfd of
                      None \<Rightarrow> sv_keys s1 @ [cfd] | Some _ \<Rightarrow> sv_keys s1)\<rparr>
      in upd_os (\<lambda>w. snd (kq_change (sv_kq s) cfd EVFILT_WRITE [EV_ADD, EV_DISABLE] w))
           (upd_os (\<lambda>w. snd (kq_change (sv_kq s) cfd EVFILT_READ [EV_ADD, EV_ENABLE] w)) s2))"

lemma accept_conn_ans [simp]:
  "ans_accept (sv_os (accept_conn cfd s)) = ans_accept (sv_os s)"
  "ans_recv (sv_os (accept_conn cfd s)) = ans_recv (sv_os s)"
proof -
  have "os_frame (sv_os s) (snd (set_nonblocking cfd (sv_os s)))"
    using set_nonblocking_calls [of cfd "sv_os s"] by (metis prod.collapse)
  then show "ans_accept (sv_os (accept_conn cfd s)) = ans_accept (sv_os s)"
    "ans_recv (sv_os (accept_conn cfd s)) = ans_recv (sv_os s)"
    by (simp_all add: accept_conn_def Let_def os_frame_def)
qed

function on_accept :: "Server \<Rightarrow> Server" where
  "on_accept s =
     (case sys_accept (sv_lfd s) (sv_os s) of
        (Ret cfd, w) \<Rightarrow> on_accept (accept_conn cfd (s\<lparr>sv_os := w\<rparr>))
      | (Fail e, w) \<Rightarrow>
          if e = EINTR \<or> e = ECONNABORTED then on_accept (s\<lparr>sv_os := w\<rparr>) else s\<lparr>sv_os := w\<rparr>)"
  by pat_completeness auto
termination
  by (relation "measure (\<lambda>s. length (ans_accept (sv_os s)))")
    (auto simp: sys_accept_def split: list.splits)

declare on_accept.simps [simp del]

section \<open>Reading\<close>

text \<open>
  The loop over the complete lines of the buffer; True says that \<open>on_readable\<close> returns.
  \<open>handle_line\<close> never erases a connection, so the reference stays valid.
\<close>

definition inbox :: "fd \<Rightarrow> Server \<Rightarrow> nat" where
  "inbox f s = (case snd (snd (rx s)) f of None \<Rightarrow> 0 | Some b \<Rightarrow> length (lb_buf b))"

lemma inbox_conn: "sv_conns s f = Some c \<Longrightarrow> inbox f s = length (lb_buf (c_in c))"
  by (simp add: inbox_def rx_def)

lemma inbox_handle_line [simp]: "inbox f (handle_line g line s) = inbox f s"
  by (simp add: inbox_def)

function line_loop :: "fd \<Rightarrow> Server \<Rightarrow> bool \<times> Server" where
  "line_loop f s =
     (case sv_conns s f of
        None \<Rightarrow> (True, s)
      | Some c \<Rightarrow>
          (case next_line [] (c_in c) of (st, line, lb) \<Rightarrow>
             if st = NeedMore then (False, s)
             else if st = TooLong then
               (True, try_flush f (upd_conn f (\<lambda>c. c\<lparr>c_closing := True\<rparr>)
                        (queue_out f (msg_error ''line too long'') s)))
             else (let s1 = handle_line f line (upd_conn f (\<lambda>c. c\<lparr>c_in := lb\<rparr>) s) in
                   case sv_conns s1 f of
                     None \<Rightarrow> (True, s1)
                   | Some c1 \<Rightarrow> if c_dead c1 \<or> c_closing c1 then (True, s1) else line_loop f s1)))"
  by pat_completeness auto
termination
proof (relation "measure (\<lambda>(f, s). inbox f s)", goal_cases)
  case (2 f s c st p line lb s1 c1)
  then have "next_line [] (c_in c) = (Ok, line, lb)" by (cases st) auto
  from next_line_Ok_shorter [OF this] 2 show ?case by (simp add: inbox_conn)
qed simp

declare line_loop.simps [simp del]

lemma line_loop_ans:
  "line_loop f s = (r, s') \<Longrightarrow> fst (rx s') = fst (rx s) \<and> fst (snd (rx s')) = fst (snd (rx s))"
proof (induction f s rule: line_loop.induct)
  case (1 f s)
  have upd: "fst (rx (upd_conn f k s)) = fst (rx s)" "fst (snd (rx (upd_conn f k s))) = fst (snd (rx s))" for k s
    by (simp_all add: rx_def)
  show ?case
    using "1.prems" "1.IH"
    by (subst (asm) line_loop.simps)
      (auto simp: Let_def upd split: option.splits prod.splits if_splits)
qed

text \<open>
  The loop over \<open>recv\<close>: \<open>eof\<close> is the flag \<open>EV_EOF\<close> of the event. A reset and any other error
  are both answered by closing.
\<close>

definition recv_into :: "fd \<Rightarrow> string \<Rightarrow> Server \<Rightarrow> Server" where
  "recv_into f b s = upd_conn f (\<lambda>c. c\<lparr>c_in := lb_append b (c_in c)\<rparr>) s"

function read_loop :: "fd \<Rightarrow> bool \<Rightarrow> Server \<Rightarrow> Server" where
  "read_loop f eof s =
     (case sys_recv f 4096 (sv_os s) of
        (Ret b, w) \<Rightarrow>
          if b \<noteq> [] then
            (case line_loop f (recv_into f b (s\<lparr>sv_os := w\<rparr>)) of
               (True, s1) \<Rightarrow> s1
             | (False, s1) \<Rightarrow> read_loop f eof s1)
          else close_conn f (s\<lparr>sv_os := w\<rparr>)
      | (Fail e, w) \<Rightarrow>
          if e = EINTR then read_loop f eof (s\<lparr>sv_os := w\<rparr>)
          else if e = EAGAIN then (if eof then close_conn f (s\<lparr>sv_os := w\<rparr>) else s\<lparr>sv_os := w\<rparr>)
          else close_conn f (s\<lparr>sv_os := w\<rparr>))"
  by pat_completeness auto
termination
proof (relation "measure (\<lambda>(f, eof, s). length (ans_recv (sv_os s)))", goal_cases)
  case (2 f eof s r w b y s1)
  have "ans_recv (sv_os s1) = ans_recv w"
    using line_loop_ans [of f "recv_into f b (s\<lparr>sv_os := w\<rparr>)" False s1] 2 by (simp add: rx_def recv_into_def)
  with 2 show ?case by (auto simp: sys_recv_def split: list.splits sysret.splits)
next
  case (3 f eof s r w e)
  then show ?case by (auto simp: sys_recv_def split: list.splits sysret.splits)
qed simp

declare read_loop.simps [simp del]

definition on_readable :: "fd \<Rightarrow> bool \<Rightarrow> Server \<Rightarrow> Server" where
  "on_readable f eof s = (case find_live f s of None \<Rightarrow> s | Some _ \<Rightarrow> read_loop f eof s)"

definition on_writable :: "fd \<Rightarrow> Server \<Rightarrow> Server" where
  "on_writable f s = (case find_live f s of None \<Rightarrow> s | Some _ \<Rightarrow> try_flush f s)"

section \<open>The event loop\<close>

record kev =
  ev_ident :: fd
  ev_filt :: ev_filter
  ev_eof :: bool

definition dispatch :: "kev \<Rightarrow> Server \<Rightarrow> Server" where
  "dispatch ev s =
     (if ev_ident ev = sv_lfd s then on_accept s
      else if ev_filt ev = EVFILT_READ then on_readable (ev_ident ev) (ev_eof ev) s
      else if ev_filt ev = EVFILT_WRITE then on_writable (ev_ident ev) s
      else s)"

text \<open>
  One turn of \<open>run\<close>, given what \<open>kevent\<close> answered (at most 64 events): None says the loop is
  left.
\<close>

definition run_turn :: "kev list sysret \<Rightarrow> Server \<Rightarrow> Server option" where
  "run_turn a s =
     (case a of
        Fail e \<Rightarrow> if e = EINTR then Some s else None
      | Ret evs \<Rightarrow> Some (reap (fold dispatch (take 64 evs) s)))"

fun run :: "kev list sysret list \<Rightarrow> Server \<Rightarrow> Server" where
  "run [] s = s"
| "run (a # as) s = (case run_turn a s of None \<Rightarrow> s | Some s' \<Rightarrow> run as s')"

section \<open>Start-up\<close>

definition server_new :: "string \<Rightarrow> 16 word \<Rightarrow> os \<Rightarrow> Server" where
  "server_new ip port w = \<lparr>sv_ip = ip, sv_port = port, sv_lfd = -1, sv_kq = -1, sv_next_owner = 1,
     sv_conns = Map.empty, sv_keys = [], sv_owner_fd = Map.empty, sv_usernames = {}, sv_dead = [], sv_exch = ex_init,
     sv_os = w\<rparr>"

definition init :: "Server \<Rightarrow> bool \<times> Server" where
  "init s =
     (case make_listen_socket (sv_ip s) (sv_port s) (sv_os s) of (lfd, w1) \<Rightarrow>
        (let s1 = s\<lparr>sv_lfd := lfd, sv_os := w1\<rparr> in
         if lfd < 0 then (False, s1)
         else (case sys_int SysKqueue w1 of (r, w2) \<Rightarrow>
                 (let kq = (case r of Ret k \<Rightarrow> k | Fail _ \<Rightarrow> -1);
                      s2 = s1\<lparr>sv_kq := kq, sv_os := w2\<rparr>
                  in if kq < 0 then (False, s2)
                     else (True, upd_os (\<lambda>w. snd (kq_change kq lfd EVFILT_READ [EV_ADD, EV_ENABLE] w)) s2)))))"

text \<open>
  \<open>std::atoi\<close>: leading white space, an optional sign, the digits that follow. A value out of
  the range of \<open>int\<close> is undefined in the language; here it is the value written.
\<close>

definition is_space :: "char \<Rightarrow> bool" where
  "is_space c \<longleftrightarrow> c = SP \<or> (9 \<le> (of_char c :: nat) \<and> (of_char c :: nat) \<le> 13)"

definition atoi :: "string \<Rightarrow> int" where
  "atoi s =
     (case dropWhile is_space s of
        [] \<Rightarrow> 0
      | c # r \<Rightarrow>
          if c = CHR 0x2D then - int (dec_val (takeWhile is_digit r))
          else if c = CHR 0x2B then int (dec_val (takeWhile is_digit r))
          else int (dec_val (takeWhile is_digit (c # r))))"

text \<open>
  \<open>std::atol\<close>, which the tools use: a number beyond the range of \<open>long\<close> is cut off at its limits,
  as the C library of the platform (FreeBSD) does by calling \<open>strtol\<close>.
\<close>

definition atol :: "string \<Rightarrow> int" where
  "atol s = max (- (2 ^ 63)) (min (2 ^ 63 - 1) (atoi s))"

text \<open>
  The loop over the arguments that follow the program's name: \<open>-v\<close> anywhere, then the address,
  then the port.
\<close>

record srv_args =
  sa_verbose :: bool
  sa_ip :: string
  sa_port :: "16 word"
  sa_positional :: nat

definition arg_step :: "string \<Rightarrow> srv_args \<Rightarrow> srv_args" where
  "arg_step a r =
     (if a = ''-v'' then r\<lparr>sa_verbose := True\<rparr>
      else if sa_positional r = 0 then r\<lparr>sa_ip := a, sa_positional := sa_positional r + 1\<rparr>
      else if sa_positional r = 1
        then r\<lparr>sa_port := word_of_int (atoi a), sa_positional := sa_positional r + 1\<rparr>
      else r)"

definition server_args :: "string list \<Rightarrow> srv_args" where
  "server_args argv = fold arg_step argv
     \<lparr>sa_verbose = False, sa_ip = ''127.0.0.1'', sa_port = 5000, sa_positional = 0\<rparr>"

text \<open>\<open>main\<close>, run for as long as \<open>turns\<close> gives answers of \<open>kevent\<close>: the exit code and the state.\<close>

definition server_main :: "string list \<Rightarrow> kev list sysret list \<Rightarrow> os \<Rightarrow> int \<times> Server" where
  "server_main argv turns w =
     (let a = server_args argv in
      case init (server_new (sa_ip a) (sa_port a) w) of
        (False, s) \<Rightarrow> (1, s)
      | (True, s) \<Rightarrow> (0, run turns s))"

end
