(* ===== verification/Server_Reach.thy ===== *)
theory Server_Reach
  imports Session_Spec Event_Loop
begin

text \<open>
  Reachable states of the server. The invariant of the handlers is extended by what the event
  loop adds: between events no connection that still listens has a complete or an overlong
  line in its buffer, and accepted descriptors are new. Every event handler keeps it; the
  theorems that close the theory hold in every state the server can reach, whatever the
  kernel answers.
\<close>

section \<open>The invariant between events\<close>

definition in_ok :: "Conn \<Rightarrow> bool" where
  "in_ok c \<longleftrightarrow> (\<not> c_dead c \<and> \<not> c_closing c \<longrightarrow> NL \<notin> set (lb_buf (c_in c)) \<and> length (lb_buf (c_in c)) \<le> kMaxLine)"

definition ins_ok :: "fd set \<Rightarrow> Server \<Rightarrow> bool" where
  "ins_ok F s \<longleftrightarrow> (\<forall>f c. f \<notin> F \<longrightarrow> sv_conns s f = Some c \<longrightarrow> in_ok c)"

fun accepts :: "fd sysret list \<Rightarrow> fd list" where
  "accepts [] = []"
| "accepts (Ret f # as) = f # accepts as"
| "accepts (Fail e # as) = accepts as"

text \<open>
  What the code relies on of \<open>accept\<close>: it answers with a descriptor that is not open, hence
  neither the listening socket nor one of a connection, dead ones included, that has not been
  closed yet.
\<close>

definition fresh_ok :: "Server \<Rightarrow> bool" where
  "fresh_ok s \<longleftrightarrow> (let fs = accepts (ans_accept (sv_os s)) in
     distinct fs \<and> set fs \<inter> dom (sv_conns s) = {} \<and> sv_lfd s \<notin> set fs) \<and> sv_lfd s \<notin> dom (sv_conns s)"

definition srv_ok :: "Server \<Rightarrow> bool" where
  "srv_ok s \<longleftrightarrow> sv_inv s \<and> ins_ok {} s \<and> fresh_ok s"

text \<open>How a connection evolves until it is reaped.\<close>

definition conn_evo :: "Conn \<Rightarrow> Conn \<Rightarrow> bool" where
  "conn_evo c c' \<longleftrightarrow> c_fd c' = c_fd c \<and> c_owner_id c' = c_owner_id c
     \<and> (c_dead c \<longrightarrow> c_dead c') \<and> (c_closing c \<longrightarrow> c_closing c')
     \<and> (c_role c \<noteq> Unknown \<longrightarrow> c_role c' = c_role c \<and> c_username c' = c_username c)"

definition sframe :: "Server \<Rightarrow> Server \<Rightarrow> bool" where
  "sframe s s' \<longleftrightarrow> sv_lfd s' = sv_lfd s \<and> sv_kq s' = sv_kq s \<and> sv_next_owner s' = sv_next_owner s
     \<and> ans_accept (sv_os s') = ans_accept (sv_os s) \<and> keeps_open (sv_os s) (sv_os s')
     \<and> (\<forall>g. rel_option conn_evo (sv_conns s g) (sv_conns s' g))"

definition eframe :: "Server \<Rightarrow> Server \<Rightarrow> bool" where
  "eframe s s' \<longleftrightarrow> sv_lfd s' = sv_lfd s \<and> sv_kq s' = sv_kq s \<and> sv_next_owner s \<le> sv_next_owner s'
     \<and> keeps_open (sv_os s) (sv_os s')
     \<and> (\<forall>g. case sv_conns s g of
          Some c \<Rightarrow> (\<exists>c'. sv_conns s' g = Some c' \<and> conn_evo c c')
        | None \<Rightarrow> (\<forall>c'. sv_conns s' g = Some c' \<longrightarrow> sv_next_owner s \<le> c_owner_id c'))"

lemma conn_evo_refl [simp]: "conn_evo c c"
  by (simp add: conn_evo_def)

lemma conn_evo_trans: "conn_evo a b \<Longrightarrow> conn_evo b c \<Longrightarrow> conn_evo a c"
  by (auto simp: conn_evo_def)

lemma sframe_refl [simp]: "sframe s s"
  by (auto simp: sframe_def intro: option.rel_refl)

lemma sframe_trans:
  assumes "sframe a b" and "sframe b c"
  shows "sframe a c"
proof -
  have "rel_option conn_evo (sv_conns a g) (sv_conns c g)" for g
  proof -
    have "rel_option conn_evo (sv_conns a g) (sv_conns b g)" "rel_option conn_evo (sv_conns b g) (sv_conns c g)"
      using assms by (simp_all add: sframe_def)
    then show ?thesis
      by (cases "sv_conns a g"; cases "sv_conns b g"; cases "sv_conns c g") (auto intro: conn_evo_trans)
  qed
  with assms show ?thesis by (auto simp: sframe_def intro: keeps_open_trans)
qed

lemma sframe_conn:
  assumes "sframe s s'" and "sv_conns s g = Some c"
  obtains c' where "sv_conns s' g = Some c'" "conn_evo c c'"
proof -
  have "rel_option conn_evo (sv_conns s g) (sv_conns s' g)" using assms(1) by (simp add: sframe_def)
  with assms(2) that show ?thesis by (cases "sv_conns s' g") auto
qed

lemma sframe_none: "sframe s s' \<Longrightarrow> sv_conns s' g = None \<longleftrightarrow> sv_conns s g = None"
  by (cases "sv_conns s g"; cases "sv_conns s' g")
    (auto simp: sframe_def, (metis option.rel_distinct(1)), (metis option.rel_distinct(2)))

lemma sframe_dom: "sframe s s' \<Longrightarrow> dom (sv_conns s') = dom (sv_conns s)"
  using sframe_none by (auto simp: dom_def)

lemma sframe_fresh: "sframe s s' \<Longrightarrow> fresh_ok s' = fresh_ok s"
  using sframe_dom [of s s'] by (simp add: fresh_ok_def sframe_def)

lemma sframe_eframe:
  assumes "sframe s s'"
  shows "eframe s s'"
proof -
  have "case sv_conns s g of Some c \<Rightarrow> (\<exists>c'. sv_conns s' g = Some c' \<and> conn_evo c c')
      | None \<Rightarrow> (\<forall>c'. sv_conns s' g = Some c' \<longrightarrow> sv_next_owner s \<le> c_owner_id c')" for g
    using sframe_none [OF assms, of g] by (auto split: option.splits elim: sframe_conn [OF assms])
  with assms show ?thesis by (simp add: sframe_def eframe_def)
qed

lemma eframe_refl [simp]: "eframe s s"
  by (auto simp: eframe_def split: option.splits)

lemma eframe_conn:
  assumes "eframe s s'" and "sv_conns s g = Some c"
  obtains c' where "sv_conns s' g = Some c'" "conn_evo c c'"
proof -
  have "case sv_conns s g of Some c \<Rightarrow> (\<exists>c'. sv_conns s' g = Some c' \<and> conn_evo c c')
      | None \<Rightarrow> (\<forall>c'. sv_conns s' g = Some c' \<longrightarrow> sv_next_owner s \<le> c_owner_id c')"
    using assms(1) by (simp add: eframe_def)
  with assms(2) that show ?thesis by auto
qed

lemma eframe_new:
  assumes "eframe s s'" and "sv_conns s g = None" and "sv_conns s' g = Some c'"
  shows "sv_next_owner s \<le> c_owner_id c'"
proof -
  have "case sv_conns s g of Some c \<Rightarrow> (\<exists>c'. sv_conns s' g = Some c' \<and> conn_evo c c')
      | None \<Rightarrow> (\<forall>c'. sv_conns s' g = Some c' \<longrightarrow> sv_next_owner s \<le> c_owner_id c')"
    using assms(1) by (simp add: eframe_def)
  with assms(2,3) show ?thesis by simp
qed

lemma eframe_trans:
  assumes ab: "eframe a b" and bc: "eframe b c"
  shows "eframe a c"
proof -
  have le: "sv_next_owner a \<le> sv_next_owner b" using ab by (simp add: eframe_def)
  have "case sv_conns a g of Some x \<Rightarrow> (\<exists>x'. sv_conns c g = Some x' \<and> conn_evo x x')
      | None \<Rightarrow> (\<forall>x'. sv_conns c g = Some x' \<longrightarrow> sv_next_owner a \<le> c_owner_id x')" for g
  proof (cases "sv_conns a g")
    case None
    show ?thesis
    proof (cases "sv_conns b g")
      case None' : None
      with None le eframe_new [OF bc None'] show ?thesis by fastforce
    next
      case (Some y)
      obtain z where z: "sv_conns c g = Some z" "conn_evo y z" by (rule eframe_conn [OF bc Some])
      with eframe_new [OF ab None Some] None show ?thesis by (simp add: conn_evo_def)
    qed
  next
    case (Some x)
    obtain y where y: "sv_conns b g = Some y" "conn_evo x y" by (rule eframe_conn [OF ab Some])
    obtain z where "sv_conns c g = Some z" "conn_evo y z" by (rule eframe_conn [OF bc y(1)])
    with Some y(2) show ?thesis by (auto intro: conn_evo_trans)
  qed
  with ab bc show ?thesis by (auto simp: eframe_def intro: keeps_open_trans)
qed

lemma hframe_sframe: "hframe f s s' \<Longrightarrow> sframe s s'"
  unfolding hframe_def sframe_def os_frame_def conn_le_def conn_evo_def
  by (auto elim!: option.rel_mono_strong)

section \<open>Steps inside an event\<close>

lemma inv_os: "sv_inv (s\<lparr>sv_os := w\<rparr>) = sv_inv s"
  by (simp add: inv_except_def ids_ok_def view_def conns_ok_def flows_ok_def orders_owned_def)

lemma in_upd_ok:
  assumes "sv_inv s"
  shows "sv_inv (upd_conn f (\<lambda>c. c\<lparr>c_in := k c\<rparr>) s) \<and> sframe s (upd_conn f (\<lambda>c. c\<lparr>c_in := k c\<rparr>) s)"
proof -
  let ?s' = "upd_conn f (\<lambda>c. c\<lparr>c_in := k c\<rparr>) s"
  have "view ?s' = view s"
    by (cases "sv_conns s f") (auto simp: view_def fun_eq_iff ident_def)
  then have "ids_ok ?s'" "orders_owned ?s'" using assms by (simp_all add: inv_except_def ids_ok_def orders_owned_def)
  moreover have "conns_ok ?s'" "flows_ok {} ?s'"
    using assms by (auto simp: inv_except_def conns_ok_def flows_ok_def flow_ok_def orders_owned_def)
  moreover have "sframe s ?s'"
    by (auto simp: sframe_def conn_evo_def option.rel_map intro: option.rel_refl)
  ultimately show ?thesis by (simp add: inv_except_def)
qed

lemma close_conn_ok:
  assumes "sv_inv s"
  shows "sv_inv (close_conn f s) \<and> hframe f s (close_conn f s)"
proof (cases "live f s")
  case True
  then obtain c where c: "sv_conns s f = Some c" "\<not> c_dead c" by (auto simp: live_def)
  with inv_connD [OF assms c(1)] have io: "io1 f [] s (close_conn f s)" by (intro close_conn_io) auto
  from io1_inv [OF io inv_except_weaken [OF assms]] io1_frame [OF io] show ?thesis by blast
next
  case False
  then have "close_conn f s = s" by (auto simp: close_conn_def live_def split: option.splits)
  with assms show ?thesis by simp
qed

text \<open>Handlers never disturb the inbound side of any connection.\<close>

lemma ins_hframe:
  assumes "ins_ok F s" and "hframe f s s'"
  shows "ins_ok F s'"
  unfolding ins_ok_def
proof (intro allI impI)
  fix g c'
  assume g: "g \<notin> F" "sv_conns s' g = Some c'"
  obtain c where c: "sv_conns s g = Some c" "conn_le (g = f) c c'" by (rule hframe_conn [OF assms(2) g(2)])
  from c(1) g(1) assms(1) have "in_ok c" by (simp add: ins_ok_def)
  with c(2) show "in_ok c'" by (auto simp: in_ok_def conn_le_def)
qed

lemma ins_upd: "ins_ok {f} s \<Longrightarrow> ins_ok {f} (upd_conn f k s)"
  by (auto simp: ins_ok_def)

lemma ins_ok_all: "ins_ok {f} s \<Longrightarrow> (\<And>c. sv_conns s f = Some c \<Longrightarrow> in_ok c) \<Longrightarrow> ins_ok {} s"
  unfolding ins_ok_def by (metis insertE)

text \<open>The overlong line: report it, then close once the report is flushed.\<close>

lemma too_long_ok:
  fixes m
  assumes inv: "sv_inv s" and ins: "ins_ok {f} s"
  defines "s' \<equiv> try_flush f (upd_conn f (\<lambda>c. c\<lparr>c_closing := True\<rparr>) (queue_out f m s))"
  shows "sv_inv s' \<and> ins_ok {} s' \<and> sframe s s'"
proof -
  define s1 where "s1 = queue_out f m s"
  have 1: "sv_inv s1" "hframe f s s1" using queue_out_ok [OF inv] by (simp_all add: s1_def)
  show ?thesis
  proof (cases "live f s1")
    case True
    then obtain c where c: "sv_conns s1 f = Some c" "\<not> c_dead c" by (auto simp: live_def)
    have "s' = cmd_quit f s1" by (simp add: s'_def s1_def cmd_quit_def)
    with cmd_quit_ok [OF 1(1) True] have 2: "sv_inv s'" "hframe f s1 s'" by simp_all
    have "hframe f (upd_conn f (\<lambda>c. c\<lparr>c_closing := True\<rparr>) s1) s'"
    proof -
      let ?s2 = "upd_conn f (\<lambda>c. c\<lparr>c_closing := True\<rparr>) s1"
      have "inv_except {f} ?s2" using closing_state [OF 1(1) c] by simp
      moreover have "ob_pending (c_out c) \<le> kMaxOutBytes"
        using 1(1) c by (auto simp: inv_except_def flows_ok_def flow_ok_def)
      ultimately have "hframe f ?s2 (try_flush f ?s2)"
        using try_flush_ok [of f ?s2 "c\<lparr>c_closing := True\<rparr>" f] c by simp
      then show ?thesis by (simp add: s'_def s1_def)
    qed
    then have "c_closing x" if "sv_conns s' f = Some x" for x
      using that c by (auto elim!: hframe_conn simp: conn_le_def)
    then have "ins_ok {} s'"
      using ins_hframe [OF ins_hframe [OF ins 1(2)] 2(2)] by (auto intro: ins_ok_all simp: in_ok_def)
    with 2 1(2) show ?thesis by (auto intro: hframe_sframe hframe_trans)
  next
    case False
    let ?s2 = "upd_conn f (\<lambda>c. c\<lparr>c_closing := True\<rparr>) s1"
    have "s' = ?s2" using False
      by (cases "sv_conns s1 f") (auto simp: live_def s'_def s1_def [symmetric] output_noop)
    moreover have "view ?s2 = view s1" by (cases "sv_conns s1 f") (auto simp: view_def fun_eq_iff ident_def)
    then have "sv_inv ?s2"
      using False 1(1)
      by (auto simp: inv_except_def ids_ok_def conns_ok_def flows_ok_def flow_ok_def orders_owned_def live_def)
    moreover have "ins_ok {} ?s2"
      using ins_hframe [OF ins 1(2)] by (auto simp: ins_ok_def in_ok_def)
    moreover have "sframe s1 ?s2"
      by (auto simp: sframe_def conn_evo_def option.rel_map intro: option.rel_refl)
    ultimately show ?thesis using hframe_sframe [OF 1(2)] by (auto intro: sframe_trans)
  qed
qed

lemma line_loop_ok:
  assumes "line_loop f s = (r, s')" and "sv_inv s" and "live f s" and "ins_ok {f} s"
  shows "sv_inv s' \<and> ins_ok {} s' \<and> sframe s s' \<and> (\<not> r \<longrightarrow> live f s')"
  using assms
proof (induction f s rule: line_loop.induct)
  case (1 f s)
  obtain c where c: "sv_conns s f = Some c" "\<not> c_dead c" using "1.prems"(3) by (auto simp: live_def)
  obtain st line lb where nl: "next_line [] (c_in c) = (st, line, lb)" by (metis prod_cases3)
  show ?case
  proof (cases st)
    case NeedMore
    with nl next_line_not_Ok [OF nl] have "in_ok c" by (auto simp: in_ok_def)
    with c "1.prems" NeedMore nl show ?thesis
      by (subst (asm) line_loop.simps) (auto intro: ins_ok_all)
  next
    case TooLong
    with c nl "1.prems"(1) have r: "r" and "s' = try_flush f (upd_conn f (\<lambda>c. c\<lparr>c_closing := True\<rparr>)
        (queue_out f (msg_error ''line too long'') s))"
      by (subst (asm) line_loop.simps, simp)+
    with too_long_ok [OF "1.prems"(2,4)] show ?thesis by simp
  next
    case Ok
    let ?s0 = "upd_conn f (\<lambda>c. c\<lparr>c_in := lb\<rparr>) s"
    define s1 where "s1 = handle_line f line ?s0"
    have 0: "sv_inv ?s0" "sframe s ?s0" "live f ?s0" "ins_ok {f} ?s0"
      using in_upd_ok [OF "1.prems"(2), of f "\<lambda>_. lb"] c ins_upd [OF "1.prems"(4)] by (simp_all add: live_def)
    have h: "sv_inv s1" "hframe f ?s0 s1" using hl.keeps [OF 0(1,3)] by (simp_all add: s1_def)
    have 1: "sframe s s1" "ins_ok {f} s1"
      using sframe_trans [OF 0(2) hframe_sframe [OF h(2)]] ins_hframe [OF 0(4) h(2)] by simp_all
    obtain c1 where c1: "sv_conns s1 f = Some c1"
      by (rule hl.conn_after [OF 0(1,3)]) (auto simp: s1_def c)
    have eq: "line_loop f s = (if c_dead c1 \<or> c_closing c1 then (True, s1) else line_loop f s1)"
      using c nl Ok c1 by (subst line_loop.simps) (simp add: s1_def)
    show ?thesis
    proof (cases "c_dead c1 \<or> c_closing c1")
      case True
      then have "in_ok c1" by (auto simp: in_ok_def)
      with True eq "1.prems"(1) h(1) 1 c1 show ?thesis by (auto intro: ins_ok_all)
    next
      case False
      with eq "1.prems"(1) have "line_loop f s1 = (r, s')" by simp
      moreover have "live f s1" using False c1 by (simp add: live_def)
      ultimately have "sv_inv s' \<and> ins_ok {} s' \<and> sframe s1 s' \<and> (\<not> r \<longrightarrow> live f s')"
        using "1.IH" [OF c(1) nl [symmetric] refl _ _ s1_def c1 False] Ok h(1) 1(2) by simp
      with 1(1) show ?thesis by (auto intro: sframe_trans)
    qed
  qed
qed

lemma ins_os: "ins_ok F (s\<lparr>sv_os := w\<rparr>) = ins_ok F s" "live f (s\<lparr>sv_os := w\<rparr>) = live f s"
  by (simp_all add: ins_ok_def live_def)

lemma sframe_os: "ans_accept w = ans_accept (sv_os s) \<Longrightarrow> keeps_open (sv_os s) w \<Longrightarrow> sframe s (s\<lparr>sv_os := w\<rparr>)"
  by (auto simp: sframe_def intro: option.rel_refl)

lemma ins_weaken: "ins_ok {} s \<Longrightarrow> ins_ok F s"
  by (simp add: ins_ok_def)

lemma close_step:
  assumes "sv_inv s" and "ins_ok {} s" and "ans_accept w = ans_accept (sv_os s)" and "keeps_open (sv_os s) w"
  shows "sv_inv (close_conn f (s\<lparr>sv_os := w\<rparr>)) \<and> ins_ok {} (close_conn f (s\<lparr>sv_os := w\<rparr>))
    \<and> sframe s (close_conn f (s\<lparr>sv_os := w\<rparr>))"
proof -
  have "sv_inv (s\<lparr>sv_os := w\<rparr>)" using assms(1) by (simp add: inv_os)
  from close_conn_ok [OF this] assms(2) show ?thesis
    using sframe_trans [OF sframe_os [OF assms(3,4)]] hframe_sframe ins_hframe [of "{}" "s\<lparr>sv_os := w\<rparr>"]
    by (simp add: ins_os) blast
qed

lemma sys_recv_accept: "sys_recv f n w = (r, w') \<Longrightarrow> ans_accept w' = ans_accept w" "sys_recv f n w = (r, w') \<Longrightarrow> keeps_open w w'"
  by (auto simp: sys_recv_def split: list.splits sysret.splits)

lemma read_loop_ok:
  assumes "sv_inv s" and "live f s" and "ins_ok {} s"
  shows "sv_inv (read_loop f eof s) \<and> ins_ok {} (read_loop f eof s) \<and> sframe s (read_loop f eof s)"
  using assms
proof (induction f eof s rule: read_loop.induct)
  case (1 f eof s)
  obtain a w where a: "sys_recv f 4096 (sv_os s) = (a, w)" by (metis prod.exhaust)
  note acc = sys_recv_accept [OF a]
  note cl = close_step [OF "1.prems"(1,3) acc, of f]
  let ?s0 = "s\<lparr>sv_os := w\<rparr>"
  have s0: "sv_inv ?s0" "live f ?s0" "ins_ok {} ?s0" "sframe s ?s0"
    using "1.prems" sframe_os [OF acc] by (simp_all add: inv_os ins_os)
  show ?case
  proof (cases a)
    case (Ret b)
    show ?thesis
    proof (cases "b = []")
      case True
      with Ret a cl show ?thesis by (simp add: read_loop.simps [of f eof s])
    next
      case False
      let ?s1 = "recv_into f b ?s0"
      obtain r s2 where l: "line_loop f ?s1 = (r, s2)" by (metis prod.exhaust)
      have s1: "sv_inv ?s1" "sframe ?s0 ?s1" "live f ?s1" "ins_ok {f} ?s1"
        using in_upd_ok [OF s0(1)] s0(2) ins_upd [OF ins_weaken [OF s0(3)]]
        by (auto simp: recv_into_def live_def)
      from line_loop_ok [OF l s1(1,3,4)] have s2: "sv_inv s2" "ins_ok {} s2" "sframe s s2" "\<not> r \<Longrightarrow> live f s2"
        using sframe_trans [OF s0(4) sframe_trans [OF s1(2)]] by auto
      show ?thesis
      proof (cases r)
        case True
        with Ret a False l s2 show ?thesis by (simp add: read_loop.simps [of f eof s])
      next
        case nr: False
        with "1.IH"(1) [OF a [symmetric] Ret False l [symmetric]] s2
        have "sv_inv (read_loop f eof s2) \<and> ins_ok {} (read_loop f eof s2) \<and> sframe s2 (read_loop f eof s2)"
          by simp
        with Ret a False l nr s2(3) show ?thesis
          by (auto simp: read_loop.simps [of f eof s] intro: sframe_trans)
      qed
    qed
  next
    case (Fail e)
    from "1.IH"(2) [OF a [symmetric] Fail] s0 have
      "e = EINTR \<Longrightarrow> sv_inv (read_loop f eof ?s0) \<and> ins_ok {} (read_loop f eof ?s0) \<and> sframe s (read_loop f eof ?s0)"
      by (auto intro: sframe_trans)
    with Fail a cl s0 show ?thesis by (auto simp: read_loop.simps [of f eof s])
  qed
qed

text \<open>The frame of an event that accepts nothing gives the invariant between events.\<close>

lemma srv_ok_sframe:
  "srv_ok s \<Longrightarrow> sv_inv s' \<and> ins_ok {} s' \<and> sframe s s' \<Longrightarrow> srv_ok s' \<and> eframe s s'"
  by (auto simp: srv_ok_def sframe_fresh sframe_eframe)

lemma on_readable_ok:
  assumes "srv_ok s"
  shows "srv_ok (on_readable f eof s) \<and> eframe s (on_readable f eof s)"
proof (cases "live f s")
  case True
  then have "on_readable f eof s = read_loop f eof s"
    by (auto simp: on_readable_def find_live_def live_def)
  with srv_ok_sframe [OF assms read_loop_ok] True assms show ?thesis by (simp add: srv_ok_def)
next
  case False
  then have "on_readable f eof s = s"
    by (auto simp: on_readable_def find_live_def live_def split: option.splits)
  with assms show ?thesis by simp
qed

lemma on_writable_ok:
  assumes "srv_ok s"
  shows "srv_ok (on_writable f s) \<and> eframe s (on_writable f s)"
proof (cases "live f s")
  case True
  then obtain c where c: "sv_conns s f = Some c" "\<not> c_dead c" by (auto simp: live_def)
  have inv: "sv_inv s" "ins_ok {} s" using assms by (simp_all add: srv_ok_def)
  then have "ob_pending (c_out c) \<le> kMaxOutBytes"
    using c by (auto simp: inv_except_def flows_ok_def flow_ok_def)
  with try_flush_ok [OF inv_except_weaken [OF inv(1)] c(1), of f] c(2)
  have t: "sv_inv (try_flush f s)" "hframe f s (try_flush f s)" by simp_all
  have "on_writable f s = try_flush f s" using c by (simp add: on_writable_def find_live_def)
  with srv_ok_sframe [OF assms] t ins_hframe [OF inv(2) t(2)] hframe_sframe [OF t(2)] show ?thesis by simp
next
  case False
  then have "on_writable f s = s"
    by (auto simp: on_writable_def find_live_def live_def split: option.splits)
  with assms show ?thesis by simp
qed

section \<open>Accepting and reaping\<close>

lemma ids_accept:
  assumes v: "v f = None" and wf: "ids_wf v n ks"
  shows "ids_wf (v(f \<mapsto> (n, Unknown, [], False))) (n + 1) (ks @ [f])"
    and "ids_inj v \<Longrightarrow> ids_inj (v(f \<mapsto> (n, Unknown, [], False)))"
    and "owners_ok v m \<Longrightarrow> owners_ok (v(f \<mapsto> (n, Unknown, [], False))) m"
    and "names_ok v us \<Longrightarrow> names_ok (v(f \<mapsto> (n, Unknown, [], False))) us"
    and "dead_ok v ds \<Longrightarrow> dead_ok (v(f \<mapsto> (n, Unknown, [], False))) ds"
proof -
  let ?v = "v(f \<mapsto> (n, Unknown, [], False))"
  have lt: "1 \<le> ow \<and> ow < n" if "v g = Some (ow, x)" for g ow x
    using wf that unfolding ids_wf_def by (metis prod_cases3)
  show "ids_wf ?v (n + 1) (ks @ [f])" using wf lt v by (fastforce simp: ids_wf_def)
  show "ids_inj ?v" if "ids_inj v"
    unfolding ids_inj_def
  proof (intro allI impI)
    fix g h x y
    assume a: "?v g = Some x" "?v h = Some y" "fst x = fst y"
    have "g = h" if "g \<noteq> f" "h \<noteq> f"
      using a that \<open>ids_inj v\<close> unfolding ids_inj_def by (metis fun_upd_apply)
    with a lt [of g "fst x" "snd x"] lt [of h "fst y" "snd y"] show "g = h"
      by (cases "g = f"; cases "h = f") auto
  qed
  have tr: "?v g = Some (a, Trader, y, False) \<longleftrightarrow> v g = Some (a, Trader, y, False)" for g a y
    using v by auto
  then show "owners_ok v m \<Longrightarrow> owners_ok ?v m" "names_ok v us \<Longrightarrow> names_ok ?v us"
    by (simp_all only: owners_ok_def names_ok_def simp_thms) (erule conjunct2)
  show "dead_ok v ds \<Longrightarrow> dead_ok ?v ds" using v by (auto simp: dead_ok_def)
qed

lemma accept_conn_state:
  assumes "sv_conns s cfd = None"
  shows "sv_conns (accept_conn cfd s) = (sv_conns s)(cfd \<mapsto> new_conn cfd (sv_next_owner s))"
    "sv_next_owner (accept_conn cfd s) = sv_next_owner s + 1" "sv_keys (accept_conn cfd s) = sv_keys s @ [cfd]" "sv_lfd (accept_conn cfd s) = sv_lfd s"
    "sv_kq (accept_conn cfd s) = sv_kq s" "sv_owner_fd (accept_conn cfd s) = sv_owner_fd s"
    "sv_usernames (accept_conn cfd s) = sv_usernames s" "sv_dead (accept_conn cfd s) = sv_dead s"
    "sv_exch (accept_conn cfd s) = sv_exch s"
  using assms by (simp_all add: accept_conn_def Let_def)

lemma accept_conn_opens: "keeps_open (sv_os s) (sv_os (accept_conn cfd s))"
proof -
  have "keeps_open w (snd (set_nonblocking cfd w))" for w
    using set_nonblocking_calls [of cfd w] by (metis os_frame_def prod.collapse)
  moreover have "keeps_open w (snd (kq_change kq f filt fl w))" for w kq f filt fl
    using kq_change_frame [of w kq f filt fl] by (simp add: os_frame_def)
  ultimately show ?thesis by (simp add: accept_conn_def Let_def) (meson keeps_open_trans)
qed

lemma accept_conn_ok:
  assumes inv: "sv_inv s" and ins: "ins_ok {} s" and new: "sv_conns s cfd = None"
  shows "sv_inv (accept_conn cfd s) \<and> ins_ok {} (accept_conn cfd s) \<and> eframe s (accept_conn cfd s)"
proof -
  let ?s' = "accept_conn cfd s" and ?c = "new_conn cfd (sv_next_owner s)"
  note st = accept_conn_state [OF new]
  have vn: "view s cfd = None" using new by (simp add: view_def)
  have v': "view ?s' = (view s)(cfd \<mapsto> (sv_next_owner s, Unknown, [], False))"
    using view_upd [OF st(1)] by (simp add: ident_def new_conn_def)
  have ids: "ids_wf (view s) (sv_next_owner s) (sv_keys s)" "ids_inj (view s)" "owners_ok (view s) (sv_owner_fd s)"
    "names_ok (view s) (sv_usernames s)" "dead_ok (view s) (sv_dead s)"
    using inv by (auto simp: inv_except_def ids_ok_def)
  have "ids_ok ?s'"
    unfolding ids_ok_def v' st(2,3,6-8) using ids_accept [OF vn ids(1)] ids(2-) by simp
  moreover have "flow_ok ?c" "ob_inv (c_out ?c)"
    by (simp_all add: new_conn_def flow_ok_def ob_init_def ob_empty_def ob_pending_def ob_len_def ob_inv_def)
  then have "conns_ok ?s'" "flows_ok {} ?s'"
    using inv by (auto simp: inv_except_def conns_ok_def flows_ok_def st(1)) (simp_all add: new_conn_def)
  moreover have "orders_owned ?s'"
    unfolding orders_owned_def v' st(2) using inv owned_accept [of "view s"] by (simp add: inv_except_def orders_owned_def st)
  moreover have "ins_ok {} ?s'"
    using ins by (auto simp: ins_ok_def st(1) in_ok_def) (simp_all add: new_conn_def lb_init_def)
  moreover have "eframe s ?s'"
    using new accept_conn_opens by (auto simp: eframe_def st new_conn_def split: option.splits)
  ultimately show ?thesis by (simp add: inv_except_def)
qed

text \<open>One turn of the accept loop: a new connection, or none.\<close>

lemma accept_turn:
  assumes ok: "srv_ok s" and a: "sys_accept (sv_lfd s) (sv_os s) = (Ret cfd, w)"
  shows "sv_conns s cfd = None" and "srv_ok (accept_conn cfd (s\<lparr>sv_os := w\<rparr>))" and "eframe s (accept_conn cfd (s\<lparr>sv_os := w\<rparr>))"
proof -
  let ?s0 = "s\<lparr>sv_os := w\<rparr>"
  have q: "ans_accept (sv_os s) = Ret cfd # ans_accept w" "keeps_open (sv_os s) w"
    using a by (auto simp: sys_accept_def split: list.splits)
  then show new: "sv_conns s cfd = None" using ok by (auto simp: srv_ok_def fresh_ok_def dom_def)
  have inv: "sv_inv ?s0" "ins_ok {} ?s0" "eframe s ?s0"
    using ok q(2) by (auto simp: srv_ok_def inv_os ins_os eframe_def split: option.splits)
  have new0: "sv_conns ?s0 cfd = None" using new by simp
  note ac = accept_conn_ok [OF inv(1,2) new0]
  have "fresh_ok (accept_conn cfd ?s0)"
    using ok new by (auto simp: srv_ok_def fresh_ok_def q accept_conn_state [OF new0] Let_def)
  with ac show "srv_ok (accept_conn cfd ?s0)" by (simp add: srv_ok_def)
  from ac inv(3) show "eframe s (accept_conn cfd ?s0)" by (auto intro: eframe_trans)
qed

lemma accept_none:
  assumes ok: "srv_ok s" and a: "sys_accept (sv_lfd s) (sv_os s) = (Fail e, w)"
  shows "srv_ok (s\<lparr>sv_os := w\<rparr>) \<and> eframe s (s\<lparr>sv_os := w\<rparr>)"
proof -
  have "accepts (ans_accept (sv_os s)) = accepts (ans_accept w)" "keeps_open (sv_os s) w"
    using a by (auto simp: sys_accept_def split: list.splits)
  with ok show ?thesis by (auto simp: srv_ok_def fresh_ok_def inv_os ins_os eframe_def split: option.splits)
qed

lemma on_accept_ok:
  assumes "srv_ok s"
  shows "srv_ok (on_accept s) \<and> eframe s (on_accept s)"
  using assms
proof (induction s rule: on_accept.induct)
  case (1 s)
  obtain a w where a: "sys_accept (sv_lfd s) (sv_os s) = (a, w)" by (metis prod.exhaust)
  show ?case
  proof (cases a)
    case (Ret cfd)
    with accept_turn [OF "1.prems"] "1.IH"(1) [OF a [symmetric] Ret] a show ?thesis
      by (auto simp: on_accept.simps [of s] intro: eframe_trans)
  next
    case (Fail e)
    with accept_none [OF "1.prems"] "1.IH"(2) [OF a [symmetric] Fail] a show ?thesis
      by (auto simp: on_accept.simps [of s] intro: eframe_trans)
  qed
qed

lemma dispatch_ok: "srv_ok s \<Longrightarrow> srv_ok (dispatch ev s) \<and> eframe s (dispatch ev s)"
  by (simp add: dispatch_def on_accept_ok on_readable_ok on_writable_ok)

text \<open>Reaping erases exactly the dead connections and closes their descriptors, in order.\<close>

lemma reap_fold:
  "fold (\<lambda>f s. s\<lparr>sv_conns := (sv_conns s)(f := None), sv_keys := removeAll f (sv_keys s),
      sv_os := log_call (SysClose f) (sv_os s)\<rparr>) ds s
   = s\<lparr>sv_conns := (\<lambda>g. if g \<in> set ds then None else sv_conns s g),
       sv_keys := filter (\<lambda>g. g \<notin> set ds) (sv_keys s),
       sv_os := (sv_os s)\<lparr>calls := calls (sv_os s) @ map SysClose ds\<rparr>\<rparr>"
proof (induction ds arbitrary: s)
  case Nil
  then show ?case by simp
next
  case (Cons d ds)
  let ?s1 = "s\<lparr>sv_conns := (sv_conns s)(d := None), sv_keys := removeAll d (sv_keys s),
    sv_os := log_call (SysClose d) (sv_os s)\<rparr>"
  have "(\<lambda>g. if g \<in> set ds then None else sv_conns ?s1 g)
      = (\<lambda>g. if g \<in> set (d # ds) then None else sv_conns s g)" by auto
  moreover have "filter (\<lambda>g. g \<notin> set ds) (removeAll d (sv_keys s)) = filter (\<lambda>g. g \<notin> set (d # ds)) (sv_keys s)"
    by (auto simp: removeAll_filter_not_eq intro: filter_cong)
  ultimately show ?case by (simp only: fold.simps o_apply Cons.IH) (simp add: log_call_def)
qed

lemma reap_eq:
  "reap s = s\<lparr>sv_conns := (\<lambda>g. if g \<in> set (sv_dead s) then None else sv_conns s g),
     sv_keys := filter (\<lambda>g. g \<notin> set (sv_dead s)) (sv_keys s),
     sv_os := (sv_os s)\<lparr>calls := calls (sv_os s) @ map SysClose (sv_dead s)\<rparr>, sv_dead := []\<rparr>"
  by (simp add: reap_def reap_fold)

lemma ids_reap:
  assumes "dead_ok v ds"
  defines "v' \<equiv> \<lambda>g. if g \<in> set ds then None else v g"
  shows "ids_wf v n ks \<Longrightarrow> ids_wf v' n (filter (\<lambda>g. g \<notin> set ds) ks)" and "ids_inj v \<Longrightarrow> ids_inj v'" and "owners_ok v m \<Longrightarrow> owners_ok v' m"
    and "names_ok v us \<Longrightarrow> names_ok v' us" and "dead_ok v' []"
proof -
  have d: "g \<in> set ds \<longleftrightarrow> (\<exists>ow r u. v g = Some (ow, r, u, True))" for g
    using assms(1) by (simp add: dead_ok_def)
  have sub: "v' g = Some x \<Longrightarrow> v g = Some x" for g x by (simp add: v'_def split: if_splits)
  show "ids_wf v n ks \<Longrightarrow> ids_wf v' n (filter (\<lambda>g. g \<notin> set ds) ks)"
    by (auto simp: ids_wf_def v'_def split: if_splits)
  show "ids_inj v \<Longrightarrow> ids_inj v'" unfolding ids_inj_def using sub by blast
  have tr: "v' g = Some (a, Trader, y, False) \<longleftrightarrow> v g = Some (a, Trader, y, False)" for g a y
    using d [of g] by (auto simp: v'_def)
  then show "owners_ok v m \<Longrightarrow> owners_ok v' m" "names_ok v us \<Longrightarrow> names_ok v' us"
    by (simp_all only: owners_ok_def names_ok_def simp_thms) (erule conjunct2)
  show "dead_ok v' []" using d by (auto simp: dead_ok_def v'_def split: if_splits)
qed

lemma reap_ok:
  assumes "srv_ok s"
  shows "srv_ok (reap s)"
proof -
  let ?s' = "reap s"
  have v': "view ?s' = (\<lambda>g. if g \<in> set (sv_dead s) then None else view s g)"
    by (auto simp: view_def reap_eq fun_eq_iff)
  have inv: "sv_inv s" "ins_ok {} s" "fresh_ok s" using assms by (simp_all add: srv_ok_def)
  have ids: "ids_wf (view s) (sv_next_owner s) (sv_keys s)" "ids_inj (view s)" "owners_ok (view s) (sv_owner_fd s)"
    "names_ok (view s) (sv_usernames s)" "dead_ok (view s) (sv_dead s)"
    using inv(1) by (auto simp: inv_except_def ids_ok_def)
  have "ids_ok ?s'"
    unfolding ids_ok_def v' using ids_reap [OF ids(5)] ids by (simp add: reap_eq)
  moreover have "conns_ok ?s'" "flows_ok {} ?s'"
    using inv(1) by (auto simp: inv_except_def conns_ok_def flows_ok_def reap_eq split: if_splits)
  moreover have "orders_owned ?s'"
    unfolding orders_owned_def v'
    using inv(1) by (auto simp: inv_except_def orders_owned_def reap_eq split: if_splits intro: owned_sub [of "view s"])
  moreover have "ins_ok {} ?s'" using inv(2) by (auto simp: ins_ok_def reap_eq split: if_splits)
  moreover have "fresh_ok ?s'"
    using inv(3) by (auto simp: fresh_ok_def reap_eq Let_def dom_def split: if_splits)
  ultimately show ?thesis by (simp add: srv_ok_def inv_except_def)
qed

section \<open>Reachable states\<close>

text \<open>
  The kernel prepares its answers (descriptors it hands out are not open), an event is
  dispatched, or a turn ends with \<open>reap\<close>. A batch of \<open>run\<close> is a sequence of such steps.
\<close>

inductive srv_step :: "Server \<Rightarrow> Server \<Rightarrow> bool" where
  kernel: "calls w = calls (sv_os s) \<Longrightarrow> fresh_ok (s\<lparr>sv_os := w\<rparr>) \<Longrightarrow> srv_step s (s\<lparr>sv_os := w\<rparr>)"
| event: "srv_step s (dispatch ev s)"
| turn_end: "srv_step s (reap s)"

inductive srv_reach :: "Server \<Rightarrow> bool" where
  start: "init (server_new ip port w) = (True, s) \<Longrightarrow> fresh_ok s \<Longrightarrow> srv_reach s"
| step: "srv_reach s \<Longrightarrow> srv_step s s' \<Longrightarrow> srv_reach s'"

lemma init_state:
  assumes "init (server_new ip port w) = (True, s)"
  shows "sv_conns s = Map.empty" "sv_owner_fd s = Map.empty" "sv_usernames s = {}" "sv_dead s = []"
    "sv_exch s = ex_init" "sv_next_owner s = 1" "sv_keys s = []"
  using assms by (auto simp: init_def server_new_def Let_def split: prod.splits if_splits)

lemma start_ok:
  assumes "init (server_new ip port w) = (True, s)" and "fresh_ok s"
  shows "srv_ok s"
proof -
  note i = init_state [OF assms(1)]
  have "view s = Map.empty" by (simp add: view_def i fun_eq_iff)
  then have "ids_ok s"
    by (simp add: ids_ok_def i ids_wf_def ids_inj_def owners_ok_def names_ok_def dead_ok_def)
  with assms(2) show ?thesis
    by (simp add: srv_ok_def inv_except_def conns_ok_def flows_ok_def orders_owned_def ins_ok_def i ex_init_def)
qed

lemma step_ok: "srv_step s s' \<Longrightarrow> srv_ok s \<Longrightarrow> srv_ok s'"
  by (induction rule: srv_step.cases)
    (auto simp: dispatch_ok reap_ok, simp add: srv_ok_def inv_os ins_os)

lemma reach_ok: "srv_reach s \<Longrightarrow> srv_ok s"
  by (induction rule: srv_reach.induct) (auto intro: start_ok step_ok)

section \<open>The contract of an event handler\<close>

text \<open>
  Between two states of a run: every connection of the later state is either new, with an
  owner id not handed out before, or has evolved from the connection at the same descriptor.
\<close>

definition later :: "Server \<Rightarrow> Server \<Rightarrow> bool" where
  "later s s' \<longleftrightarrow> sv_next_owner s \<le> sv_next_owner s' \<and>
     (\<forall>g c'. sv_conns s' g = Some c' \<longrightarrow>
        sv_next_owner s \<le> c_owner_id c' \<or> (\<exists>c. sv_conns s g = Some c \<and> conn_evo c c'))"

locale event_handler =
  fixes e :: "Server \<Rightarrow> Server"
  assumes keeps: "srv_ok s \<Longrightarrow> srv_ok (e s) \<and> eframe s (e s)"
begin

text \<open>No event erases a connection or changes who it belongs to; a role once taken stays.\<close>

lemma conn_stays:
  assumes "srv_ok s" and "sv_conns s f = Some c"
  obtains c' where "sv_conns (e s) f = Some c'" "conn_evo c c'"
  using keeps [OF assms(1)] assms(2) eframe_conn by blast

lemma new_owner:
  assumes "srv_ok s" and "sv_conns s f = None" and "sv_conns (e s) f = Some c'"
  shows "sv_next_owner s \<le> c_owner_id c'"
  using keeps [OF assms(1)] eframe_new assms(2,3) by blast

lemma evolves:
  assumes "srv_ok s"
  shows "later s (e s)"
  unfolding later_def
proof (intro conjI allI impI)
  show "sv_next_owner s \<le> sv_next_owner (e s)" using keeps [OF assms] by (simp add: eframe_def)
next
  fix g c'
  assume c': "sv_conns (e s) g = Some c'"
  show "sv_next_owner s \<le> c_owner_id c' \<or> (\<exists>c. sv_conns s g = Some c \<and> conn_evo c c')"
  proof (cases "sv_conns s g")
    case None
    with new_owner [OF assms None c'] show ?thesis by simp
  next
    case (Some c)
    then obtain x where "sv_conns (e s) g = Some x" "conn_evo c x" by (rule conn_stays [OF assms])
    with Some c' show ?thesis by simp
  qed
qed

end

interpretation acc: event_handler on_accept
  by unfold_locales (rule on_accept_ok)

interpretation rd: event_handler "on_readable f eof" for f eof
  by unfold_locales (rule on_readable_ok)

interpretation wr: event_handler "on_writable f" for f
  by unfold_locales (rule on_writable_ok)

interpretation ev: event_handler "dispatch k" for k
  by unfold_locales (rule dispatch_ok)

lemma batch_ok: "srv_ok s \<Longrightarrow> srv_ok (fold dispatch evs s) \<and> eframe s (fold dispatch evs s)"
proof (induction evs arbitrary: s)
  case Nil
  then show ?case by simp
next
  case (Cons k evs)
  from ev.keeps [OF Cons.prems, of k] Cons.IH [of "dispatch k s"] show ?case
    by (auto intro: eframe_trans)
qed

interpretation batch: event_handler "fold dispatch evs" for evs
  by unfold_locales (rule batch_ok)

lemma batch_steps: "srv_step\<^sup>*\<^sup>* s (fold dispatch evs s)"
proof (induction evs arbitrary: s)
  case Nil
  then show ?case by simp
next
  case (Cons k evs)
  have "srv_step s (dispatch k s)" by (rule srv_step.event)
  with Cons.IH [of "dispatch k s"] show ?case by (auto intro: converse_rtranclp_into_rtranclp)
qed

lemma run_turn_steps: "run_turn a s = Some s' \<Longrightarrow> srv_step\<^sup>*\<^sup>* s s'"
  using batch_steps [of s]
  by (auto simp: run_turn_def split: sysret.splits if_splits intro: srv_step.turn_end rtranclp.rtrancl_into_rtrancl)

lemma run_steps: "srv_step\<^sup>*\<^sup>* s (run turns s)"
proof (induction turns arbitrary: s)
  case Nil
  then show ?case by simp
next
  case (Cons a as)
  show ?case
  proof (cases "run_turn a s")
    case None
    then show ?thesis by simp
  next
    case (Some s')
    with run_turn_steps [OF Some] Cons.IH [of s'] show ?thesis by simp
  qed
qed

lemma reach_steps: "srv_step\<^sup>*\<^sup>* s s' \<Longrightarrow> srv_reach s \<Longrightarrow> srv_reach s'"
  by (induction rule: rtranclp_induct) (auto intro: srv_reach.step)

lemma reach_run: "srv_reach s \<Longrightarrow> srv_reach (run turns s)"
  using run_steps reach_steps by blast

section \<open>Identity over a run\<close>

lemma later_refl: "later s s"
  by (auto simp: later_def)

lemma later_trans:
  assumes "later a b" and "later b c"
  shows "later a c"
  unfolding later_def
proof (intro conjI allI impI)
  show "sv_next_owner a \<le> sv_next_owner c" using assms by (auto simp: later_def)
next
  fix g z
  assume "sv_conns c g = Some z"
  then consider "sv_next_owner b \<le> c_owner_id z" | y where "sv_conns b g = Some y" "conn_evo y z"
    using assms(2) unfolding later_def by blast
  then show "sv_next_owner a \<le> c_owner_id z \<or> (\<exists>x. sv_conns a g = Some x \<and> conn_evo x z)"
  proof cases
    case 1
    with assms(1) show ?thesis by (auto simp: later_def)
  next
    case 2
    then consider "sv_next_owner a \<le> c_owner_id y" | x where "sv_conns a g = Some x" "conn_evo x y"
      using assms(1) unfolding later_def by blast
    then show ?thesis
    proof cases
      case 1
      with 2(2) show ?thesis by (simp add: conn_evo_def)
    next
      case (2 x)
      with conn_evo_trans \<open>conn_evo y z\<close> show ?thesis by blast
    qed
  qed
qed

lemma step_later: "srv_step s s' \<Longrightarrow> srv_ok s \<Longrightarrow> later s s'"
proof (induction rule: srv_step.cases)
  case (kernel w s)
  then show ?case by (auto simp: later_def)
next
  case (event s ev)
  then show ?case by (auto intro: ev.evolves)
next
  case (turn_end s)
  then show ?case by (auto simp: later_def reap_eq split: if_splits)
qed

lemma steps_later:
  assumes "srv_step\<^sup>*\<^sup>* s s'" and "srv_reach s"
  shows "later s s'"
  using assms
proof (induction rule: rtranclp_induct)
  case base
  then show ?case by (simp add: later_refl)
next
  case (step y z)
  from step.prems reach_steps [OF step.hyps(1)] have "srv_ok y" by (auto intro: reach_ok)
  with step later_trans step_later show ?case by blast
qed

end
