(* ===== verification/Session_Run.thy ===== *)
theory Session_Run
  imports Server_Reach
begin

text \<open>
  A readable event, end to end: the bytes the kernel delivers, together with what was
  buffered, are cut into lines, and the server does for these lines, in order, what the
  session specification says, up to the point where the connection closes.
\<close>

section \<open>Inputs of a client\<close>

text \<open>A line, a line beyond the limit, or the end of the connection.\<close>

datatype input = Line string | Overlong | Gone

definition spec_input :: "fd \<Rightarrow> input \<Rightarrow> spec_server \<Rightarrow> spec_server \<times> (fd \<Rightarrow> string)" where
  "spec_input f i sp =
     (case i of
        Line l \<Rightarrow> spec_line f l sp
      | Overlong \<Rightarrow>
          (case sp_sess sp f of
             None \<Rightarrow> (sp, \<lambda>_. [])
           | Some x \<Rightarrow> (upd_sess f (x\<lparr>se_closing := True\<rparr>) sp, to f (msg_error ''line too long'')))
      | Gone \<Rightarrow> (sp\<lparr>sp_sess := (sp_sess sp)(f := None)\<rparr>, \<lambda>_. []))"

text \<open>
  A sequence of inputs of one client. After each, connections may drop out: the client's own,
  or one that was to be sent something.
\<close>

inductive spec_inputs :: "fd \<Rightarrow> spec_server \<Rightarrow> input list \<Rightarrow> (fd \<Rightarrow> string) \<Rightarrow> spec_server \<Rightarrow> bool" where
  no_input: "spec_inputs f sp [] (\<lambda>_. []) sp"
| an_input: "spec_input f i sp = (sp1, out1) \<Longrightarrow>
    (\<And>g. g \<notin> L \<Longrightarrow> sp_sess sp1 g \<noteq> None \<Longrightarrow> out1 g \<noteq> [] \<or> g = f) \<Longrightarrow>
    spec_inputs f (sp1\<lparr>sp_sess := sp_sess sp1 |` L\<rparr>) is out2 sp' \<Longrightarrow>
    spec_inputs f sp (i # is) (\<lambda>g. out1 g @ out2 g) sp'"

lemma spec_inputs_append:
  assumes "spec_inputs f sp is out sp1" and "spec_inputs f sp1 js out' sp2"
  shows "spec_inputs f sp (is @ js) (\<lambda>g. out g @ out' g) sp2"
  using assms
proof (induction rule: spec_inputs.induct)
  case (no_input f sp)
  then show ?case by simp
next
  case (an_input f i sp sp1 out1 L is' out2 sp')
  from spec_inputs.an_input [OF an_input.hyps(1,2) an_input.IH [OF an_input.prems]] show ?case
    by simp
qed

lemma spec_input_dom: "spec_input f i sp = (sp1, out) \<Longrightarrow> dom (sp_sess sp1) \<subseteq> dom (sp_sess sp)"
  by (auto simp: spec_input_def spec_line_def perform_def upd_sess_def Let_def
      split: input.splits option.splits request.splits if_splits prod.splits sum.splits)

lemma spec_input_next:
  "spec_input f i sp = (sp1, out) \<Longrightarrow> sb_next (sp_book sp1) = sb_next (sp_book sp) \<or> sb_next (sp_book sp1) = sb_next (sp_book sp) + 1"
  by (auto simp: spec_input_def spec_line_def perform_def upd_sess_def Let_def spec_submit_def spec_cancel_def
      split: input.splits option.splits request.splits if_splits prod.splits sum.splits)

text \<open>What the server did for one input is a step of the specification.\<close>

lemma input_step:
  assumes r: "refines s sp" and i: "spec_input f i sp = (sp1, out)" and c: "carries_out {f} s (sp1, out) s'"
  defines "L \<equiv> {g. live g s'}"
  shows "refines s' (sp1\<lparr>sp_sess := sp_sess sp1 |` L\<rparr>)"
    and "g \<notin> L \<Longrightarrow> sp_sess sp1 g \<noteq> None \<Longrightarrow> out g \<noteq> [] \<or> g = f"
proof -
  have c': "emits {f} s out s'" "represents (sv_exch s') (sp_book sp1)"
    "\<And>g. live g s' \<Longrightarrow> abs_sess s' g = sp_sess sp1 g"
    using c by (auto simp: carries_out_def)
  have "abs_sess s' g = (sp_sess sp1 |` L) g" for g
    using c'(3) [of g] by (cases "live g s'")
      (auto simp: L_def restrict_map_def abs_sess_def live_def split: option.splits)
  then show "refines s' (sp1\<lparr>sp_sess := sp_sess sp1 |` L\<rparr>)"
    using c'(2) by (auto simp: refines_def fun_eq_iff)
  assume g: "g \<notin> L" "sp_sess sp1 g \<noteq> None"
  then have "g \<in> dom (sp_sess sp)" using spec_input_dom [OF i] by blast
  then have "live g s" using r by (auto simp: refines_def abs_sess_def live_def split: option.splits if_splits)
  with g(1) c'(1) show "out g \<noteq> [] \<or> g = f" unfolding emits_def L_def by (metis mem_Collect_eq singletonD)
qed

lemma emits_mono: "emits F s m s' \<Longrightarrow> F \<subseteq> G \<Longrightarrow> emits G s m s'"
  unfolding emits_def by (metis subsetD)

section \<open>The three inputs\<close>

lemma line_carries_out:
  assumes "sv_inv s" and "live f s" and "refines s sp" and "sb_next (sp_book sp) + 1 \<noteq> 0"
  shows "carries_out {f} s (spec_input f (Line l) sp) (handle_line f l s)"
proof -
  obtain sp' out where sp': "spec_line f l sp = (sp', out)" by (metis prod.exhaust)
  obtain F where "F = {} \<or> F = {f}" "carries_out F s (sp', out) (handle_line f l s)"
    using handle_line_simulates [OF assms sp'] by blast
  then show ?thesis
    by (auto simp: spec_input_def sp' carries_out_def intro: emits_mono)
qed

lemma gone_carries_out:
  assumes inv: "sv_inv s" and l: "live f s" and r: "refines s sp"
  shows "carries_out {f} s (spec_input f Gone sp) (close_conn f s)"
proof -
  obtain c where c: "sv_conns s f = Some c" "\<not> c_dead c" using l by (auto simp: live_def)
  have fd: "c_fd c = f" "ob_inv (c_out c)" using inv_connD [OF inv c(1)] by simp_all
  have io: "io1 f [] s (close_conn f s)" using close_conn_io c fd by blast
  have "emits {f} s (\<lambda>_. []) (close_conn f s)" by (rule emits_cong [OF io1_emits [OF io]]) simp_all
  moreover have "\<not> live f (close_conn f s)" using c by (simp add: close_conn_def live_def)
  moreover have "oframe s (close_conn f s)" using io1_frame [OF io] by (simp add: oframe_def)
  ultimately show ?thesis
    using r abs_sess_oframe by (auto simp: carries_out_def spec_input_def refines_def)
qed

lemma overlong_carries_out:
  assumes inv: "sv_inv s" and l: "live f s" and r: "refines s sp"
  shows "carries_out {f} s (spec_input f Overlong sp)
    (try_flush f (upd_conn f (\<lambda>c. c\<lparr>c_closing := True\<rparr>) (queue_out f (msg_error ''line too long'') s)))"
proof -
  let ?m = "msg_error ''line too long''" and ?k = "\<lambda>c. c\<lparr>c_closing := True\<rparr>"
  define s1 where "s1 = queue_out f ?m s"
  obtain c where c: "sv_conns s f = Some c" "\<not> c_dead c" using l by (auto simp: live_def)
  have q: "sv_inv s1" "oframe s s1" using queue_out_ok [OF inv] by (simp_all add: s1_def oframe_def)
  have e1: "emits {f} s (to f ?m) s1" unfolding s1_def by (rule queue_out_emits [OF inv]) simp
  have sp: "spec_input f Overlong sp = (upd_sess f ((sess_of c)\<lparr>se_closing := True\<rparr>) sp, to f ?m)"
    using r c by (simp add: spec_input_def refines_def abs_sess_def)
  have ex: "sv_exch s1 = sv_exch s" by (simp add: s1_def)
  show ?thesis
  proof (cases "live f s1")
    case True
    obtain c1 where c1: "sv_conns s1 f = Some c1" "same_id c c1" "\<not> c_dead c1"
      by (rule oframe_live_same [OF q(2) True]) (use c in simp)
    let ?sa = "\<lparr>sp_sess = abs_sess s1, sp_book = sp_book sp\<rparr>"
    have "refines s1 ?sa" using r ex by (simp add: refines_def)
    from quit_carries_out [OF q(1) c1(1,3) this refl] have
      2: "emits {f} s1 (\<lambda>_. []) (cmd_quit f s1)" "represents (sv_exch s) (sp_book sp)"
      "\<And>g. live g (cmd_quit f s1) \<Longrightarrow> abs_sess (cmd_quit f s1) g =
         ((abs_sess s1)(f \<mapsto> (sess_of c1)\<lparr>se_closing := True\<rparr>)) g"
      using r by (simp_all add: carries_out_def serve_def perform_def upd_sess_def refines_def)
    have "sess_of c1 = sess_of c" using c1(2) by (simp add: sess_of_def same_id_def)
    moreover have "abs_sess s1 g = abs_sess s g" if "live g (cmd_quit f s1)" for g
      using abs_sess_oframe [OF q(2)] emits_live [OF 2(1) that] by simp
    ultimately have "carries_out {f} s (spec_input f Overlong sp) (cmd_quit f s1)"
      using emits_trans [OF e1 2(1)] 2 r
      by (auto simp: carries_out_def sp upd_sess_def refines_def cmd_quit_def ex)
    then show ?thesis by (simp add: cmd_quit_def s1_def)
  next
    case False
    let ?s2 = "upd_conn f ?k s1"
    have eq: "try_flush f ?s2 = ?s2"
      using False by (cases "sv_conns s1 f") (auto simp: live_def output_noop)
    have lv: "live g ?s2 = live g s1" for g by (auto simp: live_def)
    have "emits {f} s1 (\<lambda>_. []) ?s2" by (rule emits_upd [where k = ?k and f = f]) simp_all
    from emits_trans [OF e1 this] have "emits {f} s (to f ?m) ?s2" by simp
    moreover have "abs_sess ?s2 g = abs_sess s g" "g \<noteq> f" if "live g ?s2" for g
      using that lv [of g] abs_sess_oframe [OF q(2), of g] False by (auto simp: abs_sess_def)
    ultimately have "carries_out {f} s (spec_input f Overlong sp) ?s2"
      using r by (auto simp: carries_out_def sp upd_sess_def refines_def ex)
    then show ?thesis using eq by (simp add: s1_def)
  qed
qed

section \<open>The lines of one buffer\<close>

fun lines_of :: "input list \<Rightarrow> string list" where
  "lines_of [] = []"
| "lines_of (Line l # is) = l # lines_of is"
| "lines_of (_ # is) = lines_of is"

definition shut :: "fd \<Rightarrow> Server \<Rightarrow> bool" where
  "shut f s \<longleftrightarrow> (case sv_conns s f of None \<Rightarrow> True | Some c \<Rightarrow> c_dead c \<or> c_closing c)"

lemma lines_of_map [simp]: "lines_of (map Line ls) = ls"
  by (induction ls) simp_all

lemma lines_of_append [simp]: "lines_of (is @ js) = lines_of is @ lines_of js"
  by (induction "is" rule: lines_of.induct) simp_all

lemma next_line_lines:
  assumes "next_line [] b = (st, line, b')"
  shows "if st = Ok then lines (lb_buf b) = line # lines (lb_buf b') \<and> length (lb_buf b') < length (lb_buf b)
        \<and> snd (split_nl (lb_buf b)) = snd (split_nl (lb_buf b'))
      else lines (lb_buf b) = [] \<and> snd (split_nl (lb_buf b)) = lb_buf b"
proof (cases "lb_buf b" rule: split_nl_cases)
  case rest
  with assms show ?thesis by (auto simp: next_line_no_NL lines_def split_nl_no_NL split: if_splits)
next
  case (line l r)
  then have "b = \<lparr>lb_buf = l @ NL # r\<rparr>" by simp
  with line(1) assms show ?thesis by (auto simp: next_line_NL)
qed

text \<open>Taking a line out of the buffer is invisible to the specification.\<close>

lemma in_upd_refines:
  assumes "refines s sp"
  shows "refines (upd_conn f (\<lambda>c. c\<lparr>c_in := k c\<rparr>) s) sp \<and> emits F s (\<lambda>_. []) (upd_conn f (\<lambda>c. c\<lparr>c_in := k c\<rparr>) s)"
proof -
  have "abs_sess (upd_conn f (\<lambda>c. c\<lparr>c_in := k c\<rparr>) s) = abs_sess s"
    by (cases "sv_conns s f") (auto simp: abs_sess_def fun_eq_iff sess_of_def)
  with assms show ?thesis
    by (auto simp: refines_def intro!: emits_upd [where k = "\<lambda>c. c\<lparr>c_in := k c\<rparr>" and f = f])
qed

lemma unat_Suc_le: "unat (x + 1 :: u32) \<le> unat x + 1"
  by (simp add: unat_word_ariths)

lemma nowrap_bound: "unat (x :: u32) + 1 < 2 ^ 32 \<Longrightarrow> x + 1 \<noteq> 0"
  using nowrap_iff [OF refl, of x] by simp

text \<open>One input, as a step of a run.\<close>

lemma run_input:
  assumes "refines s sp" and "carries_out {f} s (spec_input f i sp) s'"
  obtains out sp' where "spec_inputs f sp [i] out sp'" "refines s' sp'" "emits {f} s out s'"
    "unat (sb_next (sp_book sp')) \<le> unat (sb_next (sp_book sp)) + 1"
proof -
  obtain sp1 out where i: "spec_input f i sp = (sp1, out)" by (metis prod.exhaust)
  let ?L = "{g. live g s'}"
  let ?sp' = "sp1\<lparr>sp_sess := sp_sess sp1 |` ?L\<rparr>"
  have c: "carries_out {f} s (sp1, out) s'" using assms(2) i by simp
  have "spec_inputs f sp [i] (\<lambda>g. out g @ []) ?sp'"
    by (rule spec_inputs.an_input [OF i input_step(2) [OF assms(1) i c] spec_inputs.no_input])
  moreover have "unat (sb_next (sp_book ?sp')) \<le> unat (sb_next (sp_book sp)) + 1"
    using spec_input_next [OF i] unat_Suc_le [of "sb_next (sp_book sp)"] by auto
  ultimately show ?thesis
    using that [of out ?sp'] input_step(1) [OF assms(1) i c] c by (simp add: carries_out_def)
qed

lemma overlong_shut:
  assumes "sv_inv s" and "live f s" and "refines s sp"
  shows "shut f (try_flush f (upd_conn f (\<lambda>c. c\<lparr>c_closing := True\<rparr>) (queue_out f (msg_error ''line too long'') s)))"
    (is "shut f ?s'")
proof (cases "sv_conns ?s' f")
  case None
  then show ?thesis by (simp add: shut_def)
next
  case (Some x)
  obtain c where c: "sv_conns s f = Some c" "\<not> c_dead c" using assms(2) by (auto simp: live_def)
  have "c_closing x" if "\<not> c_dead x"
  proof -
    have "live f ?s'" using Some that by (simp add: live_def)
    then have "abs_sess ?s' f = Some ((sess_of c)\<lparr>se_closing := True\<rparr>)"
      using overlong_carries_out [OF assms] assms(3) c
      by (simp add: carries_out_def spec_input_def refines_def abs_sess_def upd_sess_def)
    with Some that show ?thesis by (simp add: abs_sess_def sess_of_def)
  qed
  with Some show ?thesis by (auto simp: shut_def)
qed

text \<open>Of the bytes \<open>b\<close> the lines \<open>ls\<close> have been treated; the buffer of \<open>f\<close> holds all that follows.\<close>

definition remains :: "fd \<Rightarrow> string list \<Rightarrow> string \<Rightarrow> Server \<Rightarrow> bool" where
  "remains f ls b s \<longleftrightarrow> (\<exists>lb. map_option c_in (sv_conns s f) = Some lb \<and> lines b = ls @ lines (lb_buf lb)
     \<and> snd (split_nl b) = snd (split_nl (lb_buf lb)))"

lemma remains_prefix: "remains f ls b s \<Longrightarrow> prefix ls (lines b)"
  by (auto simp: remains_def)

lemma remains_append: "remains f ls b s \<Longrightarrow> lines d = k @ lines b \<Longrightarrow> snd (split_nl d) = snd (split_nl b) \<Longrightarrow> remains f (k @ ls) d s"
  by (auto simp: remains_def)

text \<open>
  What the loop over the lines of a buffer \<open>b\<close> achieves: it treated some of the lines, in order,
  and left the others in the buffer; all of them unless it ends the event with the connection
  shut. The bound on the ids says that every line of the buffer costs at most one id.
\<close>

definition lines_result :: "fd \<Rightarrow> string \<Rightarrow> bool \<Rightarrow> Server \<Rightarrow> spec_server \<Rightarrow> Server \<Rightarrow> bool" where
  "lines_result f b r s sp s' \<longleftrightarrow> (\<exists>ins out sp'. spec_inputs f sp ins out sp' \<and> refines s' sp' \<and> emits {f} s out s'
     \<and> remains f (lines_of ins) b s'
     \<and> (if r then shut f s'
        else ins = map Line (lines b) \<and> (\<exists>c'. sv_conns s' f = Some c' \<and> \<not> c_dead c' \<and> lb_buf (c_in c') = snd (split_nl b)
          \<and> unat (sb_next (sp_book sp')) + length (lb_buf (c_in c')) \<le> unat (sb_next (sp_book sp)) + length b)))"

text \<open>A line treated first, then the rest of the buffer.\<close>

lemma lines_result_Cons:
  assumes i: "spec_inputs f sp [Line line] out1 sp1" and e: "emits {f} s out1 s1"
    and n: "unat (sb_next (sp_book sp1)) \<le> unat (sb_next (sp_book sp)) + 1"
    and b: "lines b = line # lines b1" "snd (split_nl b) = snd (split_nl b1)" "length b1 < length b"
    and r: "lines_result f b1 r s1 sp1 s'"
  shows "lines_result f b r s sp s'"
proof -
  obtain ins out sp' where ih: "spec_inputs f sp1 ins out sp'" "refines s' sp'" "emits {f} s1 out s'"
    "remains f (lines_of ins) b1 s'"
    "if r then shut f s' else ins = map Line (lines b1) \<and> (\<exists>c'. sv_conns s' f = Some c' \<and> \<not> c_dead c'
       \<and> lb_buf (c_in c') = snd (split_nl b1)
       \<and> unat (sb_next (sp_book sp')) + length (lb_buf (c_in c')) \<le> unat (sb_next (sp_book sp1)) + length b1)"
    using r unfolding lines_result_def by blast
  have "spec_inputs f sp (Line line # ins) (\<lambda>g. out1 g @ out g) sp'" using spec_inputs_append [OF i ih(1)] by simp
  moreover have "emits {f} s (\<lambda>g. out1 g @ out g) s'" by (rule emits_trans [OF e ih(3)])
  moreover have "remains f (lines_of (Line line # ins)) b s'" using remains_append [OF ih(4), of b "[line]"] b by simp
  ultimately show ?thesis
    unfolding lines_result_def using ih(2,5) b n
    by (intro exI [of _ "Line line # ins"] exI [of _ "\<lambda>g. out1 g @ out g"] exI [of _ sp']) (cases r; force)
qed

text \<open>Treating the line just taken out of the buffer.\<close>

lemma line_refines:
  assumes inv: "sv_inv s" and c: "sv_conns s f = Some c" "\<not> c_dead c" and r: "refines s sp"
    and n: "sb_next (sp_book sp) + 1 \<noteq> 0"
  obtains out sp1 c1 where "spec_inputs f sp [Line line] out sp1"
    "refines (handle_line f line (upd_conn f (\<lambda>c. c\<lparr>c_in := lb\<rparr>) s)) sp1"
    "emits {f} s out (handle_line f line (upd_conn f (\<lambda>c. c\<lparr>c_in := lb\<rparr>) s))"
    "sv_inv (handle_line f line (upd_conn f (\<lambda>c. c\<lparr>c_in := lb\<rparr>) s))"
    "unat (sb_next (sp_book sp1)) \<le> unat (sb_next (sp_book sp)) + 1"
    "sv_conns (handle_line f line (upd_conn f (\<lambda>c. c\<lparr>c_in := lb\<rparr>) s)) f = Some c1" "c_in c1 = lb"
proof -
  let ?s0 = "upd_conn f (\<lambda>c. c\<lparr>c_in := lb\<rparr>) s"
  have 0: "sv_inv ?s0" "live f ?s0" "refines ?s0 sp" "emits {f} s (\<lambda>_. []) ?s0"
    using in_upd_ok [OF inv, of f "\<lambda>_. lb"] in_upd_refines [OF r, of f "\<lambda>_. lb"] c by (simp_all add: live_def)
  obtain out sp1 where o: "spec_inputs f sp [Line line] out sp1" "refines (handle_line f line ?s0) sp1"
    "emits {f} ?s0 out (handle_line f line ?s0)" "unat (sb_next (sp_book sp1)) \<le> unat (sb_next (sp_book sp)) + 1"
    by (rule run_input [OF 0(3) line_carries_out [OF 0(1,2,3) n, of line]])
  obtain c1 where "sv_conns (handle_line f line ?s0) f = Some c1" "conn_le True (c\<lparr>c_in := lb\<rparr>) c1"
    by (rule hl.conn_after [OF 0(1,2), of f "c\<lparr>c_in := lb\<rparr>" line]) (auto simp: c(1))
  then show thesis
    using that [of out sp1 c1] o hl.keeps [OF 0(1,2)] emits_trans [OF 0(4) o(3)] by (simp add: conn_le_def)
qed

lemma line_loop_refines:
  assumes "line_loop f s = (r, s')" and "sv_inv s" and "sv_conns s f = Some c" and "\<not> c_dead c" and "refines s sp"
    and "unat (sb_next (sp_book sp)) + length (lb_buf (c_in c)) < 2 ^ 32"
  shows "lines_result f (lb_buf (c_in c)) r s sp s'"
  using assms
proof (induction f s arbitrary: c sp rule: line_loop.induct)
  case (1 f s)
  note prems = "1.prems"
  obtain st line lb where nl: "next_line [] (c_in c) = (st, line, lb)" by (metis prod_cases3)
  note ln = next_line_lines [OF nl]
  have l: "live f s" using prems by (simp add: live_def)
  show ?case
  proof (cases st)
    case NeedMore
    then have "line_loop f s = (False, s)" using prems(3) nl by (subst line_loop.simps) simp
    with prems ln NeedMore show ?thesis
      unfolding lines_result_def
      by (intro exI [of _ "[]"] exI [of _ "\<lambda>_. []"] exI [of _ sp]) (auto simp: remains_def intro: spec_inputs.no_input)
  next
    case TooLong
    let ?s' = "try_flush f (upd_conn f (\<lambda>c. c\<lparr>c_closing := True\<rparr>) (queue_out f (msg_error ''line too long'') s))"
    have "line_loop f s = (True, ?s')" using TooLong prems(3) nl by (subst line_loop.simps) simp
    then have r: "r" "s' = ?s'" using prems(1) by simp_all
    obtain out sp' where o: "spec_inputs f sp [Overlong] out sp'" "refines s' sp'" "emits {f} s out s'"
      using run_input [OF prems(5) overlong_carries_out [OF prems(2) l prems(5)]] r(2) by metis
    have "shut f s'" unfolding r(2) by (rule overlong_shut [OF prems(2) l prems(5)])
    moreover have "rx s' = rx s" by (simp add: r(2))
    then have "remains f [] (lb_buf (c_in c)) s'" using prems(3) by (auto simp: remains_def rx_def fun_eq_iff dest: spec [of _ f])
    ultimately show ?thesis using o r unfolding lines_result_def by (intro exI [of _ "[Overlong]"]) auto
  next
    case Ok
    define s1 where "s1 = handle_line f line (upd_conn f (\<lambda>c. c\<lparr>c_in := lb\<rparr>) s)"
    have b: "lines (lb_buf (c_in c)) = line # lines (lb_buf lb)" "snd (split_nl (lb_buf (c_in c))) = snd (split_nl (lb_buf lb))"
      "length (lb_buf lb) < length (lb_buf (c_in c))" using ln Ok by simp_all
    then have "sb_next (sp_book sp) + 1 \<noteq> 0" using prems(6) by (intro nowrap_bound) linarith
    from line_refines [OF prems(2-5) this, of line lb] obtain out1 sp1 c1 where
      o: "spec_inputs f sp [Line line] out1 sp1" "refines s1 sp1" "emits {f} s out1 s1" "sv_inv s1"
        "unat (sb_next (sp_book sp1)) \<le> unat (sb_next (sp_book sp)) + 1" and c1: "sv_conns s1 f = Some c1" "c_in c1 = lb"
      unfolding s1_def by metis
    have eq: "line_loop f s = (if c_dead c1 \<or> c_closing c1 then (True, s1) else line_loop f s1)"
      using prems(3) nl Ok c1 by (subst line_loop.simps) (simp add: s1_def)
    show ?thesis
    proof (cases "c_dead c1 \<or> c_closing c1")
      case True
      with eq prems(1) o(1-3) b(1) c1(1) show ?thesis
        unfolding lines_result_def
        by (intro exI [of _ "[Line line]"] exI [of _ out1] exI [of _ sp1]) (auto simp: shut_def remains_def c1(2) b(2))
    next
      case False
      with eq prems(1) have ll: "line_loop f s1 = (r, s')" by simp
      have "unat (sb_next (sp_book sp1)) + length (lb_buf (c_in c1)) < 2 ^ 32" using o(5) prems(6) b(3) c1(2) by simp
      from "1.IH" [OF prems(3) nl [symmetric] refl _ _ s1_def c1(1) False ll o(4) c1(1) _ o(2) this] False Ok c1(2)
      have "lines_result f (lb_buf lb) r s1 sp1 s'" by simp
      from lines_result_Cons [OF o(1,3,5) b this] show ?thesis .
    qed
  qed
qed

section \<open>A readable event\<close>

lemma refines_os: "refines (s\<lparr>sv_os := w\<rparr>) sp = refines s sp"
  by (simp add: refines_def abs_sess_def fun_eq_iff)

lemma emits_os: "(\<And>g. sent g (calls w) = sent g (calls (sv_os s))) \<Longrightarrow> emits F s (\<lambda>_. []) (s\<lparr>sv_os := w\<rparr>)"
  by (rule emits_quiet) (simp_all add: live_def stream_def)

text \<open>
  What a readable event on \<open>f\<close> achieves, from buffered bytes \<open>b\<close>: it consumed some answers of
  the kernel, treated some of the lines, in order, as the specification says, left the others
  in the buffer, and treated all of them unless the connection is shut.
\<close>

definition read_result :: "fd \<Rightarrow> string \<Rightarrow> Server \<Rightarrow> spec_server \<Rightarrow> Server \<Rightarrow> bool" where
  "read_result f b s sp s' \<longleftrightarrow> (\<exists>used ins out sp'.
     ans_recv (sv_os s) = used @ ans_recv (sv_os s') \<and> spec_inputs f sp ins out sp' \<and> refines s' sp'
     \<and> emits {f} s out s' \<and> remains f (lines_of ins) (b @ recvd used) s'
     \<and> (shut f s' \<or> ins = map Line (lines (b @ recvd used)) \<and>
         (\<exists>c'. sv_conns s' f = Some c' \<and> lb_buf (c_in c') = snd (split_nl (b @ recvd used)))))"

text \<open>Input consumed and treated first, then more.\<close>

lemma read_result_trans:
  assumes u: "ans_recv (sv_os s) = us @ ans_recv (sv_os s1)"
    and i: "spec_inputs f sp (map Line (lines (b @ recvd us))) out1 sp1" and e: "emits {f} s out1 s1"
    and r: "read_result f (snd (split_nl (b @ recvd us))) s1 sp1 s'"
  shows "read_result f b s sp s'"
proof -
  let ?b1 = "snd (split_nl (b @ recvd us))"
  obtain vs ins out2 sp' where 2: "ans_recv (sv_os s1) = vs @ ans_recv (sv_os s')" "spec_inputs f sp1 ins out2 sp'"
    "refines s' sp'" "emits {f} s1 out2 s'" "remains f (lines_of ins) (?b1 @ recvd vs) s'"
    "shut f s' \<or> ins = map Line (lines (?b1 @ recvd vs)) \<and>
         (\<exists>c'. sv_conns s' f = Some c' \<and> lb_buf (c_in c') = snd (split_nl (?b1 @ recvd vs)))"
    using r unfolding read_result_def by blast
  have ln: "lines (b @ recvd (us @ vs)) = lines (b @ recvd us) @ lines (?b1 @ recvd vs)"
    "snd (split_nl (b @ recvd (us @ vs))) = snd (split_nl (?b1 @ recvd vs))"
    using lines_append [of "b @ recvd us" "recvd vs"] residue_append [of "b @ recvd us" "recvd vs"]
    by (simp_all add: recvd_append)
  show ?thesis
    unfolding read_result_def
    using u 2 spec_inputs_append [OF i 2(2)] emits_trans [OF e 2(4)] remains_append [OF 2(5) ln]
    by (intro exI [of _ "us @ vs"] exI [of _ "map Line (lines (b @ recvd us)) @ ins"]
        exI [of _ "\<lambda>g. out1 g @ out2 g"] exI [of _ sp']) (auto simp: ln)
qed

lemma read_result_gone:
  assumes "sv_inv s" and "live f s" and "refines s sp" and "ans_recv (sv_os s) = us @ ans_recv w" and "recvd us = []"
    and "sv_conns s f = Some c" and "\<And>g. sent g (calls w) = sent g (calls (sv_os s))"
  shows "read_result f (lb_buf (c_in c)) s sp (close_conn f (s\<lparr>sv_os := w\<rparr>))"
proof -
  let ?s0 = "s\<lparr>sv_os := w\<rparr>" and ?s' = "close_conn f (s\<lparr>sv_os := w\<rparr>)"
  have 0: "sv_inv ?s0" "live f ?s0" "refines ?s0 sp" using assms(1-3) by (simp_all add: inv_os ins_os refines_os)
  obtain out sp' where o: "spec_inputs f sp [Gone] out sp'" "refines ?s' sp'" "emits {f} ?s0 out ?s'"
    by (rule run_input [OF 0(3) gone_carries_out [OF 0]])
  have "emits {f} s out ?s'" using emits_trans [OF emits_os [OF assms(7)] o(3)] by simp
  moreover have "shut f ?s'" using 0(2) by (auto simp: shut_def close_conn_def live_def)
  moreover have "ans_recv (sv_os s) = us @ ans_recv (sv_os ?s')"
    using assms(4) rx_close [of f ?s0] by (simp add: rx_def)
  moreover have "remains f [] (lb_buf (c_in c) @ recvd us) ?s'"
    using assms(5,6) rx_close [of f ?s0] by (auto simp: remains_def rx_def fun_eq_iff dest: spec [of _ f])
  ultimately show ?thesis
    unfolding read_result_def
    using o(1,2) by (intro exI [of _ us] exI [of _ "[Gone]"] exI [of _ out] exI [of _ sp']) simp
qed

lemma read_result_quiet:
  assumes u: "ans_recv (sv_os s) = us @ ans_recv (sv_os s0)" "recvd us = []" and e: "emits {f} s (\<lambda>_. []) s0"
    and r: "read_result f b s0 sp s'"
  shows "read_result f b s sp s'"
proof -
  obtain vs ins out sp' where 2: "ans_recv (sv_os s0) = vs @ ans_recv (sv_os s')" "spec_inputs f sp ins out sp'"
    "refines s' sp'" "emits {f} s0 out s'" "remains f (lines_of ins) (b @ recvd vs) s'"
    "shut f s' \<or> ins = map Line (lines (b @ recvd vs)) \<and>
         (\<exists>c'. sv_conns s' f = Some c' \<and> lb_buf (c_in c') = snd (split_nl (b @ recvd vs)))"
    using r unfolding read_result_def by blast
  have "recvd (us @ vs) = recvd vs" using u(2) by (simp add: recvd_append)
  then show ?thesis
    unfolding read_result_def
    using u 2 emits_trans [OF e 2(4)]
    by (intro exI [of _ "us @ vs"] exI [of _ ins] exI [of _ out] exI [of _ sp']) simp
qed

lemma lines_result_quiet:
  assumes e: "emits {f} s0 (\<lambda>_. []) s" and r: "lines_result f b r s sp s'"
  shows "lines_result f b r s0 sp s'"
proof -
  have "emits {f} s0 out s'" if "emits {f} s out s'" for out using emits_trans [OF e that] by simp
  with r show ?thesis unfolding lines_result_def by blast
qed

text \<open>
  One chunk of bytes: appended to the buffer and its lines treated. Either the connection is
  shut and the event is over, or all lines are treated and the event goes on.
\<close>

lemma chunk_refines:
  assumes inv: "sv_inv s" and ins: "ins_ok {} s" and c: "sv_conns s f = Some c" "\<not> c_dead c" and r: "refines s sp"
    and bound: "unat (sb_next (sp_book sp)) + length (lb_buf (c_in c) @ d) < 2 ^ 32"
    and ll: "line_loop f (recv_into f d s) = (r', s')"
  shows "lines_result f (lb_buf (c_in c) @ d) r' s sp s' \<and> sv_inv s' \<and> ins_ok {} s' \<and> ans_recv (sv_os s') = ans_recv (sv_os s)"
proof -
  let ?k = "\<lambda>c. c\<lparr>c_in := lb_append d (c_in c)\<rparr>" and ?s1 = "recv_into f d s"
  have s1: "sv_inv ?s1" "refines ?s1 sp" "emits {f} s (\<lambda>_. []) ?s1"
    using in_upd_ok [OF inv, of f "\<lambda>c. lb_append d (c_in c)"] in_upd_refines [OF r, of f "\<lambda>c. lb_append d (c_in c)"]
    by (simp_all add: recv_into_def)
  have c1: "sv_conns ?s1 f = Some (?k c)" "\<not> c_dead (?k c)" "lb_buf (c_in (?k c)) = lb_buf (c_in c) @ d"
    using c by (simp_all add: recv_into_def lb_append_def)
  have "live f ?s1" using c1(1,2) unfolding live_def by blast
  moreover have "ins_ok {f} ?s1" using ins_upd [OF ins_weaken [OF ins]] by (simp add: recv_into_def)
  ultimately have ok: "sv_inv s'" "ins_ok {} s'" using line_loop_ok [OF ll s1(1)] by simp_all
  have "fst (rx s') = fst (rx ?s1)" using line_loop_ans [OF ll] by simp
  then have ans: "ans_recv (sv_os s') = ans_recv (sv_os s)" by (simp add: rx_def recv_into_def)
  have "lines_result f (lb_buf (c_in c) @ d) r' ?s1 sp s'"
    using line_loop_refines [OF ll s1(1) c1(1,2) s1(2)] bound unfolding c1(3) by blast
  from lines_result_quiet [OF s1(3) this] ok ans show ?thesis by simp
qed

text \<open>A chunk after which the event is over, and one after which it goes on.\<close>

lemma read_result_shut:
  assumes "ans_recv (sv_os s) = us @ ans_recv (sv_os s')" and "lines_result f (b @ recvd us) True s sp s'"
  shows "read_result f b s sp s'"
  using assms unfolding lines_result_def read_result_def by auto

lemma read_result_more:
  assumes u: "ans_recv (sv_os s) = us @ ans_recv (sv_os s1)" and l: "lines_result f (b @ recvd us) False s sp s1"
    and n: "unat (sb_next (sp_book sp)) + length b + length (recvd us) + length (recvd (ans_recv (sv_os s1))) < 2 ^ 32 + k"
    and more: "\<And>c1 sp1. sv_conns s1 f = Some c1 \<Longrightarrow> \<not> c_dead c1 \<Longrightarrow> NL \<notin> set (lb_buf (c_in c1)) \<Longrightarrow> refines s1 sp1 \<Longrightarrow>
      unat (sb_next (sp_book sp1)) + length (lb_buf (c_in c1)) + length (recvd (ans_recv (sv_os s1))) < 2 ^ 32 + k \<Longrightarrow>
      read_result f (lb_buf (c_in c1)) s1 sp1 s'"
  shows "read_result f b s sp s'"
proof -
  obtain out sp1 c1 where 1: "spec_inputs f sp (map Line (lines (b @ recvd us))) out sp1" "refines s1 sp1" "emits {f} s out s1"
    "sv_conns s1 f = Some c1" "\<not> c_dead c1" "lb_buf (c_in c1) = snd (split_nl (b @ recvd us))"
    "unat (sb_next (sp_book sp1)) + length (lb_buf (c_in c1)) \<le> unat (sb_next (sp_book sp)) + length (b @ recvd us)"
    using l unfolding lines_result_def by auto
  have "read_result f (lb_buf (c_in c1)) s1 sp1 s'"
    using 1(7) n split_nl_residue [of "b @ recvd us"] by (intro more 1(4,5,2)) (simp_all add: 1(6))
  with read_result_trans [OF u 1(1,3)] show ?thesis by (simp add: 1(6))
qed

text \<open>The loop consumes answers of the kernel from the front.\<close>

lemma read_loop_used: "\<exists>us. ans_recv (sv_os s) = us @ ans_recv (sv_os (read_loop f eof s))"
proof (induction f eof s rule: read_loop.induct)
  case (1 f eof s)
  obtain a w where a: "sys_recv f 4096 (sv_os s) = (a, w)" by (metis prod.exhaust)
  obtain us where us: "ans_recv (sv_os s) = us @ ans_recv w" by (rule sys_recv_used [OF a])
  have cl: "ans_recv (sv_os (close_conn f (s\<lparr>sv_os := w\<rparr>))) = ans_recv w"
    using rx_close [of f "s\<lparr>sv_os := w\<rparr>"] by (simp add: rx_def)
  show ?case
  proof (cases a)
    case (Ret b)
    obtain r s1 where ll: "line_loop f (recv_into f b (s\<lparr>sv_os := w\<rparr>)) = (r, s1)" by (metis prod.exhaust)
    have "ans_recv (sv_os s1) = ans_recv w" using line_loop_ans [OF ll] by (simp add: rx_def recv_into_def)
    with "1.IH"(1) [OF a [symmetric] Ret _ ll [symmetric]] us a Ret ll cl show ?thesis
      by (cases r; cases "b = []") (auto simp: read_loop.simps [of f eof s])
  next
    case (Fail e)
    with "1.IH"(2) [OF a [symmetric] Fail] us a cl show ?thesis
      by (auto simp: read_loop.simps [of f eof s])
  qed
qed

lemma read_loop_refines:
  assumes "sv_inv s" and "ins_ok {} s" and "sv_conns s f = Some c" and "\<not> c_dead c" and "NL \<notin> set (lb_buf (c_in c)) \<or> c_closing c"
    and "refines s sp"
    and "unat (sb_next (sp_book sp)) + length (lb_buf (c_in c)) + length (recvd (ans_recv (sv_os s)))
      < 2 ^ 32 + length (recvd (ans_recv (sv_os (read_loop f eof s))))"
  shows "read_result f (lb_buf (c_in c)) s sp (read_loop f eof s)"
  using assms
proof (induction f eof s arbitrary: c sp rule: read_loop.induct)
  case (1 f eof s)
  note prems = "1.prems"
  let ?b = "lb_buf (c_in c)"
  have l: "live f s" using prems by (simp add: live_def)
  obtain a w where a: "sys_recv f 4096 (sv_os s) = (a, w)" by (metis prod.exhaust)
  obtain us where us: "ans_recv (sv_os s) = us @ ans_recv w" "recvd us = (case a of Ret b \<Rightarrow> b | Fail _ \<Rightarrow> [])"
    by (rule sys_recv_used [OF a])
  let ?s0 = "s\<lparr>sv_os := w\<rparr>"
  note st = sys_recv_sent [OF a]
  note gone = read_result_gone [OF prems(1) l prems(6) us(1) _ prems(3) st]
  have e0: "emits {f} s (\<lambda>_. []) ?s0" using emits_os [of w s] st by simp
  have s0: "sv_inv ?s0" "refines ?s0 sp" "sv_conns ?s0 f = Some c" "ins_ok {} ?s0"
    using prems by (simp_all add: inv_os refines_os ins_os)
  consider d where "a = Ret d" "d \<noteq> []" | "a = Ret []" | "a = Fail EINTR" | "a = Fail EAGAIN" "\<not> eof"
    | e where "a = Fail e" "e \<noteq> EINTR" "e = EAGAIN \<longrightarrow> eof" by (cases a) auto
  then show ?case
  proof cases
    case (1 d)
    obtain r' s2 where ll: "line_loop f (recv_into f d ?s0) = (r', s2)" by (metis prod.exhaust)
    have d: "recvd us = d" using us(2) 1 by simp
    have eq: "read_loop f eof s = (if r' then s2 else read_loop f eof s2)"
      using a 1 ll by (simp add: read_loop.simps [of f eof s])
    let ?k = "length (recvd (ans_recv (sv_os (read_loop f eof s))))"
    have tot: "unat (sb_next (sp_book sp)) + length ?b + length d + length (recvd (ans_recv w)) < 2 ^ 32 + ?k"
      using prems(7) us(1) d by (simp add: recvd_append)
    have an: "ans_recv (sv_os s2) = ans_recv w" using line_loop_ans [OF ll] by (simp add: rx_def recv_into_def)
    obtain vs where "ans_recv w = vs @ ans_recv (sv_os (read_loop f eof s))"
      using read_loop_used [of s2 f eof] eq an by (cases r') auto
    then have "?k \<le> length (recvd (ans_recv w))" by (simp add: recvd_append)
    with tot have "unat (sb_next (sp_book sp)) + length (?b @ d) < 2 ^ 32" by simp
    note ch = chunk_refines [OF s0(1,4,3) prems(4) s0(2) this ll]
    then have lr: "lines_result f (?b @ recvd us) r' s sp s2" using lines_result_quiet [OF e0] d by simp
    have us2: "ans_recv (sv_os s) = us @ ans_recv (sv_os s2)" using us(1) ch by simp
    show ?thesis
    proof (cases r')
      case True
      with read_result_shut [OF us2] lr eq show ?thesis by simp
    next
      case nr: False
      with lr have lr': "lines_result f (?b @ recvd us) False s sp s2" by simp
      have "read_result f ?b s sp (read_loop f eof s2)"
      proof (rule read_result_more [OF us2 lr'])
        show "unat (sb_next (sp_book sp)) + length ?b + length (recvd us) + length (recvd (ans_recv (sv_os s2))) < 2 ^ 32 + ?k"
          using tot ch d by simp
      qed (use "1.IH"(1) [OF a [symmetric] 1 ll [symmetric]] nr ch eq in simp)
      with eq nr show ?thesis by simp
    qed
  next
    case 2
    with gone us(2) a show ?thesis by (simp add: read_loop.simps [of f eof s])
  next
    case 3
    then have r0: "recvd us = []" and eq: "read_loop f eof s = read_loop f eof ?s0"
      using us(2) a by (simp_all add: read_loop.simps [of f eof s])
    have "read_result f ?b ?s0 sp (read_loop f eof ?s0)"
      using "1.IH"(2) [OF a [symmetric] 3 refl s0(1,4,3) prems(4,5) s0(2)] prems(7) us r0 by (simp add: recvd_append eq)
    from read_result_quiet [OF _ r0 e0 this] us(1) show ?thesis by (simp add: eq)
  next
    case 4
    then have eq: "read_loop f eof s = ?s0" using a by (subst read_loop.simps) simp
    have "shut f ?s0 \<or> lines ?b = [] \<and> snd (split_nl ?b) = ?b"
      using prems(3,5) by (auto simp: shut_def lines_def split_nl_no_NL)
    then show ?thesis
      unfolding read_result_def eq using us 4 s0 e0
      by (intro exI [of _ us] exI [of _ "[]"] exI [of _ "\<lambda>_. []"] exI [of _ sp]) (auto simp: remains_def intro: spec_inputs.no_input)
  next
    case (5 e)
    with gone us(2) a show ?thesis by (simp add: read_loop.simps [of f eof s])
  qed
qed

lemma readable_event:
  assumes "srv_ok s" and "sv_conns s f = Some c" and "\<not> c_dead c" and "refines s sp"
    and "unat (sb_next (sp_book sp)) + length (lb_buf (c_in c)) + length (recvd (ans_recv (sv_os s)))
      < 2 ^ 32 + length (recvd (ans_recv (sv_os (on_readable f eof s))))"
  shows "read_result f (lb_buf (c_in c)) s sp (on_readable f eof s)"
proof -
  have ok: "sv_inv s" "ins_ok {} s" using assms(1) by (simp_all add: srv_ok_def)
  have "NL \<notin> set (lb_buf (c_in c)) \<or> c_closing c"
    using ok(2) assms(2,3) by (auto simp: ins_ok_def in_ok_def)
  moreover have "on_readable f eof s = read_loop f eof s"
    using assms(2,3) by (simp add: on_readable_def find_live_def)
  ultimately show ?thesis
    using read_loop_refines [OF ok assms(2,3) _ assms(4), of eof] assms(5) by simp
qed

section \<open>The book behind the server\<close>

text \<open>Every change of the exchange is a run of submits and cancels.\<close>

definition book_run :: "Exchange \<Rightarrow> Exchange \<Rightarrow> bool" where
  "book_run ex ex' \<longleftrightarrow> (\<exists>cs. ex' = snd (run_cmds submit cancel cs ex))"

lemma run_cmds_append:
  "snd (run_cmds sub can (cs @ ds) ex) = snd (run_cmds sub can ds (snd (run_cmds sub can cs ex)))"
proof (induction cs arbitrary: ex)
  case Nil
  then show ?case by simp
next
  case (Cons c cs)
  then show ?case by (cases c) (auto simp: Let_def split_def split: sum.splits)
qed

lemma book_run_refl [simp]: "book_run ex ex"
  unfolding book_run_def by (intro exI [of _ "[]"]) simp

lemma book_run_trans: "book_run a b \<Longrightarrow> book_run b c \<Longrightarrow> book_run a c"
  unfolding book_run_def using run_cmds_append by metis

lemma book_run_submit: "submit side inst qty price ow [] ex = (i, ts, ex') \<Longrightarrow> book_run ex ex'"
  unfolding book_run_def by (intro exI [of _ "[Submit side inst qty price ow]"]) simp

lemma book_run_cancel: "cancel i ow ex = Inr ex' \<Longrightarrow> book_run ex ex'"
  unfolding book_run_def by (intro exI [of _ "[Cancel i ow]"]) simp

lemma handle_line_book: "book_run (sv_exch s) (sv_exch (handle_line f line s))"
proof (cases "sv_conns s f")
  case None
  then show ?thesis
    by (auto simp: handle_line_def cmd_login_def cmd_order_def cmd_cancel_def cmd_subscribe_def cmd_quit_def
        with_conn_def Let_def)
next
  case (Some c)
  show ?thesis
    unfolding handle_line_serve [OF Some]
    by (auto simp: serve_def do_login_def do_listen_def cmd_quit_def intro: book_run_submit book_run_cancel
        split: request.splits prod.splits sum.splits)
qed

lemma line_loop_book: "line_loop f s = (r, s') \<Longrightarrow> book_run (sv_exch s) (sv_exch s')"
proof (induction f s rule: line_loop.induct)
  case (1 f s)
  have step: "book_run (sv_exch s) (sv_exch (handle_line f line (upd_conn f k s)))" for line k
    using handle_line_book [of "upd_conn f k s" f line] by simp
  show ?case
    using "1.prems" "1.IH" step
    by (subst (asm) line_loop.simps)
      (fastforce simp: Let_def split: option.splits prod.splits if_splits intro: book_run_trans)
qed

lemma read_loop_book: "book_run (sv_exch s) (sv_exch (read_loop f eof s))"
proof (induction f eof s rule: read_loop.induct)
  case (1 f eof s)
  obtain a w where a: "sys_recv f 4096 (sv_os s) = (a, w)" by (metis prod.exhaust)
  show ?case
  proof (cases a)
    case (Ret b)
    obtain r s1 where ll: "line_loop f (recv_into f b (s\<lparr>sv_os := w\<rparr>)) = (r, s1)" by (metis prod.exhaust)
    have "book_run (sv_exch s) (sv_exch s1)" using line_loop_book [OF ll] by (simp add: recv_into_def)
    with "1.IH"(1) [OF a [symmetric] Ret _ ll [symmetric]] a Ret ll show ?thesis
      by (cases r) (auto simp: read_loop.simps [of f eof s] intro: book_run_trans)
  next
    case (Fail e)
    with "1.IH"(2) [OF a [symmetric] Fail] a show ?thesis
      by (auto simp: read_loop.simps [of f eof s])
  qed
qed

lemma on_accept_exch: "sv_exch (on_accept s) = sv_exch s"
proof (induction s rule: on_accept.induct)
  case (1 s)
  have "sv_exch (accept_conn cfd x) = sv_exch x" for cfd x by (simp add: accept_conn_def Let_def)
  with 1 show ?case by (subst on_accept.simps) (auto split: prod.splits sysret.splits)
qed

lemma step_book: "srv_step s s' \<Longrightarrow> book_run (sv_exch s) (sv_exch s')"
  by (induction rule: srv_step.cases)
    (auto simp: dispatch_def on_accept_exch on_readable_def on_writable_def reap_eq read_loop_book split: option.splits)

lemma reach_book: "srv_reach s \<Longrightarrow> \<exists>cs. sv_exch s = snd (run_cmds submit cancel cs ex_init)"
proof (induction rule: srv_reach.induct)
  case (start ip port w s)
  then show ?case using init_state(5) [OF start(1)] by (intro exI [of _ "[]"]) simp
next
  case (step s s')
  then have "book_run ex_init (sv_exch s)" by (auto simp: book_run_def)
  from book_run_trans [OF this step_book [OF step(2)]] show ?case by (auto simp: book_run_def)
qed

end
