(* ===== verification/Server_Filter.thy ===== *)
theory Server_Filter
  imports Server_Reach
begin

text \<open>
  The write filter of a connection as the kernel has it. The server keeps a flag
  \<open>write_enabled\<close> and tells the kernel about it with \<open>kevent\<close>; here the filter is read off the
  trace of the calls, so that statements about it do not rest on the server's own bookkeeping,
  and the flag is proved to agree with it in every reachable state.
\<close>

section \<open>The filter of a trace\<close>

text \<open>
  What one call does to the write filter of descriptor \<open>f\<close> in the queue \<open>kq\<close>: a change that
  disables or deletes it turns it off, one that adds or enables it turns it on, and closing the
  descriptor removes it. A descriptor that was never registered has none.
\<close>

fun filter_step :: "int \<Rightarrow> fd \<Rightarrow> syscall \<Rightarrow> bool \<Rightarrow> bool" where
  "filter_step kq f (SysKevent k g filt fl) on =
     (if k = kq \<and> g = f \<and> filt = EVFILT_WRITE
      then EV_DISABLE \<notin> set fl \<and> EV_DELETE \<notin> set fl \<and> (EV_ADD \<in> set fl \<or> EV_ENABLE \<in> set fl \<or> on)
      else on)"
| "filter_step kq f (SysClose g) on = (g \<noteq> f \<and> on)"
| "filter_step kq f _ on = on"

definition write_filter :: "int \<Rightarrow> fd \<Rightarrow> syscall list \<Rightarrow> bool" where
  "write_filter kq f cs = fold (filter_step kq f) cs False"

lemma write_filter_snoc [simp]:
  "write_filter kq f (cs @ [c]) = filter_step kq f c (write_filter kq f cs)"
  "write_filter kq f (cs @ [c, d]) = filter_step kq f d (filter_step kq f c (write_filter kq f cs))"
  by (simp_all add: write_filter_def)

lemma write_filter_sends:
  "flush_loop f ob w = (r, ob', w') \<Longrightarrow> write_filter kq g (calls w') = write_filter kq g (calls w)"
proof (induction rule: flush_loop_induct)
  case (stopped ob w a w1 r)
  then show ?case by (cases a) (auto dest!: sys_send_Ret sys_send_Fail)
qed (auto dest!: sys_send_Ret sys_send_Fail)

lemma write_filter_closes:
  "write_filter kq f (cs @ map SysClose ds) = (f \<notin> set ds \<and> write_filter kq f cs)"
proof (induction ds rule: rev_induct)
  case Nil
  then show ?case by simp
next
  case (snoc d ds)
  have "write_filter kq f (cs @ map SysClose (ds @ [d])) = filter_step kq f (SysClose d) (write_filter kq f (cs @ map SysClose ds))"
    by (simp add: write_filter_def)
  with snoc show ?case by auto
qed

section \<open>The flag agrees with the kernel\<close>

definition filters_ok :: "Server \<Rightarrow> bool" where
  "filters_ok s \<longleftrightarrow> (\<forall>f c. sv_conns s f = Some c \<longrightarrow>
     c_fd c = f \<and> c_write_enabled c = write_filter (sv_kq s) f (calls (sv_os s)))"

named_theorems filter_keeps

lemma filters_upd [filter_keeps]:
  "(\<And>c. c_fd (k c) = c_fd c \<and> c_write_enabled (k c) = c_write_enabled c) \<Longrightarrow> filters_ok s \<Longrightarrow> filters_ok (upd_conn f k s)"
  by (auto simp: filters_ok_def)

lemma filters_os:
  "(\<And>g. write_filter (sv_kq s) g (calls w) = write_filter (sv_kq s) g (calls (sv_os s))) \<Longrightarrow> filters_ok s \<Longrightarrow> filters_ok (s\<lparr>sv_os := w\<rparr>)"
  by (simp add: filters_ok_def)

lemma filters_tables [filter_keeps]:
  "filters_ok s \<Longrightarrow> filters_ok (s\<lparr>sv_exch := ex\<rparr>)"
  "filters_ok s \<Longrightarrow> filters_ok (s\<lparr>sv_usernames := us, sv_owner_fd := m\<rparr>)"
  by (simp_all add: filters_ok_def)

lemma filters_close [filter_keeps]: "filters_ok s \<Longrightarrow> filters_ok (close_conn f s)"
  by (auto simp: filters_ok_def close_conn_def split: option.splits)

text \<open>Setting flag and filter together.\<close>

lemma filters_switch:
  assumes "filters_ok s" and "EV_ENABLE \<in> set fl \<longleftrightarrow> b" and "EV_DISABLE \<in> set fl \<longleftrightarrow> \<not> b" and "EV_DELETE \<notin> set fl"
  shows "filters_ok (upd_conn f (\<lambda>c. c\<lparr>c_write_enabled := b\<rparr>)
    (upd_os (\<lambda>w. snd (kq_change (sv_kq s) f EVFILT_WRITE fl w)) s))"
  using assms by (auto simp: filters_ok_def kq_change_frame)

lemma filters_try_flush [filter_keeps]:
  assumes "filters_ok s"
  shows "filters_ok (try_flush f s)"
proof (cases "find_live f s")
  case None
  then have "try_flush f s = s" by (auto simp: find_live_def try_flush_def split: option.splits if_splits)
  with assms show ?thesis by simp
next
  case (Some c)
  then have c: "sv_conns s f = Some c" "\<not> c_dead c" by (auto simp: find_live_def split: option.splits if_splits)
  then have fd: "c_fd c = f" using assms by (simp add: filters_ok_def)
  obtain r ob w where l: "flush_loop f (c_out c) (sv_os s) = (r, ob, w)" by (metis prod_cases3)
  let ?s1 = "upd_conn f (\<lambda>c. c\<lparr>c_out := ob\<rparr>) (s\<lparr>sv_os := w\<rparr>)"
  have 1: "filters_ok ?s1"
    by (intro filters_upd filters_os assms) (simp_all add: write_filter_sends [OF l])
  have "filters_ok (upd_conn f (\<lambda>c. c\<lparr>c_write_enabled := True\<rparr>)
      (upd_os (\<lambda>w. snd (kq_change (sv_kq s) f EVFILT_WRITE [EV_ENABLE] w)) ?s1))"
    "filters_ok (upd_conn f (\<lambda>c. c\<lparr>c_write_enabled := False\<rparr>)
      (upd_os (\<lambda>w. snd (kq_change (sv_kq s) f EVFILT_WRITE [EV_DISABLE] w)) ?s1))"
    using filters_switch [OF 1, of "[EV_ENABLE]" True] filters_switch [OF 1, of "[EV_DISABLE]" False] by simp_all
  with 1 show ?thesis
    using c fd l by (cases r) (simp_all add: try_flush_def Let_def filter_keeps)
qed

section \<open>Handlers\<close>

lemma filters_queue_out [filter_keeps]: "filters_ok s \<Longrightarrow> filters_ok (queue_out f m s)"
  by (auto simp: queue_out_def Let_def split: option.splits intro!: filter_keeps)

lemma filters_notify [filter_keeps]: "filters_ok s \<Longrightarrow> filters_ok (notify_owner ow m s)"
  by (auto simp: notify_owner_def split: option.splits intro!: filter_keeps)

lemma filters_fold: "(\<And>x s. filters_ok s \<Longrightarrow> filters_ok (k x s)) \<Longrightarrow> filters_ok s \<Longrightarrow> filters_ok (fold k xs s)"
  by (induction xs arbitrary: s) simp_all

lemma filters_publish [filter_keeps]: "filters_ok s \<Longrightarrow> filters_ok (publish t s)"
proof -
  have "filters_ok s \<Longrightarrow> filters_ok (publish_to t f s)" for f s
    by (auto simp: publish_to_def split: option.splits intro!: filter_keeps)
  then show "filters_ok s \<Longrightarrow> filters_ok (publish t s)"
    by (auto simp: publish_def Let_def intro!: filters_fold filter_keeps)
qed

lemma filters_commands [filter_keeps]:
  assumes "filters_ok s"
  shows "filters_ok (cmd_login f tk s)" "filters_ok (cmd_order f tk side s)" "filters_ok (cmd_cancel f tk s)"
    "filters_ok (cmd_subscribe f tk on s)" "filters_ok (cmd_quit f s)"
proof -
  have "filters_ok (fold publish ts s')" if "filters_ok s'" for ts s'
    using that by (intro filters_fold filters_publish)
  with assms show "filters_ok (cmd_login f tk s)" "filters_ok (cmd_order f tk side s)" "filters_ok (cmd_cancel f tk s)"
    "filters_ok (cmd_subscribe f tk on s)" "filters_ok (cmd_quit f s)"
    by (simp_all add: cmd_login_def cmd_order_def cmd_cancel_def cmd_subscribe_def cmd_quit_def with_conn_def Let_def
        filter_keeps split: option.split prod.split sum.split)
qed

lemma filters_handle_line [filter_keeps]: "filters_ok s \<Longrightarrow> filters_ok (handle_line f line s)"
  by (simp add: handle_line_def Let_def filter_keeps)

section \<open>Events\<close>

lemma filters_line_loop: "filters_ok s \<Longrightarrow> line_loop f s = (r, s') \<Longrightarrow> filters_ok s'"
proof (induction f s rule: line_loop.induct)
  case (1 f s)
  show ?case
    using "1.prems" "1.IH"
    by (subst (asm) line_loop.simps)
      (auto simp: Let_def filter_keeps split: option.splits prod.splits if_splits)
qed

lemma filters_recv: "sys_recv f n w = (a, w') \<Longrightarrow> write_filter kq g (calls w') = write_filter kq g (calls w)"
  by (auto simp: sys_recv_def split: list.splits sysret.splits)

lemma filters_read_loop: "filters_ok s \<Longrightarrow> filters_ok (read_loop f eof s)"
proof (induction f eof s rule: read_loop.induct)
  case (1 f eof s)
  obtain a w where a: "sys_recv f 4096 (sv_os s) = (a, w)" by (metis prod.exhaust)
  have 0: "filters_ok (s\<lparr>sv_os := w\<rparr>)" by (intro filters_os "1.prems") (rule filters_recv [OF a])
  then have 1: "filters_ok (recv_into f b (s\<lparr>sv_os := w\<rparr>))" for b
    by (simp add: recv_into_def filters_upd)
  obtain r s1 where l: "line_loop f (recv_into f (case a of Ret b \<Rightarrow> b | Fail e \<Rightarrow> []) (s\<lparr>sv_os := w\<rparr>)) = (r, s1)"
    by (metis prod.exhaust)
  from filters_line_loop [OF 1 l] "1.IH" a 0 l show ?case
    by (auto simp: read_loop.simps [of f eof s] filters_close split: sysret.splits bool.splits)
qed

text \<open>
  A new connection: its descriptor is registered with the write filter disabled, whatever an
  earlier connection with the same descriptor has left.
\<close>

lemma filters_nonblocking:
  "write_filter kq g (calls (snd (set_nonblocking f w))) = write_filter kq g (calls w)"
  by (auto simp: set_nonblocking_def split: prod.splits sysret.splits dest!: sys_int_frame)

lemma filters_accept_conn:
  assumes "filters_ok s" and "sv_conns s cfd = None"
  shows "filters_ok (accept_conn cfd s)"
  using assms
  by (auto simp: filters_ok_def accept_conn_def Let_def kq_change_frame filters_nonblocking new_conn_def)

lemma filters_accept: "sys_accept f w = (a, w') \<Longrightarrow> write_filter kq g (calls w') = write_filter kq g (calls w)"
  by (auto simp: sys_accept_def split: list.splits)

lemma filters_on_accept: "srv_ok s \<Longrightarrow> filters_ok s \<Longrightarrow> filters_ok (on_accept s)"
proof (induction s rule: on_accept.induct)
  case (1 s)
  obtain a w where a: "sys_accept (sv_lfd s) (sv_os s) = (a, w)" by (metis prod.exhaust)
  have 0: "filters_ok (s\<lparr>sv_os := w\<rparr>)" by (intro filters_os "1.prems") (rule filters_accept [OF a])
  show ?case
  proof (cases a)
    case (Ret cfd)
    have new: "sv_conns (s\<lparr>sv_os := w\<rparr>) cfd = None" using accept_turn(1) [OF "1.prems"(1)] a Ret by simp
    from "1.IH"(1) [OF a [symmetric] Ret] accept_turn(2) [OF "1.prems"(1)] filters_accept_conn [OF 0 new] a Ret show ?thesis
      by (simp add: on_accept.simps [of s])
  next
    case (Fail e)
    with "1.IH"(2) [OF a [symmetric] Fail] accept_none [OF "1.prems"(1)] 0 a show ?thesis
      by (simp add: on_accept.simps [of s])
  qed
qed

lemma filters_dispatch: "srv_ok s \<Longrightarrow> filters_ok s \<Longrightarrow> filters_ok (dispatch ev s)"
  by (simp add: dispatch_def on_readable_def on_writable_def filters_on_accept filters_read_loop filters_try_flush
      split: option.split)

lemma filters_reap: "filters_ok s \<Longrightarrow> filters_ok (reap s)"
  by (auto simp: filters_ok_def reap_eq write_filter_closes split: if_splits)

lemma filters_reach: "srv_reach s \<Longrightarrow> filters_ok s"
proof (induction rule: srv_reach.induct)
  case (start ip port w s)
  then show ?case using init_state [OF start(1)] by (simp add: filters_ok_def)
next
  case (step s s')
  from step.hyps(2) show ?case
  proof cases
    case (kernel w)
    with step.IH show ?thesis by (simp add: filters_ok_def)
  next
    case (event ev)
    with step.IH reach_ok [OF step.hyps(1)] show ?thesis by (simp add: filters_dispatch)
  next
    case turn_end
    with step.IH show ?thesis by (simp add: filters_reap)
  qed
qed

end
