(* ===== verification/Server_Props.thy ===== *)
theory Server_Props
  imports Session_Run Server_Filter
begin

text \<open>
  What holds of the server in every state it can reach, whatever its clients send and the
  kernel answers: who is registered, flow control, bounds on buffered input, the identity of
  clients over time, and the end of a turn.
\<close>

section \<open>A small run\<close>

text \<open>
  The server listens on descriptor 3 with kqueue 4 and accepts descriptors 7 and 8. The first
  client logs in, places an order and sends the beginning of another line; the second
  subscribes. The state is computed from the definitions.
\<close>

definition demo_os :: os where
  "demo_os = \<lparr>ans_send = [Ret 100, Ret 100, Ret 100],
     ans_recv = [Ret (''LOGIN alice'' @ [NL] @ ''SELL JNST 5 100'' @ [NL] @ ''BUY JN''), Fail EAGAIN,
       Ret (''SUBSCRIBE JNST'' @ [NL]), Fail EAGAIN],
     ans_accept = [Ret 7, Ret 8, Fail EAGAIN],
     ans_int = [Ret 3, Ret 0, Ret 1, Ret 0, Ret 2, Ret 0, Ret 0, Ret 4, Ret 0,
       Ret 2, Ret 0, Ret 0, Ret 0, Ret 2, Ret 0, Ret 0, Ret 0],
     bucket_order = (\<lambda>_ ks. ks), calls = []\<rparr>"

definition demo_s0 :: Server where
  "demo_s0 = snd (init (server_new ''127.0.0.1'' 5000 demo_os))"

definition readable :: "fd \<Rightarrow> kev" where
  "readable f = \<lparr>ev_ident = f, ev_filt = EVFILT_READ, ev_eof = False\<rparr>"

definition demo_m :: Server where
  "demo_m = dispatch (readable 7) (dispatch (readable 3) demo_s0)"

definition demo_s1 :: Server where
  "demo_s1 = dispatch (readable 8) demo_m"

definition demo_conn :: "fd \<Rightarrow> owner \<Rightarrow> Role \<Rightarrow> string \<Rightarrow> (int \<Rightarrow> bool) \<Rightarrow> string \<Rightarrow> Conn" where
  "demo_conn f ow r u subs b = \<lparr>c_fd = f, c_owner_id = ow, c_role = r, c_username = u, c_subs = subs,
     c_in = \<lparr>lb_buf = b\<rparr>, c_out = \<lparr>ob_data = [], ob_off = 0\<rparr>, c_write_enabled = False,
     c_closing = False, c_dead = False\<rparr>"

definition demo_ask :: Order where
  "demo_ask = \<lparr>o_id = 0, o_side = Sell, o_inst = 0, o_price = 100, o_remaining = 5, o_owner = 1\<rparr>"

definition demo_state :: "syscall list \<Rightarrow> Server" where
  "demo_state cs = \<lparr>sv_ip = ''127.0.0.1'', sv_port = 5000, sv_lfd = 3, sv_kq = 4, sv_next_owner = 3,
     sv_conns = [7 \<mapsto> demo_conn 7 1 Trader ''alice'' (\<lambda>_. False) ''BUY JN'',
                 8 \<mapsto> demo_conn 8 2 MarketData [] ((\<lambda>_. False)(0 := True)) []],
     sv_keys = [7, 8], sv_owner_fd = [1 \<mapsto> 7], sv_usernames = {''alice''}, sv_dead = [],
     sv_exch = \<lparr>ex_next_id = 1, ex_orders = [0 \<mapsto> demo_ask],
       ex_books = (\<lambda>_ _ _. None)(0 := (\<lambda>_ _. None)(1 := [100 \<mapsto> [0]]))\<rparr>,
     sv_os = \<lparr>ans_send = [], ans_recv = [], ans_accept = [], ans_int = [],
       bucket_order = (\<lambda>_ ks. ks), calls = cs\<rparr>\<rparr>"

lemmas server_eval = server_new_def sys_int_def set_nonblocking_def Let_def log_call_def kq_change_def
  upd_os_def O_NONBLOCK_def init_def make_listen_socket_def dispatch_def on_readable_def on_accept.simps
  find_live_def read_loop.simps line_loop.simps next_line_def strip_cr_def sys_recv_def sys_accept_def
  accept_conn_def new_conn_def recv_into_def lb_append_def lb_init_def split_ws_tokens tokens.simps is_ws_def
  handle_line_def cmd_login_def cmd_order_def cmd_subscribe_def cmd_cancel_def cmd_quit_def with_conn_def
  queue_out_def try_flush_def flush_loop.simps sys_send_def ob_push_def ob_consume_def ob_empty_def ob_ptr_def
  ob_pending_def ob_len_def ob_init_def kMaxOutBytes_def kMaxLine_def upd_conn_def msg_ok_def
  instrument_index_def kInstruments_def parse_u32_def is_digit_def strtoull_def dec_val_def digit_val_def
  kMinValue_def kMaxValue_def msg_order_accepted_def to_string_def dec_digits.simps submit_eval

lemma demo_s0_eval:
  "init (server_new ''127.0.0.1'' 5000 demo_os) = (True, demo_s0)" "sv_lfd demo_s0 = 3"
  "accepts (ans_accept (sv_os demo_s0)) = [7, 8]"
  by (simp_all add: prod_eq_iff demo_s0_def demo_os_def server_eval)

lemma demo_s1_eq: "\<exists>cs. demo_s1 = demo_state cs"
  by (simp add: demo_s1_def demo_m_def demo_s0_def demo_os_def readable_def server_eval demo_state_def demo_conn_def demo_ask_def)

lemma demo_s1_fields:
  "sv_conns demo_s1 = [7 \<mapsto> demo_conn 7 1 Trader ''alice'' (\<lambda>_. False) ''BUY JN'',
     8 \<mapsto> demo_conn 8 2 MarketData [] ((\<lambda>_. False)(0 := True)) []]"
  "sv_usernames demo_s1 = {''alice''}" "sv_dead demo_s1 = []" "sv_lfd demo_s1 = 3" "sv_next_owner demo_s1 = 3"
  "sv_exch demo_s1 = \<lparr>ex_next_id = 1, ex_orders = [0 \<mapsto> demo_ask],
     ex_books = (\<lambda>_ _ _. None)(0 := (\<lambda>_ _. None)(1 := [100 \<mapsto> [0]]))\<rparr>"
proof -
  obtain cs where e: "demo_s1 = demo_state cs" using demo_s1_eq by blast
  show "sv_conns demo_s1 = [7 \<mapsto> demo_conn 7 1 Trader ''alice'' (\<lambda>_. False) ''BUY JN'',
      8 \<mapsto> demo_conn 8 2 MarketData [] ((\<lambda>_. False)(0 := True)) []]"
    "sv_usernames demo_s1 = {''alice''}" "sv_dead demo_s1 = []" "sv_lfd demo_s1 = 3" "sv_next_owner demo_s1 = 3"
    "sv_exch demo_s1 = \<lparr>ex_next_id = 1, ex_orders = [0 \<mapsto> demo_ask],
       ex_books = (\<lambda>_ _ _. None)(0 := (\<lambda>_ _. None)(1 := [100 \<mapsto> [0]]))\<rparr>"
    unfolding e by (simp_all add: demo_state_def)
qed

lemma demo_m_eq: "\<exists>cs. demo_m = (demo_state cs)\<lparr>
    sv_conns := [8 \<mapsto> demo_conn 8 2 Unknown [] (\<lambda>_. False) [], 7 \<mapsto> demo_conn 7 1 Trader ''alice'' (\<lambda>_. False) ''BUY JN''],
    sv_os := \<lparr>ans_send = [Ret 100], ans_recv = [Ret (''SUBSCRIBE JNST'' @ [NL]), Fail EAGAIN], ans_accept = [],
      ans_int = [], bucket_order = (\<lambda>_ ks. ks), calls = cs\<rparr>\<rparr>"
  by (simp add: demo_m_def demo_s0_def demo_os_def readable_def server_eval demo_state_def demo_conn_def demo_ask_def)

lemma demo_m_fields:
  "sv_conns demo_m = [8 \<mapsto> demo_conn 8 2 Unknown [] (\<lambda>_. False) [], 7 \<mapsto> demo_conn 7 1 Trader ''alice'' (\<lambda>_. False) ''BUY JN'']"
  "ans_recv (sv_os demo_m) = [Ret (''SUBSCRIBE JNST'' @ [NL]), Fail EAGAIN]" "sv_lfd demo_m = 3"
  "sv_exch demo_m = sv_exch demo_s1"
proof -
  obtain cs where e: "demo_m = (demo_state cs)\<lparr>
    sv_conns := [8 \<mapsto> demo_conn 8 2 Unknown [] (\<lambda>_. False) [], 7 \<mapsto> demo_conn 7 1 Trader ''alice'' (\<lambda>_. False) ''BUY JN''],
    sv_os := \<lparr>ans_send = [Ret 100], ans_recv = [Ret (''SUBSCRIBE JNST'' @ [NL]), Fail EAGAIN], ans_accept = [],
      ans_int = [], bucket_order = (\<lambda>_ ks. ks), calls = cs\<rparr>\<rparr>"
    using demo_m_eq by blast
  show "sv_conns demo_m = [8 \<mapsto> demo_conn 8 2 Unknown [] (\<lambda>_. False) [], 7 \<mapsto> demo_conn 7 1 Trader ''alice'' (\<lambda>_. False) ''BUY JN'']"
    "ans_recv (sv_os demo_m) = [Ret (''SUBSCRIBE JNST'' @ [NL]), Fail EAGAIN]" "sv_lfd demo_m = 3"
    "sv_exch demo_m = sv_exch demo_s1"
    unfolding e demo_s1_fields by (simp_all add: demo_state_def)
qed

lemma demo_reach0: "srv_reach demo_s0"
proof (rule srv_reach.start [OF demo_s0_eval(1)])
  show "fresh_ok demo_s0"
    using init_state [OF demo_s0_eval(1)] by (simp add: fresh_ok_def demo_s0_eval)
qed

lemma demo_srv_reach: "srv_reach demo_s1" "srv_reach demo_m"
  unfolding demo_s1_def demo_m_def by (intro srv_reach.step [OF _ srv_step.event] demo_reach0)+

section \<open>Registration\<close>

text \<open>
  Owner ids as the code has them: \<open>next_owner_\<close> and \<open>owner_id\<close> are of type \<open>int\<close>, 32 bits, and the
  increment that would leave the type is undefined. The statements that compare owner ids compare
  these 32 bits and are about states before that increment, \<open>sv_next_owner s < 2 ^ 31\<close>.
\<close>

definition owner32 :: "owner \<Rightarrow> 32 word" where
  "owner32 ow = word_of_int ow"

lemma owner32_inj:
  assumes "owner32 a = owner32 b" and "0 \<le> a" and "a < 2 ^ 31" and "0 \<le> b" and "b < 2 ^ 31"
  shows "a = b"
proof -
  have "uint (owner32 x) = x" if "0 \<le> x" "x < 2 ^ 31" for x
    using that by (simp add: owner32_def uint_word_of_int)
  with assms show ?thesis by metis
qed

text \<open>
  C9: in every reachable state before the counter of owner ids leaves the type \<open>int\<close>, \<open>usernames_\<close>
  holds exactly the names of the live traders and no two of them share a name; \<open>owner_fd_\<close> maps
  an owner id to a descriptor exactly when that descriptor is a live trader with that id; \<open>dead_\<close>
  lists exactly the connections marked dead, each once; no two connections share a (32-bit) owner
  id; and every resting order belongs to an owner id that has been handed out (from 1 up to the
  counter), which no connection has that is not a trader.
\<close>

theorem server_registry:
  assumes "srv_reach s" and "sv_next_owner s < 2 ^ 31"
  shows "(u \<in> sv_usernames s \<longleftrightarrow>
        (\<exists>f c. sv_conns s f = Some c \<and> \<not> c_dead c \<and> c_role c = Trader \<and> c_username c = u))
    \<and> (sv_conns s f = Some c \<longrightarrow> sv_conns s g = Some c' \<longrightarrow> \<not> c_dead c \<longrightarrow> \<not> c_dead c' \<longrightarrow>
        c_role c = Trader \<longrightarrow> c_role c' = Trader \<longrightarrow> c_username c = c_username c' \<longrightarrow> f = g)
    \<and> (sv_owner_fd s ow = Some f \<longleftrightarrow>
        (\<exists>c. sv_conns s f = Some c \<and> \<not> c_dead c \<and> c_role c = Trader \<and> c_owner_id c = ow))
    \<and> distinct (sv_dead s) \<and> (f \<in> set (sv_dead s) \<longleftrightarrow> (\<exists>c. sv_conns s f = Some c \<and> c_dead c))
    \<and> (sv_conns s f = Some c \<longrightarrow> sv_conns s g = Some c' \<longrightarrow> owner32 (c_owner_id c) = owner32 (c_owner_id c') \<longrightarrow> f = g)
    \<and> (sv_conns s f = Some c \<longrightarrow> 1 \<le> c_owner_id c \<and> c_owner_id c < sv_next_owner s)
    \<and> (ex_orders (sv_exch s) i = Some r \<longrightarrow> 1 \<le> o_owner r \<and> o_owner r < sv_next_owner s)
    \<and> (ex_orders (sv_exch s) i = Some r \<longrightarrow> sv_conns s f = Some c \<longrightarrow> c_owner_id c = o_owner r \<longrightarrow> c_role c = Trader)"
proof -
  have inv: "sv_inv s" using reach_ok [OF assms(1)] by (simp add: srv_ok_def)
  then have ids: "ids_inj (view s)" "names_ok (view s) (sv_usernames s)" "dead_ok (view s) (sv_dead s)"
    by (simp_all add: inv_except_def ids_ok_def)
  have v: "view s h = Some (a, b, n, d) \<longleftrightarrow>
      (\<exists>c. sv_conns s h = Some c \<and> c_owner_id c = a \<and> c_role c = b \<and> c_username c = n \<and> c_dead c = d)" for h a b n d
    by (auto simp: view_def ident_def)
  have ow: "1 \<le> c_owner_id c \<and> c_owner_id c < sv_next_owner s" if "sv_conns s h = Some c" for h c
    using inv_owner [OF inv that] by simp
  have "u \<in> sv_usernames s \<longleftrightarrow> (\<exists>f ow. view s f = Some (ow, Trader, u, False))"
    using ids(2) unfolding names_ok_def by blast
  moreover have "f = g" if "sv_conns s f = Some c" "sv_conns s g = Some c'" "\<not> c_dead c" "\<not> c_dead c'"
    "c_role c = Trader" "c_role c' = Trader" "c_username c = c_username c'"
    using that ids(2) v unfolding names_ok_def by metis
  moreover have "f = g" if c: "sv_conns s f = Some c" "sv_conns s g = Some c'" "owner32 (c_owner_id c) = owner32 (c_owner_id c')"
  proof -
    have "c_owner_id c = c_owner_id c'" by (rule owner32_inj [OF c(3)]) (use ow c(1,2) assms(2) in force)+
    with c(1,2) ids(1) show ?thesis unfolding ids_inj_def view_def ident_def by fastforce
  qed
  moreover have "distinct (sv_dead s)" "f \<in> set (sv_dead s) \<longleftrightarrow> (\<exists>a b n. view s f = Some (a, b, n, True))"
    using ids(3) by (simp_all add: dead_ok_def)
  moreover have "owned (view s) (sv_next_owner s) (o_owner r)" if "ex_orders (sv_exch s) i = Some r"
    using inv that by (simp add: inv_except_def orders_owned_def)
  then have "ex_orders (sv_exch s) i = Some r \<longrightarrow> 1 \<le> o_owner r \<and> o_owner r < sv_next_owner s"
    "ex_orders (sv_exch s) i = Some r \<longrightarrow> sv_conns s f = Some c \<longrightarrow> c_owner_id c = o_owner r \<longrightarrow> c_role c = Trader"
    unfolding owned_def view_def ident_def by fastforce+
  ultimately show ?thesis
    using ow by (simp only: v inv_owner_fd [OF inv]) blast
qed

theorem server_registry_witness:
  "(\<exists>f c. sv_conns demo_s1 f = Some c \<and> \<not> c_dead c \<and> c_role c = Trader \<and> c_username c = ''alice'')
    \<and> ex_orders (sv_exch demo_s1) 0 = Some demo_ask \<and> o_owner demo_ask < sv_next_owner demo_s1"
proof -
  have "''alice'' \<in> sv_usernames demo_s1" "sv_next_owner demo_s1 < 2 ^ 31" "ex_orders (sv_exch demo_s1) 0 = Some demo_ask"
    by (simp_all add: demo_s1_fields)
  with server_registry [OF demo_srv_reach(1), of "''alice''" _ _ _ _ _ 0 demo_ask] show ?thesis by simp
qed

section \<open>Flow control\<close>

text \<open>
  C13: backpressure: on every live connection of a reachable state the write filter, as the
  \<open>kevent\<close> calls the server has made set it, is enabled exactly when bytes are pending, the flag
  \<open>write_enabled\<close> says so too, at most 8 MiB are pending, at most 4096 consumed bytes are
  retained, and a connection that is closing has something left to drain.
\<close>

theorem server_flow_control:
  assumes "srv_reach s" and "sv_conns s f = Some c" and "\<not> c_dead c"
  shows "(write_filter (sv_kq s) f (calls (sv_os s)) \<longleftrightarrow> ob_ptr (c_out c) \<noteq> [])
    \<and> (c_write_enabled c \<longleftrightarrow> ob_ptr (c_out c) \<noteq> []) \<and> length (ob_ptr (c_out c)) \<le> 8388608
    \<and> ob_off (c_out c) \<le> 4096 \<and> (c_closing c \<longrightarrow> ob_ptr (c_out c) \<noteq> [])"
proof -
  have "sv_inv s" using reach_ok [OF assms(1)] by (simp add: srv_ok_def)
  with assms(2,3) have f: "ob_inv (c_out c)" "c_write_enabled c \<longleftrightarrow> \<not> ob_empty (c_out c)"
    "ob_pending (c_out c) \<le> kMaxOutBytes" "c_closing c \<longrightarrow> \<not> ob_empty (c_out c)"
    by (auto simp: inv_except_def flows_ok_def flow_ok_def)
  moreover have "ob_empty (c_out c) \<longleftrightarrow> ob_ptr (c_out c) = []" "ob_pending (c_out c) = length (ob_ptr (c_out c))"
    "ob_off (c_out c) \<le> 4096"
    using f(1) by (auto simp: ob_empty_def ob_ptr_def ob_pending_def ob_len_def ob_inv_def)
  moreover have "c_write_enabled c = write_filter (sv_kq s) f (calls (sv_os s))"
    using filters_reach [OF assms(1)] assms(2) by (simp add: filters_ok_def)
  ultimately show ?thesis by (simp add: kMaxOutBytes_def)
qed

text \<open>
  C14: output is delivered: when a live connection becomes writable and its socket takes what is
  pending, in portions of any size and with any interruptions, exactly the pending bytes go
  out in order, the queue is empty, the write filter is off after the \<open>kevent\<close> calls made, and
  the connection is closed if and only if it was closing.
\<close>

theorem writable_drains:
  assumes "srv_reach s" and "sv_conns s f = Some c" and "\<not> c_dead c"
    and "willing (length (ob_ptr (c_out c))) (ans_send (sv_os s))"
  shows "\<exists>c' cs. sv_conns (on_writable f s) f = Some c' \<and> ob_ptr (c_out c') = [] \<and> \<not> c_write_enabled c'
    \<and> \<not> write_filter (sv_kq s) f (calls (sv_os (on_writable f s)))
    \<and> c_dead c' = c_closing c \<and> calls (sv_os (on_writable f s)) = calls (sv_os s) @ cs
    \<and> sent f cs = ob_ptr (c_out c)"
proof -
  have inv: "sv_inv s" using reach_ok [OF assms(1)] by (simp add: srv_ok_def)
  have c: "c_fd c = f" "ob_inv (c_out c)" using inv_connD [OF inv assms(2)] by simp_all
  obtain r ob w where fl: "flush_loop f (c_out c) (sv_os s) = (r, ob, w)" by (metis prod_cases3)
  from flush_drains [OF this c(2)] assms(4) c(2) have r: "r = Drained" by (simp add: ob.pending_bytes)
  obtain cs where cs: "calls w = calls (sv_os s) @ cs" "sent f cs @ ob_ptr ob = ob_ptr (c_out c)" "ob_ptr ob = []"
    using flush_loop_spec [OF fl c(2)] r by (auto simp: ob.is_empty_bytes)
  have "on_writable f s = try_flush f s" using assms(2,3) by (simp add: on_writable_def find_live_def)
  moreover have "\<exists>e. calls (sv_os (try_flush f s)) = calls w @ e \<and> sent f e = []"
    using assms(2,3) c(1) fl r
    by (simp add: try_flush_def Let_def upd_conn_def upd_os_def close_conn_def kq_change_frame)
  moreover have "\<exists>c'. sv_conns (try_flush f s) f = Some c' \<and> c_out c' = ob \<and> \<not> c_write_enabled c' \<and> c_dead c' = c_closing c"
    "sv_kq (try_flush f s) = sv_kq s"
    using assms(2,3) c(1) fl r by (simp_all add: try_flush_def Let_def upd_conn_def upd_os_def close_conn_def)
  moreover have "filters_ok (try_flush f s)" by (rule filters_try_flush [OF filters_reach [OF assms(1)]])
  ultimately show ?thesis using cs by (auto simp: filters_ok_def)
qed

section \<open>Buffered input\<close>

text \<open>
  C21: between events no connection that is still served has a complete line waiting in its
  buffer, and at most 65536 bytes of an incomplete one: every line received has been handled,
  and a longer one has been refused.
\<close>

theorem server_input_bounded:
  assumes "srv_reach s" and "sv_conns s f = Some c" and "\<not> c_dead c" and "\<not> c_closing c"
  shows "NL \<notin> set (lb_buf (c_in c)) \<and> lb_size (c_in c) \<le> 65536"
  using reach_ok [OF assms(1)] assms(2-)
  by (auto simp: srv_ok_def ins_ok_def in_ok_def lb_size_def kMaxLine_def)

theorem server_input_bounded_witness:
  "\<exists>c. sv_conns demo_s1 7 = Some c \<and> lb_buf (c_in c) = ''BUY JN'' \<and> NL \<notin> set (lb_buf (c_in c))"
proof -
  have c: "sv_conns demo_s1 7 = Some (demo_conn 7 1 Trader ''alice'' (\<lambda>_. False) ''BUY JN'')"
    by (simp add: demo_s1_fields)
  with server_input_bounded [OF demo_srv_reach(1) c] show ?thesis by (simp add: demo_conn_def)
qed

section \<open>Clients over time\<close>

text \<open>
  C15: an owner id denotes one client for as long as the counter of owner ids has not left the type
  \<open>int\<close>: if a connection of a later state has the (32-bit) owner id of a connection of an earlier
  one, it sits at the same descriptor, keeps the role and the
  name it had taken, and is dead or closing if it was. In particular a recycled descriptor
  never inherits orders or a role.
\<close>

theorem owner_identity:
  assumes "srv_reach s" and "srv_step\<^sup>*\<^sup>* s s'" and "sv_conns s f = Some c" and "sv_conns s' g = Some c'"
    and "owner32 (c_owner_id c') = owner32 (c_owner_id c)" and "sv_next_owner s' < 2 ^ 31"
  shows "g = f \<and> (c_role c \<noteq> Unknown \<longrightarrow> c_role c' = c_role c \<and> c_username c' = c_username c)
    \<and> (c_dead c \<longrightarrow> c_dead c') \<and> (c_closing c \<longrightarrow> c_closing c')"
proof -
  have inv: "sv_inv s" using reach_ok [OF assms(1)] by (simp add: srv_ok_def)
  have "srv_reach s'" using reach_steps [OF assms(2,1)] .
  then have "sv_inv s'" using reach_ok by (simp add: srv_ok_def)
  note ow = inv_owner [OF inv assms(3)] inv_owner [OF this assms(4)]
  note later = steps_later [OF assms(2,1)]
  then have "sv_next_owner s \<le> sv_next_owner s'" by (simp add: later_def)
  then have eq: "c_owner_id c' = c_owner_id c" by (intro owner32_inj [OF assms(5)]) (use ow assms(6) in auto)
  then have "c_owner_id c' < sv_next_owner s" using ow by simp
  then obtain x where x: "sv_conns s g = Some x" "conn_evo x c'"
    using later assms(4) unfolding later_def by force
  then have "c_owner_id x = c_owner_id c" using eq by (simp add: conn_evo_def)
  moreover have "ids_inj (view s)" using inv by (simp add: inv_except_def ids_ok_def)
  ultimately have "g = f" using x(1) assms(3) unfolding ids_inj_def view_def ident_def by fastforce
  with x assms(3) show ?thesis by (auto simp: conn_evo_def)
qed

theorem owner_identity_witness:
  "\<exists>c c'. sv_conns demo_m 7 = Some c \<and> sv_conns demo_s1 7 = Some c' \<and> c_role c = Trader
    \<and> c_role c' = c_role c \<and> c_username c' = c_username c"
proof -
  let ?c = "demo_conn 7 1 Trader ''alice'' (\<lambda>_. False) ''BUY JN''"
  have st: "srv_step\<^sup>*\<^sup>* demo_m demo_s1" unfolding demo_s1_def by (rule r_into_rtranclp) (rule srv_step.event)
  have c: "sv_conns demo_m 7 = Some ?c" by (simp add: demo_m_fields)
  have c': "sv_conns demo_s1 7 = Some ?c" by (simp add: demo_s1_fields)
  from owner_identity [OF demo_srv_reach(2) st c c' refl] c c' show ?thesis
    by (simp add: demo_conn_def demo_s1_fields)
qed

section \<open>The end of a turn\<close>

text \<open>
  C22: a turn of the loop over a batch of events leaves no dead connection behind: the
  connections that the batch (its first 64 events) closed are erased, each of their descriptors
  is closed exactly once, after everything else the turn does, and every other connection and
  the whole book are left as the handlers left them. An interrupted wait changes nothing and
  any other failure of the wait ends the loop.
\<close>

theorem turn_reaps:
  assumes "srv_reach s"
  shows "(\<exists>s' ds. run_turn (Ret evs) s = Some s' \<and> sv_dead s' = []
      \<and> calls (sv_os s') = calls (sv_os (fold dispatch (take 64 evs) s)) @ map SysClose ds \<and> distinct ds
      \<and> (\<forall>f. sv_conns s' f = (case sv_conns (fold dispatch (take 64 evs) s) f of
            None \<Rightarrow> None | Some c \<Rightarrow> if c_dead c then None else Some c))
      \<and> set ds = {f. \<exists>c. sv_conns (fold dispatch (take 64 evs) s) f = Some c \<and> c_dead c}
      \<and> sv_exch s' = sv_exch (fold dispatch (take 64 evs) s))
    \<and> run_turn (Fail EINTR) s = Some s \<and> run_turn (Fail ECONNRESET) s = None"
proof -
  let ?b = "fold dispatch (take 64 evs) s"
  have "sv_inv ?b" using batch_ok [OF reach_ok [OF assms]] by (simp add: srv_ok_def)
  then have d: "distinct (sv_dead ?b)"
    "f \<in> set (sv_dead ?b) \<longleftrightarrow> (\<exists>c. sv_conns ?b f = Some c \<and> c_dead c)" for f
    by (auto simp: inv_except_def ids_ok_def dead_ok_def view_def ident_def)
  show ?thesis
    using d by (auto simp: run_turn_def reap_eq split: option.splits)
qed

theorem turn_reaps_witness:
  "\<exists>s'. run_turn (Ret [readable 7]) demo_s1 = Some s' \<and> sv_dead s' = []"
  using turn_reaps [OF demo_srv_reach(1), of "[readable 7]"] by blast

section \<open>What the clients see\<close>

text \<open>
  The book behind the server is the specified one: the exchange of every reachable server is
  the result of a session of submits and cancels, and as long as that session has fewer than
  \<open>2^32\<close> submits it represents the arrival-ordered book of the specification after the same
  session.
\<close>

lemma server_book:
  assumes "srv_reach s"
  shows "\<exists>cs. sv_exch s = snd (run_cmds submit cancel cs ex_init)
    \<and> (length (filter is_submit cs) < 2 ^ 32 \<longrightarrow> represents (sv_exch s) (snd (spec_run cs spec_init)))"
proof -
  obtain cs where cs: "sv_exch s = snd (run_cmds submit cancel cs ex_init)" using reach_book [OF assms] by blast
  moreover have "represents (sv_exch s) (snd (spec_run cs spec_init))" if "length (filter is_submit cs) < 2 ^ 32"
    using eng.run_refines [OF represents_init, of cs] that cs by (auto simp: spec_init_def)
  ultimately show ?thesis by blast
qed

text \<open>The specification's view of the demonstration state.\<close>

definition demo_sp :: spec_server where
  "demo_sp = \<lparr>sp_sess = abs_sess demo_s1, sp_book = \<lparr>sb_next = 1, sb_rest = [demo_ask]\<rparr>\<rparr>"

lemma demo_refines: "refines demo_s1 demo_sp"
  by (auto simp: refines_def demo_sp_def represents_def demo_s1_fields demo_ask_def orders_ok_def index_def
      level_def at_level_def side_idx_def fun_eq_iff)

text \<open>
  C3: the command layer: on a live connection \<open>handle_line\<close> does what the session specification
  says. Every client that still lives has received exactly the bytes the specification sends
  it (so the acceptance precedes the executions, both parties of every trade and every
  subscriber are told once, and a refusal goes to the sender alone), a client that was closed
  received a prefix of them, only clients with something to receive or the one that quits are
  closed, the book follows the specification, and every session is as prescribed.
\<close>

theorem handle_line_refines:
  assumes "sv_inv s" and "live f s" and "refines s sp" and "sb_next (sp_book sp) + 1 \<noteq> 0"
    and "spec_line f line sp = (sp', out)"
  shows "\<exists>F. (F = {} \<or> F = {f}) \<and> emits F s out (handle_line f line s)
    \<and> represents (sv_exch (handle_line f line s)) (sp_book sp')
    \<and> (\<forall>g. live g (handle_line f line s) \<longrightarrow> abs_sess (handle_line f line s) g = sp_sess sp' g)"
  using handle_line_simulates [OF assms] by (auto simp: carries_out_def)

theorem handle_line_refines_witness:
  "\<exists>sp' out. spec_line 7 ''BUY JNST 2 100'' demo_sp = (sp', out)
    \<and> out 7 = msg_order_accepted 1 @ msg_bought 0 2 100 @ msg_sold 0 2 100 \<and> out 8 = msg_trade 0 2 100
    \<and> represents (sv_exch (handle_line 7 ''BUY JNST 2 100'' demo_s1)) (sp_book sp')"
proof -
  obtain sp' out where l: "spec_line 7 ''BUY JNST 2 100'' demo_sp = (sp', out)" by (metis prod.exhaust)
  have ok: "sv_inv demo_s1" "live 7 demo_s1"
    using reach_ok [OF demo_srv_reach(1)] by (simp_all add: srv_ok_def live_def demo_s1_fields demo_conn_def)
  have nw: "sb_next (sp_book demo_sp) + 1 \<noteq> 0" by (simp add: demo_sp_def)
  have "out = snd (spec_line 7 ''BUY JNST 2 100'' demo_sp)" using l by simp
  then have "out 7 = msg_order_accepted 1 @ msg_bought 0 2 100 @ msg_sold 0 2 100 \<and> out 8 = msg_trade 0 2 100"
    by (simp add: spec_line_def demo_sp_def abs_sess_def demo_s1_fields demo_conn_def sess_of_def tokens.simps is_ws_def
        request_def for_trader_def req_order_def kInstruments_def parse_u32_def is_digit_def strtoull_def dec_val_def
        digit_val_def kMinValue_def kMaxValue_def instrument_index_def perform_def spec_submit_def crosses_def
        demo_ask_def mk_trade_def news_def trades_as_def listens_def)
  with l handle_line_refines [OF ok demo_refines nw l] show ?thesis by blast
qed

text \<open>
  C4: a readable event, end to end: the buffered bytes and the bytes the kernel delivers are cut
  into lines, and the server treats these lines, in order and each once, as the session
  specification says, possibly interrupted by the report of an overlong line or the client's
  departure; what has not been treated is still in the buffer, and unless the connection is
  then closed or closing all lines have been treated and only the unfinished rest is kept.
\<close>

theorem readable_refines:
  assumes "srv_reach s" and "sv_conns s f = Some c" and "\<not> c_dead c" and "refines s sp"
    and "unat (sb_next (sp_book sp)) + length (lb_buf (c_in c)) + length (recvd (ans_recv (sv_os s))) < 2 ^ 32"
  shows "\<exists>used ins out sp' c'. ans_recv (sv_os s) = used @ ans_recv (sv_os (on_readable f eof s))
    \<and> spec_inputs f sp ins out sp' \<and> refines (on_readable f eof s) sp' \<and> emits {f} s out (on_readable f eof s)
    \<and> sv_conns (on_readable f eof s) f = Some c'
    \<and> lines (lb_buf (c_in c) @ recvd used) = lines_of ins @ lines (lb_buf (c_in c'))
    \<and> snd (split_nl (lb_buf (c_in c) @ recvd used)) = snd (split_nl (lb_buf (c_in c')))
    \<and> (c_dead c' \<or> c_closing c' \<or> ins = map Line (lines (lb_buf (c_in c) @ recvd used))
        \<and> lb_buf (c_in c') = snd (split_nl (lb_buf (c_in c) @ recvd used)))"
proof -
  have "read_result f (lb_buf (c_in c)) s sp (on_readable f eof s)"
    by (rule readable_event [OF reach_ok [OF assms(1)] assms(2-4)]) (use assms(5) in simp)
  then show ?thesis unfolding read_result_def remains_def shut_def by fastforce
qed

theorem readable_refines_witness:
  "\<exists>ins out sp'. spec_inputs 8 (demo_sp\<lparr>sp_sess := abs_sess demo_m\<rparr>) ins out sp'
    \<and> refines (on_readable 8 False demo_m) sp' \<and> emits {8} demo_m out (on_readable 8 False demo_m)"
proof -
  have c: "sv_conns demo_m 8 = Some (demo_conn 8 2 Unknown [] (\<lambda>_. False) [])" by (simp add: demo_m_fields)
  have r: "refines demo_m (demo_sp\<lparr>sp_sess := abs_sess demo_m\<rparr>)"
    using demo_refines by (simp add: refines_def demo_m_fields)
  from readable_refines [OF demo_srv_reach(2) c _ r, of False] show ?thesis
    by (auto simp: demo_conn_def demo_sp_def demo_m_fields)
qed

section \<open>Closing connections\<close>

text \<open>
  C35: a connection that is closing but still has output to drain keeps executing commands: a line
  that arrives alone after \<open>QUIT\<close> is passed to \<open>handle_line\<close> like any other, and only then
  does the event handler notice the flag and return.
\<close>

theorem closing_still_serves:
  assumes "srv_reach s" and "sv_conns s f = Some c" and "\<not> c_dead c" and "c_closing c"
    and "lb_buf (c_in c) = []" and "ans_recv (sv_os s) = Ret (l @ [NL]) # rs"
    and "NL \<notin> set l" and "length l < 4096"
  shows "on_readable f eof s = handle_line f (strip_cr l)
    (s\<lparr>sv_os := log_call (SysRecv f) ((sv_os s)\<lparr>ans_recv := rs\<rparr>)\<rparr>)"
proof -
  let ?s0 = "s\<lparr>sv_os := log_call (SysRecv f) ((sv_os s)\<lparr>ans_recv := rs\<rparr>)\<rparr>"
  let ?s1 = "recv_into f (l @ [NL]) ?s0"
  have inv: "sv_inv ?s0" using reach_ok [OF assms(1)] by (simp add: srv_ok_def inv_os)
  have l0: "live f ?s0" using assms(2,3) by (simp add: live_def)
  obtain c1 where c1: "sv_conns (handle_line f (strip_cr l) ?s0) f = Some c1" "conn_le True c c1"
    by (rule hl.conn_after [OF inv l0, of f c "strip_cr l"]) (auto simp: assms(2))
  then have cl: "c_closing c1" using assms(4) by (simp add: conn_le_def)
  have "c_in c = \<lparr>lb_buf = []\<rparr>" using assms(5) by (cases "c_in c") simp
  then have undo: "upd_conn f (\<lambda>c. c\<lparr>c_in := \<lparr>lb_buf = []\<rparr>\<rparr>) ?s1 = ?s0"
    using assms(2) by (cases c) (auto simp: upd_conn_def recv_into_def fun_upd_idem_iff)
  have nl: "next_line [] \<lparr>lb_buf = l @ [NL]\<rparr> = (Ok, strip_cr l, \<lparr>lb_buf = []\<rparr>)"
    using next_line_NL [OF assms(7), of "[]" "[]"] by simp
  have "line_loop f ?s1 = (True, handle_line f (strip_cr l) ?s0)"
    using assms(2,5) nl undo c1(1) cl by (subst line_loop.simps) (simp add: recv_into_def lb_append_def \<open>c_in c = \<lparr>lb_buf = []\<rparr>\<close>)
  moreover have "take 4096 (l @ [NL]) = l @ [NL]" using assms(8) by simp
  then have "sys_recv f 4096 (sv_os s) = (Ret (l @ [NL]), log_call (SysRecv f) ((sv_os s)\<lparr>ans_recv := rs\<rparr>))"
    using assms(6) by (simp add: sys_recv_def del: take_append)
  ultimately show ?thesis
    using assms(2,3) by (simp add: on_readable_def find_live_def read_loop.simps [of f eof s])
qed

text \<open>
  A client that quits while its output is blocked: the reply to its first line stays pending,
  the connection is closing, and another line arrives.
\<close>

definition demo_q :: Server where
  "demo_q = dispatch (readable 8)
     (demo_m\<lparr>sv_os := (sv_os demo_m)\<lparr>ans_send := [], ans_recv := [Ret (''BAD'' @ [NL] @ ''QUIT'' @ [NL])]\<rparr>\<rparr>)"

definition demo_q2 :: Server where
  "demo_q2 = demo_q\<lparr>sv_os := (sv_os demo_q)\<lparr>ans_recv := [Ret (''SUBSCRIBE JNST'' @ [NL])]\<rparr>\<rparr>"

lemma reach_kernel:
  assumes "srv_reach s" and "calls w = calls (sv_os s)" and "ans_accept w = ans_accept (sv_os s)"
  shows "srv_reach (s\<lparr>sv_os := w\<rparr>)"
proof -
  have "fresh_ok s" using reach_ok [OF assms(1)] by (simp add: srv_ok_def)
  then have "fresh_ok (s\<lparr>sv_os := w\<rparr>)" using assms(3) by (simp add: fresh_ok_def)
  with assms(1,2) show ?thesis by (blast intro: srv_reach.step srv_step.kernel)
qed

lemma demo_q_reach: "srv_reach demo_q"
  unfolding demo_q_def by (intro reach_kernel srv_reach.step [OF _ srv_step.event] demo_srv_reach) simp_all

lemma demo_q2_reach: "srv_reach demo_q2"
  unfolding demo_q2_def by (intro reach_kernel demo_q_reach) simp_all

lemma demo_q_conn: "\<exists>c. sv_conns demo_q 8 = Some c \<and> \<not> c_dead c \<and> c_closing c \<and> c_fd c = 8 \<and> lb_buf (c_in c) = []
  \<and> ob_ptr (c_out c) = msg_error ''unknown command''"
proof -
  obtain cs where e: "demo_m = (demo_state cs)\<lparr>
    sv_conns := [8 \<mapsto> demo_conn 8 2 Unknown [] (\<lambda>_. False) [], 7 \<mapsto> demo_conn 7 1 Trader ''alice'' (\<lambda>_. False) ''BUY JN''],
    sv_os := \<lparr>ans_send = [Ret 100], ans_recv = [Ret (''SUBSCRIBE JNST'' @ [NL]), Fail EAGAIN], ans_accept = [],
      ans_int = [], bucket_order = (\<lambda>_ ks. ks), calls = cs\<rparr>\<rparr>"
    using demo_m_eq by blast
  show ?thesis
    unfolding demo_q_def e
    by (simp add: demo_state_def demo_conn_def readable_def server_eval msg_error_def)
qed

theorem closing_still_serves_witness:
  "\<exists>c. sv_conns demo_q2 8 = Some c \<and> c_closing c \<and> on_readable 8 False demo_q2 = handle_line 8 ''SUBSCRIBE JNST''
    (demo_q2\<lparr>sv_os := log_call (SysRecv 8) ((sv_os demo_q2)\<lparr>ans_recv := []\<rparr>)\<rparr>)"
proof -
  obtain c where c: "sv_conns demo_q2 8 = Some c" "\<not> c_dead c" "c_closing c" "lb_buf (c_in c) = []"
    using demo_q_conn by (auto simp: demo_q2_def)
  have a: "ans_recv (sv_os demo_q2) = Ret (''SUBSCRIBE JNST'' @ [NL]) # []" by (simp add: demo_q2_def)
  from closing_still_serves [OF demo_q2_reach c a, of False] c show ?thesis by (simp add: strip_cr_def)
qed

text \<open>
  C34: an end of stream or an error discards pending output: when \<open>recv\<close> reports the peer's FIN the
  connection is closed at once, and whatever was pending on it, even on one that is closing
  and should be drained first, is never sent.
\<close>

theorem fin_discards_pending:
  assumes "sv_conns s f = Some c" and "\<not> c_dead c" and "c_fd c = f" and "ans_recv (sv_os s) = Ret [] # rs"
  shows "(\<exists>c'. sv_conns (on_readable f eof s) f = Some c' \<and> c_dead c' \<and> ob_ptr (c_out c') = ob_ptr (c_out c))
    \<and> calls (sv_os (on_readable f eof s)) = calls (sv_os s) @ [SysRecv f, SysShutdown f]"
  using assms
  by (simp add: on_readable_def find_live_def read_loop.simps [of f eof s] sys_recv_def close_conn_def)

theorem fin_discards_pending_witness:
  "\<exists>c'. sv_conns (on_readable 8 False (demo_q\<lparr>sv_os := (sv_os demo_q)\<lparr>ans_recv := [Ret []]\<rparr>\<rparr>)) 8 = Some c'
    \<and> c_dead c' \<and> ob_ptr (c_out c') = msg_error ''unknown command''"
proof -
  let ?s = "demo_q\<lparr>sv_os := (sv_os demo_q)\<lparr>ans_recv := [Ret []]\<rparr>\<rparr>"
  obtain c where c: "sv_conns ?s 8 = Some c" "\<not> c_dead c" "c_fd c = 8" "ob_ptr (c_out c) = msg_error ''unknown command''"
    using demo_q_conn by auto
  have "ans_recv (sv_os ?s) = Ret [] # []" by simp
  from fin_discards_pending [OF c(1-3) this, of False] c(4) show ?thesis by simp
qed

theorem server_flow_control_witness:
  "write_filter (sv_kq demo_q) 8 (calls (sv_os demo_q)) \<and> \<not> write_filter (sv_kq demo_s1) 7 (calls (sv_os demo_s1))"
proof -
  obtain c where c: "sv_conns demo_q 8 = Some c" "\<not> c_dead c" "ob_ptr (c_out c) = msg_error ''unknown command''"
    using demo_q_conn by auto
  obtain d where d: "sv_conns demo_s1 7 = Some d" "\<not> c_dead d" "ob_ptr (c_out d) = []"
    by (simp add: demo_s1_fields demo_conn_def ob_ptr_def)
  have "ob_ptr (c_out c) \<noteq> []" by (simp add: c(3) msg_error_def)
  with server_flow_control [OF demo_q_reach c(1,2)] server_flow_control [OF demo_srv_reach(1) d(1,2)] d(3) show ?thesis
    by simp
qed

theorem writable_drains_witness:
  "\<exists>c' cs. sv_conns (on_writable 8 (demo_q\<lparr>sv_os := (sv_os demo_q)\<lparr>ans_send := [Ret 3, Fail EINTR, Ret 100]\<rparr>\<rparr>)) 8 = Some c'
    \<and> c_dead c' \<and> ob_ptr (c_out c') = [] \<and> sent 8 cs = msg_error ''unknown command''"
proof -
  let ?s = "demo_q\<lparr>sv_os := (sv_os demo_q)\<lparr>ans_send := [Ret 3, Fail EINTR, Ret 100]\<rparr>\<rparr>"
  obtain c where c: "sv_conns ?s 8 = Some c" "\<not> c_dead c" "c_closing c" "ob_ptr (c_out c) = msg_error ''unknown command''"
    using demo_q_conn by auto
  have "srv_reach ?s" by (intro reach_kernel demo_q_reach) simp_all
  moreover have "willing (length (ob_ptr (c_out c))) (ans_send (sv_os ?s))" by (simp add: c(4) msg_error_def)
  ultimately show ?thesis using writable_drains [OF _ c(1,2)] c(3,4) by auto
qed

section \<open>Start-up\<close>

lemma arg_step_cases:
  "arg_step ''-v'' r = r\<lparr>sa_verbose := True\<rparr>"
  "a \<noteq> ''-v'' \<Longrightarrow> sa_positional r = 0 \<Longrightarrow> arg_step a r = r\<lparr>sa_ip := a, sa_positional := 1\<rparr>"
  "a \<noteq> ''-v'' \<Longrightarrow> sa_positional r = 1 \<Longrightarrow> arg_step a r = r\<lparr>sa_port := word_of_int (atoi a), sa_positional := 2\<rparr>"
  "a \<noteq> ''-v'' \<Longrightarrow> 1 < sa_positional r \<Longrightarrow> arg_step a r = r"
  by (simp_all add: arg_step_def)

lemma arg_fold:
  "sa_verbose (fold arg_step argv r) = (sa_verbose r \<or> ''-v'' \<in> set argv) \<and>
   sa_ip (fold arg_step argv r) = (if sa_positional r = 0
     then (case filter (\<lambda>a. a \<noteq> ''-v'') argv of [] \<Rightarrow> sa_ip r | a # _ \<Rightarrow> a) else sa_ip r) \<and>
   sa_port (fold arg_step argv r) =
     (if sa_positional r = 0 then (case filter (\<lambda>a. a \<noteq> ''-v'') argv of _ # p # _ \<Rightarrow> word_of_int (atoi p) | _ \<Rightarrow> sa_port r)
      else if sa_positional r = 1 then (case filter (\<lambda>a. a \<noteq> ''-v'') argv of p # _ \<Rightarrow> word_of_int (atoi p) | [] \<Rightarrow> sa_port r)
      else sa_port r)"
proof (induction argv arbitrary: r)
  case Nil
  then show ?case by simp
next
  case (Cons a argv)
  consider "a = ''-v''" | "a \<noteq> ''-v''" "sa_positional r = 0" | "a \<noteq> ''-v''" "sa_positional r = 1"
    | "a \<noteq> ''-v''" "1 < sa_positional r" by linarith
  then show ?case
    by cases (simp_all add: arg_step_cases Cons.IH del: One_nat_def split: list.split)
qed

text \<open>
  The command line: \<open>-v\<close> may stand anywhere and is the only flag; of the other arguments the
  first is the address, the second the port, read as a decimal number and cut to 16 bits, and
  the rest are ignored; the defaults are 127.0.0.1 and 5000.
\<close>

lemma server_args_spec:
  "sa_verbose (server_args argv) = (''-v'' \<in> set argv)
   \<and> sa_ip (server_args argv) = (case filter (\<lambda>a. a \<noteq> ''-v'') argv of [] \<Rightarrow> ''127.0.0.1'' | a # _ \<Rightarrow> a)
   \<and> sa_port (server_args argv) = (case filter (\<lambda>a. a \<noteq> ''-v'') argv of _ # p # _ \<Rightarrow> word_of_int (atoi p) | _ \<Rightarrow> 5000)"
  by (simp add: server_args_def arg_fold split: list.split)

end
