(* ===== verification/Server_Bytes.thy ===== *)
theory Server_Bytes
  imports Session_Run
begin

text \<open>
  Bytes in and out, per connection and in total. A descriptor number is used again after its
  connection has been closed; \<open>received\<close> is what has been put on the stream of the connection
  that has the descriptor now. On the inbound side every line, hence every order id, costs at
  least one byte, so that the ids handed out and the bytes still buffered never exceed the
  bytes received.
\<close>

section \<open>The stream since the descriptor was opened\<close>

definition since :: "fd \<Rightarrow> syscall list \<Rightarrow> syscall list" where
  "since g cs = rev (takeWhile (\<lambda>x. x \<noteq> SysClose g) (rev cs))"

definition received :: "fd \<Rightarrow> Server \<Rightarrow> string" where
  "received g s = sent g (since g (calls (sv_os s))) @
     (case sv_conns s g of None \<Rightarrow> [] | Some c \<Rightarrow> if c_dead c then [] else ob_ptr (c_out c))"

lemma closed_mem: "SysClose g \<in> set cs \<Longrightarrow> g \<in> set (closed cs)"
  by (induction cs rule: closed.induct) auto

lemma since_append: "closed ys = [] \<Longrightarrow> since g (xs @ ys) = since g xs @ ys"
  using closed_mem [of g ys] by (auto simp: since_def takeWhile_append)

lemma since_suffix: "\<exists>xs. cs = xs @ since g cs"
  by (metis since_def rev_append rev_rev_ident takeWhile_dropWhile_id)

lemma sent_closes [simp]: "sent g (map SysClose ds) = []"
  by (induction ds) simp_all

lemma sent_since_closes:
  "sent g (since g (cs @ map SysClose ds)) = (if g \<in> set ds then [] else sent g (since g cs))"
proof (cases "g \<in> set ds")
  case True
  then obtain us vs where ds: "ds = us @ g # vs" "g \<notin> set vs" by (meson split_list_last)
  then have "since g (cs @ map SysClose ds) = map SysClose vs"
    by (auto simp: since_def takeWhile_append takeWhile_tail rev_map)
  with True show ?thesis by simp
next
  case False
  then have "since g (cs @ map SysClose ds) = since g cs @ map SysClose ds"
    by (auto simp: since_def takeWhile_append rev_map)
  with False show ?thesis by simp
qed

text \<open>A step that closes no descriptor extends \<open>received\<close> as it extends \<open>stream\<close>.\<close>

lemma stream_received:
  assumes "keeps_open (sv_os s) (sv_os s')"
  obtains b where "stream g s = b @ received g s" "stream g s' = b @ received g s'"
proof -
  obtain cs where cs: "calls (sv_os s') = calls (sv_os s) @ cs" "closed cs = []"
    using assms by (auto simp: keeps_open_def)
  obtain xs where "calls (sv_os s) = xs @ since g (calls (sv_os s))" using since_suffix by blast
  then have "sent g (calls (sv_os s)) = sent g xs @ sent g (since g (calls (sv_os s)))" by (metis sent_append)
  with cs that [of "sent g xs"] show ?thesis by (simp add: stream_def received_def since_append)
qed

lemma emits_received:
  assumes "emits F s m s'" and "keeps_open (sv_os s) (sv_os s')"
  shows "live g s' \<Longrightarrow> received g s' = received g s @ m g"
    and "prefix (received g s') (received g s @ m g)"
    and "\<not> live g s \<Longrightarrow> received g s' = received g s"
proof -
  obtain b where b: "stream g s = b @ received g s" "stream g s' = b @ received g s'"
    by (rule stream_received [OF assms(2)])
  have "if live g s then (if live g s' then stream g s' = stream g s @ m g
      else prefix (stream g s') (stream g s @ m g) \<and> (m g \<noteq> [] \<or> g \<in> F)) else \<not> live g s' \<and> stream g s' = stream g s"
    using assms(1) unfolding emits_def by blast
  with b show "live g s' \<Longrightarrow> received g s' = received g s @ m g" "prefix (received g s') (received g s @ m g)"
    "\<not> live g s \<Longrightarrow> received g s' = received g s"
    by (auto split: if_splits)
qed

lemma received_silent:
  assumes "keeps_open (sv_os s) (sv_os s')" and "sent g (calls (sv_os s')) = sent g (calls (sv_os s))"
  shows "sent g (since g (calls (sv_os s'))) = sent g (since g (calls (sv_os s)))"
proof -
  obtain cs where "calls (sv_os s') = calls (sv_os s) @ cs" "closed cs = []"
    using assms(1) by (auto simp: keeps_open_def)
  with assms(2) show ?thesis by (simp add: since_append)
qed

lemma reap_received:
  assumes "sv_inv s"
  shows "received g (reap s) = (if \<exists>c. sv_conns s g = Some c \<and> c_dead c then [] else received g s)"
proof -
  have "g \<in> set (sv_dead s) \<longleftrightarrow> (\<exists>c. sv_conns s g = Some c \<and> c_dead c)"
    using assms by (auto simp: inv_except_def ids_ok_def dead_ok_def view_def ident_def)
  then show ?thesis by (auto simp: received_def reap_eq sent_since_closes split: option.splits)
qed

text \<open>Setting up sockets sends nothing.\<close>

lemma sys_int_sent: "sent g [c] = [] \<Longrightarrow> sent g (calls (snd (sys_int c w))) = sent g (calls w)"
  by (simp add: sys_int_def split: list.split)

lemma set_nonblocking_sent: "sent g (calls (snd (set_nonblocking f w))) = sent g (calls w)"
  by (auto simp: set_nonblocking_def split: prod.splits sysret.splits dest!: sys_int_frame)

lemma accept_conn_sent: "sent g (calls (sv_os (accept_conn cfd s))) = sent g (calls (sv_os s))"
  by (simp add: accept_conn_def Let_def kq_change_frame set_nonblocking_sent)

lemma make_listen_socket_sent: "sent g (calls (snd (make_listen_socket ip port w))) = sent g (calls w)"
  by (simp add: make_listen_socket_def Let_def case_prod_beta sys_int_sent set_nonblocking_sent
      split: sysret.split bool.split)

lemma init_sent: "init (server_new ip port w) = (True, s) \<Longrightarrow> sent g (calls (sv_os s)) = sent g (calls w)"
  using make_listen_socket_sent [of g ip port w]
  by (auto simp: init_def server_new_def Let_def kq_change_frame split: prod.splits if_splits dest!: sys_int_frame)

section \<open>Ids cost bytes\<close>

lemma submit_next: "submit side inst qty price ow ts ex = (i, ts', ex') \<Longrightarrow> ex_next_id ex' = ex_next_id ex + 1"
  by (auto simp: submit_def Let_def split: prod.splits if_splits)

lemma cancel_next: "cancel i ow ex = Inr ex' \<Longrightarrow> ex_next_id ex' = ex_next_id ex"
  by (auto simp: cancel_def Let_def split: option.splits if_splits)

definition ids_used :: "Server \<Rightarrow> nat" where
  "ids_used s = unat (ex_next_id (sv_exch s))"

lemma handle_line_ids:
  assumes "sv_conns s f = Some c"
  shows "ids_used (handle_line f line s) \<le> ids_used s + 1"
  unfolding handle_line_serve [OF assms] ids_used_def
  by (auto simp: serve_def do_login_def do_listen_def cmd_quit_def submit_next cancel_next unat_Suc_le [simplified]
      split: request.splits prod.splits sum.splits)

abbreviation inbuf :: "fd \<Rightarrow> Server \<Rightarrow> LineBuffer option" where
  "inbuf g s \<equiv> snd (snd (rx s)) g"

lemma inbuf_os: "inbuf g (s\<lparr>sv_os := w\<rparr>) = inbuf g s"
  by (simp add: rx_def)

lemma inbox_None: "f \<notin> dom (sv_conns s) \<Longrightarrow> inbox f s = 0"
  by (auto simp: inbox_def rx_def split: option.split)

lemma line_loop_bytes:
  "line_loop f s = (r, s') \<Longrightarrow> ids_used s' + inbox f s' \<le> ids_used s + inbox f s \<and> (g \<noteq> f \<longrightarrow> inbuf g s' = inbuf g s)"
proof (induction f s rule: line_loop.induct)
  case (1 f s)
  show ?case
  proof (cases "sv_conns s f")
    case None
    with "1.prems" show ?thesis by (subst (asm) line_loop.simps) simp
  next
    case (Some c)
    obtain st line lb where nl: "next_line [] (c_in c) = (st, line, lb)" by (metis prod_cases3)
    show ?thesis
    proof (cases "st = Ok")
      case False
      with "1.prems" Some nl show ?thesis
        by (subst (asm) line_loop.simps) (cases st; auto simp: ids_used_def inbox_def)
    next
      case True
      let ?s0 = "upd_conn f (\<lambda>c. c\<lparr>c_in := lb\<rparr>) s"
      define s1 where "s1 = handle_line f line ?s0"
      have "length (lb_buf lb) < length (lb_buf (c_in c))" using next_line_Ok_shorter nl True by blast
      moreover have "inbox f s1 = length (lb_buf lb)" "inbox f s = length (lb_buf (c_in c))"
        "g \<noteq> f \<longrightarrow> inbuf g s1 = inbuf g s"
        using Some by (simp_all add: s1_def) (simp_all add: inbox_def rx_def)
      moreover have "ids_used s1 \<le> ids_used s + 1"
        using handle_line_ids [of ?s0 f "c\<lparr>c_in := lb\<rparr>" line] Some by (simp add: s1_def ids_used_def)
      ultimately have 1: "ids_used s1 + inbox f s1 \<le> ids_used s + inbox f s" "g \<noteq> f \<longrightarrow> inbuf g s1 = inbuf g s" by simp_all
      have eq: "line_loop f s = (case sv_conns s1 f of None \<Rightarrow> (True, s1)
          | Some c1 \<Rightarrow> if c_dead c1 \<or> c_closing c1 then (True, s1) else line_loop f s1)"
        unfolding s1_def using Some nl True by (subst line_loop.simps) (simp add: Let_def)
      have stop: "s' = s1 \<or> line_loop f s1 = (r, s') \<and> (\<exists>c1. sv_conns s1 f = Some c1 \<and> \<not> (c_dead c1 \<or> c_closing c1))"
        using "1.prems" unfolding eq by (auto split: option.splits if_splits)
      then show ?thesis
      proof
        assume "s' = s1"
        with 1 show ?thesis by simp
      next
        assume l: "line_loop f s1 = (r, s') \<and> (\<exists>c1. sv_conns s1 f = Some c1 \<and> \<not> (c_dead c1 \<or> c_closing c1))"
        then obtain c1 where "sv_conns s1 f = Some c1" "\<not> (c_dead c1 \<or> c_closing c1)" by blast
        from "1.IH" [OF Some nl [symmetric] refl _ _ s1_def this] True l 1 show ?thesis by auto
      qed
    qed
  qed
qed

text \<open>The bytes a step has read from the kernel.\<close>

definition taken_bytes :: "Server \<Rightarrow> Server \<Rightarrow> string" where
  "taken_bytes s s' = recvd (take (length (ans_recv (sv_os s)) - length (ans_recv (sv_os s'))) (ans_recv (sv_os s)))"

lemma taken_used: "ans_recv (sv_os s) = us @ ans_recv (sv_os s') \<Longrightarrow> taken_bytes s s' = recvd us"
  by (simp add: taken_bytes_def)

lemma taken_none: "ans_recv (sv_os s') = ans_recv (sv_os s) \<Longrightarrow> taken_bytes s s' = []"
  by (simp add: taken_bytes_def)

lemma read_loop_bytes:
  "ids_used (read_loop f eof s) + inbox f (read_loop f eof s) + length (recvd (ans_recv (sv_os (read_loop f eof s))))
     \<le> ids_used s + inbox f s + length (recvd (ans_recv (sv_os s)))
   \<and> (g \<noteq> f \<longrightarrow> inbuf g (read_loop f eof s) = inbuf g s)"
proof (induction f eof s rule: read_loop.induct)
  case (1 f eof s)
  obtain a w where a: "sys_recv f 4096 (sv_os s) = (a, w)" by (metis prod.exhaust)
  obtain us where us: "ans_recv (sv_os s) = us @ ans_recv w" "recvd us = (case a of Ret b \<Rightarrow> b | Fail _ \<Rightarrow> [])"
    by (rule sys_recv_used [OF a])
  let ?s0 = "s\<lparr>sv_os := w\<rparr>"
  have s0: "ids_used ?s0 = ids_used s" "inbox h ?s0 = inbox h s" for h by (simp_all add: ids_used_def inbox_def rx_def)
  have cl: "ids_used (close_conn f ?s0) = ids_used s" "inbox h (close_conn f ?s0) = inbox h s"
    "ans_recv (sv_os (close_conn f ?s0)) = ans_recv w" for h
    using rx_close [of f ?s0] by (simp_all only: ids_used_def inbox_def exch_output) (simp_all add: rx_def)
  show ?case
  proof (cases a)
    case (Ret b)
    obtain r s1 where ll: "line_loop f (recv_into f b ?s0) = (r, s1)" by (metis prod.exhaust)
    have "ans_recv (sv_os s1) = ans_recv w" using line_loop_ans [OF ll] by (simp add: rx_def recv_into_def)
    moreover have "inbox f (recv_into f b ?s0) \<le> inbox f s + length b" "g \<noteq> f \<longrightarrow> inbuf g (recv_into f b ?s0) = inbuf g s"
      "ids_used (recv_into f b ?s0) = ids_used s"
      by (cases "sv_conns s f"; simp add: inbox_def rx_def recv_into_def lb_append_def ids_used_def)+
    ultimately have "ids_used s1 + inbox f s1 + length (recvd (ans_recv (sv_os s1))) \<le> ids_used s + inbox f s + length (recvd (ans_recv (sv_os s)))"
      "g \<noteq> f \<longrightarrow> inbuf g s1 = inbuf g s"
      using line_loop_bytes [OF ll, of g] us Ret by (simp_all add: recvd_append)
    with "1.IH"(1) [OF a [symmetric] Ret _ ll [symmetric]] a Ret ll cl us show ?thesis
      by (cases r; cases "b = []") (auto simp: read_loop.simps [of f eof s] recvd_append inbuf_os)
  next
    case (Fail e)
    with "1.IH"(2) [OF a [symmetric] Fail] a cl s0 us show ?thesis
      by (auto simp: read_loop.simps [of f eof s] recvd_append inbuf_os)
  qed
qed

lemma on_readable_bytes:
  "ids_used (on_readable f eof s) + inbox f (on_readable f eof s) + length (recvd (ans_recv (sv_os (on_readable f eof s))))
     \<le> ids_used s + inbox f s + length (recvd (ans_recv (sv_os s)))
   \<and> (g \<noteq> f \<longrightarrow> inbuf g (on_readable f eof s) = inbuf g s)"
  by (simp add: on_readable_def read_loop_bytes split: option.split)

lemma on_readable_used: "\<exists>us. ans_recv (sv_os s) = us @ ans_recv (sv_os (on_readable f eof s))"
  by (simp add: on_readable_def read_loop_used split: option.split)

lemma on_readable_taken:
  "length (recvd (ans_recv (sv_os s))) = length (taken_bytes s (on_readable f eof s)) + length (recvd (ans_recv (sv_os (on_readable f eof s))))"
proof -
  obtain us where us: "ans_recv (sv_os s) = us @ ans_recv (sv_os (on_readable f eof s))" using on_readable_used by blast
  then have "length (recvd (ans_recv (sv_os s))) = length (recvd us) + length (recvd (ans_recv (sv_os (on_readable f eof s))))"
    by (metis recvd_append length_append)
  with taken_used [OF us] show ?thesis by simp
qed

section \<open>The other events\<close>

lemma on_writable_rx: "rx (on_writable f s) = rx s"
  by (simp add: on_writable_def split: option.split)

lemma sys_accept_recv: "sys_accept f w = (a, w') \<Longrightarrow> ans_recv w' = ans_recv w"
  by (auto simp: sys_accept_def split: list.splits)

lemma on_accept_recv: "ans_recv (sv_os (on_accept s)) = ans_recv (sv_os s)"
proof (induction s rule: on_accept.induct)
  case (1 s)
  then show ?case
    by (subst on_accept.simps) (auto split: prod.splits sysret.splits dest: sys_accept_recv)
qed

lemma on_accept_inbox: "inbox g (on_accept s) = inbox g s"
proof (induction s rule: on_accept.induct)
  case (1 s)
  have os: "inbox g (x\<lparr>sv_os := w\<rparr>) = inbox g x" for x w by (simp add: inbox_def rx_def)
  have "inbox g (accept_conn cfd x) = inbox g x" for cfd x
    by (auto simp: inbox_def rx_def accept_conn_def Let_def new_conn_def lb_init_def split: option.split)
  with 1 os show ?case by (subst on_accept.simps) (auto split: prod.splits sysret.splits)
qed

section \<open>Totals\<close>

definition buffered :: "Server \<Rightarrow> nat" where
  "buffered s = (\<Sum>f \<in> dom (sv_conns s). inbox f s)"

lemma inv_finite: "sv_inv s \<Longrightarrow> finite (dom (sv_conns s))"
  using inv_keys [of s] by (metis List.finite_set)

lemma buffered_bound: "sv_inv s \<Longrightarrow> inbox f s \<le> buffered s"
proof (cases "f \<in> dom (sv_conns s)")
  case True
  assume "sv_inv s"
  then show ?thesis unfolding buffered_def using True by (intro member_le_sum) (simp_all add: inv_finite)
next
  case False
  from inbox_None [OF this] show ?thesis by simp
qed

text \<open>A step that leaves all buffers but one alone changes the total by the change of that one.\<close>

lemma buffered_one:
  assumes "finite (dom (sv_conns s))" and "finite (dom (sv_conns s'))" and "\<And>g. g \<noteq> f \<Longrightarrow> inbox g s' = inbox g s"
  shows "buffered s' + inbox f s = buffered s + inbox f s'"
proof -
  have t: "buffered x = (\<Sum>g \<in> D. inbox g x)" if "finite D" "dom (sv_conns x) \<subseteq> D" for x D
    unfolding buffered_def using that by (intro sum.mono_neutral_left) (simp_all add: inbox_None)
  let ?D = "insert f (dom (sv_conns s) \<union> dom (sv_conns s'))"
  have D: "finite ?D" "dom (sv_conns s) \<subseteq> ?D" "dom (sv_conns s') \<subseteq> ?D" using assms(1,2) by auto
  have "(\<Sum>g \<in> ?D - {f}. inbox g s') = (\<Sum>g \<in> ?D - {f}. inbox g s)" using assms(3) by (intro sum.cong) auto
  moreover have "(\<Sum>g \<in> ?D. inbox g x) = inbox f x + (\<Sum>g \<in> ?D - {f}. inbox g x)" for x
    using D(1) by (intro sum.remove) simp_all
  ultimately show ?thesis using t [OF D(1,2)] t [OF D(1,3)] by simp
qed

lemma buffered_reap: "sv_inv s \<Longrightarrow> buffered (reap s) \<le> buffered s"
proof -
  assume inv: "sv_inv s"
  have "buffered (reap s) \<le> (\<Sum>f \<in> dom (sv_conns (reap s)). inbox f s)"
    unfolding buffered_def by (intro sum_mono) (auto simp: reap_eq inbox_def rx_def)
  also have "\<dots> \<le> buffered s"
    unfolding buffered_def using inv_finite [OF inv] by (intro sum_mono2) (auto simp: reap_eq split: if_splits)
  finally show ?thesis .
qed

end
