(* ===== verification/Server_Sim.thy ===== *)
theory Server_Sim
  imports Server_Props Server_Bytes
begin

text \<open>
  The whole server as a simulation. Its abstract counterpart is a transition system in which
  clients arrive, have lines treated as the session specification says, and leave; it keeps
  what each client has submitted and what it has been answered. Every run of the server is
  matched by a run of that system as long as fewer than \<open>2^32\<close> bytes have been received, which
  is enough for the order ids not to run out.
\<close>

section \<open>The specified system\<close>

record world =
  wd_srv :: spec_server
  wd_next :: owner
  wd_in :: "fd \<Rightarrow> input list"
  wd_out :: "fd \<Rightarrow> string"

definition world_init :: world where
  "world_init = \<lparr>wd_srv = \<lparr>sp_sess = Map.empty, sp_book = spec_init\<rparr>, wd_next = 1, wd_in = (\<lambda>_. []), wd_out = (\<lambda>_. [])\<rparr>"

definition new_session :: "owner \<Rightarrow> session" where
  "new_session ow = \<lparr>se_owner = ow, se_role = Unknown, se_name = [], se_subs = (\<lambda>_. False), se_closing = False\<rparr>"

definition arrive :: "fd \<Rightarrow> world \<Rightarrow> world" where
  "arrive f w = w\<lparr>wd_srv := upd_sess f (new_session (wd_next w)) (wd_srv w), wd_next := wd_next w + 1,
     wd_in := (wd_in w)(f := []), wd_out := (wd_out w)(f := [])\<rparr>"

definition treat :: "fd \<Rightarrow> input list \<Rightarrow> (fd \<Rightarrow> string) \<Rightarrow> spec_server \<Rightarrow> world \<Rightarrow> world" where
  "treat f ins out sp w = w\<lparr>wd_srv := sp, wd_in := (wd_in w)(f := wd_in w f @ ins), wd_out := (\<lambda>g. wd_out w g @ out g)\<rparr>"

definition leave :: "fd \<Rightarrow> world \<Rightarrow> world" where
  "leave f w = w\<lparr>wd_srv := (wd_srv w)\<lparr>sp_sess := (sp_sess (wd_srv w))(f := None)\<rparr>\<rparr>"

inductive world_step :: "world \<Rightarrow> world \<Rightarrow> bool" where
  arrives: "sp_sess (wd_srv w) f = None \<Longrightarrow> world_step w (arrive f w)"
| treats: "spec_inputs f (wd_srv w) ins out sp \<Longrightarrow> world_step w (treat f ins out sp w)"
| leaves: "world_step w (leave f w)"

section \<open>Runs of the server\<close>

text \<open>
  The states the server can reach, with the number \<open>n\<close> of bytes received so far and, for each
  connection, the bytes \<open>got\<close> received on it since it was accepted.
\<close>

definition got_after :: "kev \<Rightarrow> Server \<Rightarrow> (fd \<Rightarrow> string) \<Rightarrow> fd \<Rightarrow> string" where
  "got_after ev s got = (\<lambda>g. if sv_conns s g = None then []
     else if g = ev_ident ev then got g @ taken_bytes s (dispatch ev s) else got g)"

inductive served :: "nat \<Rightarrow> (fd \<Rightarrow> string) \<Rightarrow> Server \<Rightarrow> bool" where
  start: "calls w = [] \<Longrightarrow> init (server_new ip port w) = (True, s) \<Longrightarrow> fresh_ok s \<Longrightarrow> served 0 (\<lambda>_. []) s"
| kernel: "served n got s \<Longrightarrow> calls w = calls (sv_os s) \<Longrightarrow> fresh_ok (s\<lparr>sv_os := w\<rparr>) \<Longrightarrow> served n got (s\<lparr>sv_os := w\<rparr>)"
| event: "served n got s \<Longrightarrow> served (n + length (taken_bytes s (dispatch ev s))) (got_after ev s got) (dispatch ev s)"
| turn_end: "served n got s \<Longrightarrow> served n got (reap s)"

lemma served_reach: "served n got s \<Longrightarrow> srv_reach s"
  by (induction rule: served.induct) (auto intro: srv_reach.intros srv_step.intros)

lemma served_ok: "served n got s \<Longrightarrow> srv_ok s"
  by (rule reach_ok [OF served_reach])

text \<open>Every id handed out and every byte still buffered has been paid for with a byte received.\<close>

lemma dispatch_bytes:
  assumes ok: "srv_ok s"
  shows "ids_used (dispatch ev s) + buffered (dispatch ev s) \<le> ids_used s + buffered s + length (taken_bytes s (dispatch ev s))"
proof -
  have inv: "sv_inv s" "sv_inv (dispatch ev s)" using ok dispatch_ok [OF ok, of ev] by (simp_all add: srv_ok_def)
  note one = buffered_one [OF inv_finite [OF inv(1)] inv_finite [OF inv(2)]]
  consider "ev_ident ev = sv_lfd s" | "ev_ident ev \<noteq> sv_lfd s" "ev_filt ev = EVFILT_READ"
    | "ev_ident ev \<noteq> sv_lfd s" "ev_filt ev \<noteq> EVFILT_READ" by blast
  then show ?thesis
  proof cases
    case 1
    then have "dispatch ev s = on_accept s" by (simp add: dispatch_def)
    with one [of 0] show ?thesis by (simp add: on_accept_inbox ids_used_def on_accept_exch)
  next
    case 2
    let ?f = "ev_ident ev" and ?e = "ev_eof ev"
    have eq: "dispatch ev s = on_readable ?f ?e s" using 2 by (simp add: dispatch_def)
    have "buffered (dispatch ev s) + inbox ?f s = buffered s + inbox ?f (dispatch ev s)"
      by (rule one) (simp add: eq inbox_def on_readable_bytes)
    with on_readable_bytes [of ?f ?e s ?f] on_readable_taken [of s ?f ?e] show ?thesis unfolding eq by simp
  next
    case 3
    then have "rx (dispatch ev s) = rx s" "sv_exch (dispatch ev s) = sv_exch s"
      by (simp_all add: dispatch_def on_writable_rx) (simp add: on_writable_def split: option.split)
    with one [of 0] show ?thesis by (simp add: inbox_def ids_used_def)
  qed
qed

lemma served_bytes: "served n got s \<Longrightarrow> ids_used s + buffered s \<le> n"
proof (induction rule: served.induct)
  case (start w ip port s)
  then show ?case using init_state [OF start(2)] by (simp add: ids_used_def buffered_def ex_init_def)
next
  case (kernel n got s w)
  then show ?case by (simp add: ids_used_def buffered_def inbox_def rx_def)
next
  case (event n got s ev)
  with dispatch_bytes [OF served_ok [OF event(1)], of ev] show ?case by linarith
next
  case (turn_end n got s)
  have "sv_inv s" using served_ok [OF turn_end(1)] by (simp add: srv_ok_def)
  from buffered_reap [OF this] turn_end.IH show ?case by (simp add: ids_used_def reap_eq)
qed

text \<open>
  A run of the event loop on answers prepared in advance: what has been received and what is
  still prepared add up.
\<close>

lemma dispatch_taken:
  "length (recvd (ans_recv (sv_os s))) = length (taken_bytes s (dispatch ev s)) + length (recvd (ans_recv (sv_os (dispatch ev s))))"
proof -
  have "ans_recv (sv_os (on_writable f s)) = ans_recv (sv_os s)" for f using on_writable_rx [of f s] by (simp add: rx_def)
  then show ?thesis
    using on_readable_taken [of s "ev_ident ev" "ev_eof ev"] by (simp add: dispatch_def on_accept_recv taken_none)
qed

definition served_upto :: "nat \<Rightarrow> Server \<Rightarrow> bool" where
  "served_upto k s \<longleftrightarrow> (\<exists>n got. served n got s \<and> n + length (recvd (ans_recv (sv_os s))) = k)"

lemma served_dispatch: "served_upto k s \<Longrightarrow> served_upto k (dispatch ev s)"
  unfolding served_upto_def using dispatch_taken [of s ev] served.event [of _ _ s ev] by (metis add.assoc)

lemma served_batch: "served_upto k s \<Longrightarrow> served_upto k (fold dispatch evs s)"
  by (induction evs arbitrary: s) (simp_all add: served_dispatch)

lemma served_reap: "served_upto k s \<Longrightarrow> served_upto k (reap s)"
  unfolding served_upto_def using served.turn_end [of _ _ s] by (fastforce simp: reap_eq)

lemma served_run: "served_upto k s \<Longrightarrow> served_upto k (run turns s)"
proof (induction turns arbitrary: s)
  case Nil
  then show ?case by simp
next
  case (Cons a as)
  have "served_upto k s'" if "run_turn a s = Some s'" for s'
    using that Cons.prems by (auto simp: run_turn_def served_batch served_reap split: sysret.splits if_splits)
  with Cons show ?case by (simp split: option.split)
qed

section \<open>The simulation relation\<close>

definition tracks :: "(fd \<Rightarrow> string) \<Rightarrow> Server \<Rightarrow> world \<Rightarrow> bool" where
  "tracks got s w \<longleftrightarrow> refines s (wd_srv w) \<and> wd_next w = sv_next_owner s
     \<and> (\<forall>g. prefix (received g s) (wd_out w g) \<and> (live g s \<longrightarrow> received g s = wd_out w g))
     \<and> (\<forall>g. sv_conns s g = None \<longrightarrow> received g s = [])
     \<and> (\<forall>g c. sv_conns s g = Some c \<longrightarrow> remains g (lines_of (wd_in w g)) (got g) s
         \<and> (c_dead c \<or> c_closing c \<or> wd_in w g = map Line (lines (got g))))"

lemma remains_cong:
  "map_option c_in (sv_conns s' g) = map_option c_in (sv_conns s g) \<Longrightarrow> remains g ls b s' = remains g ls b s"
  by (simp add: remains_def)

lemma tracks_start:
  assumes "calls w = []" and "init (server_new ip port w) = (True, s)"
  shows "tracks (\<lambda>_. []) s world_init"
proof -
  note i = init_state [OF assms(2)]
  have "sent g (since g (calls (sv_os s))) = []" for g
    using since_suffix [of "calls (sv_os s)" g] init_sent [OF assms(2), of g] assms(1)
    by (metis append_is_Nil_conv sent.simps(1) sent_append)
  then show ?thesis
    using represents_init
    by (auto simp: tracks_def world_init_def refines_def abs_sess_def i received_def fun_eq_iff spec_init_def)
qed

text \<open>A step in which only the kernel side changes, and nothing is sent.\<close>

lemma tracks_os:
  assumes "tracks got s w" and "\<And>g. sent g (since g (calls w')) = sent g (since g (calls (sv_os s)))"
  shows "tracks got (s\<lparr>sv_os := w'\<rparr>) w"
  using assms remains_cong [of "s\<lparr>sv_os := w'\<rparr>" _ s] by (simp add: tracks_def refines_os received_def live_def)

lemma tracks_got:
  "tracks got s w \<Longrightarrow> (\<And>g. sv_conns s g \<noteq> None \<Longrightarrow> got' g = got g) \<Longrightarrow> tracks got' s w"
  by (simp add: tracks_def)

section \<open>Arrivals\<close>

lemma tracks_arrive:
  assumes t: "tracks got s w" and new: "sv_conns s f = None"
  shows "tracks (got(f := [])) (accept_conn f s) (arrive f w) \<and> world_step w (arrive f w)"
proof -
  let ?s' = "accept_conn f s"
  note st = accept_conn_state [OF new]
  have sent: "sent g (since g (calls (sv_os ?s'))) = sent g (since g (calls (sv_os s)))" for g
    by (rule received_silent [OF accept_conn_opens accept_conn_sent])
  have t': "refines s (wd_srv w)" "wd_next w = sv_next_owner s" "received f s = []" using t new by (simp_all add: tracks_def)
  have no: "abs_sess s f = None" using new by (simp add: abs_sess_def)
  have "abs_sess ?s' = (abs_sess s)(f \<mapsto> new_session (sv_next_owner s))"
    by (auto simp: abs_sess_def st fun_eq_iff sess_of_def new_conn_def new_session_def)
  then have "refines ?s' (wd_srv (arrive f w))"
    using t' st(9) by (simp add: refines_def arrive_def upd_sess_def)
  moreover have r: "received g ?s' = received g s" for g
    using t'(3) new by (cases "g = f") (simp_all add: received_def sent st(1) new_conn_def ob_init_def ob_ptr_def)
  moreover have "live g ?s' \<longleftrightarrow> g = f \<or> live g s" for g using new by (auto simp: live_def st(1) new_conn_def)
  moreover have "remains g ls b ?s' = remains g ls b s" if "g \<noteq> f" for g ls b
    by (rule remains_cong) (simp add: st(1) that)
  moreover have "remains f [] [] ?s'" by (simp add: remains_def st(1) new_conn_def lb_init_def)
  moreover have "lines [] = []" by (simp add: lines_def split_nl_no_NL)
  ultimately have "tracks (got(f := [])) ?s' (arrive f w)"
    using t t'(3) by (auto simp: tracks_def arrive_def st(1,2))
  with no t'(1) show ?thesis by (auto simp: refines_def intro: world_step.arrives)
qed

lemma tracks_accept:
  assumes "srv_ok s" and "tracks got s w"
  shows "\<exists>w'. world_step\<^sup>*\<^sup>* w w' \<and> tracks (\<lambda>g. if sv_conns s g = None then [] else got g) (on_accept s) w'"
  using assms
proof (induction s arbitrary: got w rule: on_accept.induct)
  case (1 s)
  obtain a os where a: "sys_accept (sv_lfd s) (sv_os s) = (a, os)" by (metis prod.exhaust)
  let ?s0 = "s\<lparr>sv_os := os\<rparr>"
  have op: "keeps_open (sv_os s) os" "sent g (calls os) = sent g (calls (sv_os s))" for g
    using a by (auto simp: sys_accept_def split: list.splits)
  have t0: "tracks got ?s0 w"
    by (rule tracks_os [OF "1.prems"(2)]) (use received_silent [of s ?s0] op in simp)
  show ?case
  proof (cases a)
    case (Ret cfd)
    let ?s1 = "accept_conn cfd ?s0"
    have new: "sv_conns ?s0 cfd = None" and ok: "srv_ok ?s1"
      using accept_turn [OF "1.prems"(1) a [unfolded Ret]] by simp_all
    note t1 = tracks_arrive [OF t0 new]
    obtain w' where w': "world_step\<^sup>*\<^sup>* (arrive cfd w) w'"
      "tracks (\<lambda>g. if sv_conns ?s1 g = None then [] else (got(cfd := [])) g) (on_accept ?s1) w'"
      using "1.IH"(1) [OF a [symmetric] Ret ok, of "got(cfd := [])"] t1 by blast
    moreover have "(\<lambda>g. if sv_conns ?s1 g = None then [] else (got(cfd := [])) g) = (\<lambda>g. if sv_conns s g = None then [] else got g)"
      using new by (auto simp: fun_eq_iff accept_conn_state [OF new])
    moreover have "on_accept s = on_accept ?s1" using a Ret by (simp add: on_accept.simps [of s])
    ultimately show ?thesis using t1 by (auto intro: converse_rtranclp_into_rtranclp)
  next
    case (Fail e)
    have ok: "srv_ok ?s0" using accept_none [OF "1.prems"(1) a [unfolded Fail]] by simp
    have t1: "tracks (\<lambda>g. if sv_conns s g = None then [] else got g) ?s0 w"
      by (rule tracks_got [OF t0]) auto
    from "1.IH"(2) [OF a [symmetric] Fail _ ok t0] t1 a Fail show ?thesis
      by (auto simp: on_accept.simps [of s])
  qed
qed

section \<open>Input, output, the end of a turn\<close>

lemma remains_more:
  assumes "remains f ls b s" and "sv_conns s f = Some c" and "remains f ls' (lb_buf (c_in c) @ d) s'"
  shows "remains f (ls @ ls') (b @ d) s'"
proof -
  have b: "lines b = ls @ lines (lb_buf (c_in c))" "snd (split_nl b) = snd (split_nl (lb_buf (c_in c)))"
    using assms(1,2) by (auto simp: remains_def)
  have "lines (b @ d) = ls @ lines (lb_buf (c_in c) @ d)" "snd (split_nl (b @ d)) = snd (split_nl (lb_buf (c_in c) @ d))"
    using lines_append [of b d] lines_append [of "lb_buf (c_in c)" d] residue_append [of b d]
      residue_append [of "lb_buf (c_in c)" d] b by simp_all
  from remains_append [OF assms(3) this] show ?thesis .
qed

lemma inbuf_conn: "inbuf g s' = inbuf g s \<Longrightarrow> map_option c_in (sv_conns s' g) = map_option c_in (sv_conns s g)"
  by (simp add: rx_def)

text \<open>An event that sends \<open>out\<close>, seen from the clients; what it reads is settled by the last premise.\<close>

lemma tracks_event:
  assumes t: "tracks got s w" and fr: "sframe s s'" and e: "emits F s out s'" and r: "refines s' sp"
    and ins: "\<And>g c'. sv_conns s' g = Some c' \<Longrightarrow> remains g (lines_of (ins g)) (got' g) s'
      \<and> (c_dead c' \<or> c_closing c' \<or> ins g = map Line (lines (got' g)))"
  shows "tracks got' s' (w\<lparr>wd_srv := sp, wd_in := ins, wd_out := (\<lambda>g. wd_out w g @ out g)\<rparr>)"
proof -
  have op: "keeps_open (sv_os s) (sv_os s')" "sv_next_owner s' = sv_next_owner s" using fr by (simp_all add: sframe_def)
  have "prefix (received g s') (wd_out w g @ out g)" "live g s' \<Longrightarrow> received g s' = wd_out w g @ out g" for g
  proof -
    have w: "prefix (received g s) (wd_out w g)" "live g s \<Longrightarrow> received g s = wd_out w g" using t by (simp_all add: tracks_def)
    show "live g s' \<Longrightarrow> received g s' = wd_out w g @ out g"
      using emits_live [OF e, of g] emits_received(1) [OF e op(1), of g] w(2) by simp
    show "prefix (received g s') (wd_out w g @ out g)"
      using emits_received(2,3) [OF e op(1), of g] w by (cases "live g s") (auto intro: prefix_prefix)
  qed
  moreover have "received g s' = []" if "sv_conns s' g = None" for g
  proof -
    have "sv_conns s g = None" using sframe_none [OF fr] that by simp
    then show ?thesis using emits_received(3) [OF e op(1), of g] t by (simp add: tracks_def live_def)
  qed
  ultimately show ?thesis using t r op(2) ins by (simp add: tracks_def)
qed

lemma tracks_others:
  assumes "tracks got s w" and "sframe s s'" and "inbuf g s' = inbuf g s" and "sv_conns s' g = Some c'"
  shows "remains g (lines_of (wd_in w g)) (got g) s' \<and> (c_dead c' \<or> c_closing c' \<or> wd_in w g = map Line (lines (got g)))"
proof -
  obtain c where c: "sv_conns s g = Some c" using sframe_none [OF assms(2), of g] assms(4) by auto
  then have "conn_evo c c'" using assms(4) by (auto elim: sframe_conn [OF assms(2)])
  with assms(1) c show ?thesis
    by (auto simp: tracks_def conn_evo_def remains_cong [OF inbuf_conn [OF assms(3)]])
qed

lemma tracks_readable:
  assumes ok: "srv_ok s" and t: "tracks got s w" and c: "sv_conns s f = Some c" "\<not> c_dead c"
    and b: "ids_used s + length (lb_buf (c_in c)) + length (taken_bytes s (on_readable f eof s)) < 2 ^ 32"
  shows "\<exists>w'. world_step w w' \<and>
    tracks (\<lambda>g. if g = f then got g @ taken_bytes s (on_readable f eof s) else got g) (on_readable f eof s) w'"
proof -
  let ?s' = "on_readable f eof s" and ?b = "lb_buf (c_in c)"
  have t': "refines s (wd_srv w)" using t by (simp add: tracks_def)
  then have "unat (sb_next (sp_book (wd_srv w))) = ids_used s"
    by (simp add: refines_def represents_def ids_used_def)
  then have "read_result f ?b s (wd_srv w) ?s'"
    using readable_event [OF ok c t', of eof] b on_readable_taken [of s f eof] by simp
  then obtain us ins out sp where r: "ans_recv (sv_os s) = us @ ans_recv (sv_os ?s')"
    "spec_inputs f (wd_srv w) ins out sp" "refines ?s' sp" "emits {f} s out ?s'" "remains f (lines_of ins) (?b @ recvd us) ?s'"
    "shut f ?s' \<or> ins = map Line (lines (?b @ recvd us))"
    unfolding read_result_def by blast
  have fr: "sframe s ?s'"
    using read_loop_ok [of s f eof] ok c by (simp add: srv_ok_def live_def on_readable_def find_live_def)
  have f: "remains f (lines_of (wd_in w f @ ins)) (got f @ recvd us) ?s'
      \<and> (c_dead c' \<or> c_closing c' \<or> wd_in w f @ ins = map Line (lines (got f @ recvd us)))" if c': "sv_conns ?s' f = Some c'" for c'
  proof -
    have old: "remains f (lines_of (wd_in w f)) (got f) s" "c_dead c \<or> c_closing c \<or> wd_in w f = map Line (lines (got f))"
      using t c(1) by (auto simp: tracks_def)
    have evo: "conn_evo c c'" by (rule sframe_conn [OF fr c(1)]) (use c' in simp)
    have "wd_in w f @ ins = map Line (lines (got f @ recvd us))" if on: "\<not> c_dead c'" "\<not> c_closing c'"
    proof -
      have i: "wd_in w f = map Line (lines (got f))" "ins = map Line (lines (?b @ recvd us))"
        using on evo old(2) r(6) c' by (auto simp: conn_evo_def shut_def)
      then have "lines ?b = []" "snd (split_nl (got f)) = snd (split_nl ?b)"
        using old(1) c(1) by (auto simp: remains_def)
      then have "lines (got f @ recvd us) = lines (got f) @ lines (?b @ recvd us)"
        using lines_append [of "got f" "recvd us"] lines_append [of ?b "recvd us"] by simp
      with i show ?thesis by simp
    qed
    with remains_more [OF old(1) c(1) r(5)] show ?thesis by auto
  qed
  have "tracks (\<lambda>g. if g = f then got g @ recvd us else got g) ?s' (treat f ins out sp w)"
    unfolding treat_def
  proof (rule tracks_event [OF t fr r(4,3)])
    fix g c'
    assume "sv_conns ?s' g = Some c'"
    with f tracks_others [OF t fr, of g c'] on_readable_bytes [of f eof s g]
    show "remains g (lines_of (((wd_in w)(f := wd_in w f @ ins)) g)) (if g = f then got g @ recvd us else got g) ?s'
      \<and> (c_dead c' \<or> c_closing c' \<or> ((wd_in w)(f := wd_in w f @ ins)) g = map Line (lines (if g = f then got g @ recvd us else got g)))"
      by (cases "g = f") auto
  qed
  with world_step.treats [OF r(2)] show ?thesis unfolding taken_used [OF r(1)] by blast
qed

lemma tracks_writable:
  assumes ok: "srv_ok s" and t: "tracks got s w"
  shows "\<exists>w'. world_step\<^sup>*\<^sup>* w w' \<and> tracks got (on_writable f s) w'"
proof (cases "live f s")
  case False
  then have "on_writable f s = s" by (auto simp: on_writable_def find_live_def live_def split: option.splits)
  with t show ?thesis by auto
next
  case True
  then obtain c where c: "sv_conns s f = Some c" "\<not> c_dead c" by (auto simp: live_def)
  let ?s' = "try_flush f s"
  have inv: "sv_inv s" using ok by (simp add: srv_ok_def)
  have eq: "on_writable f s = ?s'" using c by (simp add: on_writable_def find_live_def)
  have "ob_pending (c_out c) \<le> kMaxOutBytes" using inv c by (auto simp: inv_except_def flows_ok_def flow_ok_def)
  with c inv_connD [OF inv c(1)] have io: "io1 f [] s ?s'" by (intro try_flush_io) auto
  have fr: "oframe s ?s'" "sframe s ?s'" using io1_frame [OF io] by (auto simp: oframe_def intro: hframe_sframe)
  have e: "emits {f} s (\<lambda>_. []) ?s'" by (rule emits_cong [OF io1_emits [OF io]]) simp_all
  have ts: "refines ?s' sp \<Longrightarrow> tracks got ?s' (w\<lparr>wd_srv := sp, wd_in := wd_in w, wd_out := (\<lambda>g. wd_out w g @ [])\<rparr>)" for sp
    by (rule tracks_event [OF t fr(2) e]) (simp_all add: tracks_others [OF t fr(2)])
  have r: "sp_sess (wd_srv w) = abs_sess s" "represents (sv_exch s) (sp_book (wd_srv w))" using t by (simp_all add: tracks_def refines_def)
  have a: "abs_sess ?s' g = (if live g ?s' then abs_sess s g else None)" for g
    using abs_sess_oframe [OF fr(1)] by (auto simp: abs_sess_def live_def split: option.splits)
  have other: "live g ?s' \<longleftrightarrow> live g s" if "g \<noteq> f" for g using e that unfolding emits_def by (metis singletonD)
  show ?thesis
  proof (cases "live f ?s'")
    case l: True
    have "abs_sess ?s' g = abs_sess s g" for g
      using a [of g] other [of g] l True by (cases "g = f") (auto simp: abs_sess_def live_def split: option.splits)
    then have "abs_sess ?s' = abs_sess s" by (simp add: fun_eq_iff)
    then have "refines ?s' (wd_srv w)" using r by (simp add: refines_def)
    from ts [OF this] show ?thesis by (auto simp: eq)
  next
    case l: False
    have "abs_sess ?s' g = ((abs_sess s)(f := None)) g" for g
      using a [of g] other [of g] l by (cases "g = f") (auto simp: abs_sess_def live_def split: option.splits)
    then have "abs_sess ?s' = (abs_sess s)(f := None)" by (simp add: fun_eq_iff)
    then have "refines ?s' ((wd_srv w)\<lparr>sp_sess := (sp_sess (wd_srv w))(f := None)\<rparr>)" using r by (simp add: refines_def)
    from ts [OF this] have "tracks got ?s' (leave f w)" by (simp add: leave_def)
    then show ?thesis using world_step.leaves by (auto simp: eq)
  qed
qed

lemma tracks_reap:
  assumes ok: "srv_ok s" and t: "tracks got s w"
  shows "tracks got (reap s) w"
proof -
  have inv: "sv_inv s" using ok by (simp add: srv_ok_def)
  have d: "g \<in> set (sv_dead s) \<longleftrightarrow> (\<exists>c. sv_conns s g = Some c \<and> c_dead c)" for g
    using inv by (auto simp: inv_except_def ids_ok_def dead_ok_def view_def ident_def)
  have cs: "sv_conns (reap s) g = (case sv_conns s g of None \<Rightarrow> None | Some c \<Rightarrow> if c_dead c then None else Some c)" for g
    using d [of g] by (auto simp: reap_eq split: option.split)
  have "abs_sess (reap s) = abs_sess s" by (auto simp: abs_sess_def cs fun_eq_iff split: option.split)
  moreover have "live g (reap s) = live g s" for g by (auto simp: live_def cs split: option.splits)
  moreover have "remains g ls b (reap s) = remains g ls b s" if "sv_conns (reap s) g = Some c" for g ls b c
    using that by (intro remains_cong) (auto simp: cs split: option.splits if_splits)
  moreover have "sv_conns s g = Some c" if "sv_conns (reap s) g = Some c" for g c
    using that by (auto simp: cs split: option.splits if_splits)
  moreover have "sv_exch (reap s) = sv_exch s" "sv_next_owner (reap s) = sv_next_owner s" by (simp_all add: reap_eq)
  moreover have "sv_conns (reap s) g = None \<Longrightarrow> received g (reap s) = []" for g
    using reap_received [OF inv, of g] t by (auto simp: cs tracks_def split: option.splits if_splits)
  moreover have "prefix (received g (reap s)) (wd_out w g)" "live g s \<Longrightarrow> received g (reap s) = wd_out w g" for g
    using reap_received [OF inv, of g] t by (auto simp: live_def tracks_def)
  ultimately show ?thesis using t by (simp add: tracks_def refines_def)
qed

lemma tracks_dispatch:
  assumes ok: "srv_ok s" and t: "tracks got s w"
    and b: "ids_used s + buffered s + length (taken_bytes s (dispatch ev s)) < 2 ^ 32"
  shows "\<exists>w'. world_step\<^sup>*\<^sup>* w w' \<and> tracks (got_after ev s got) (dispatch ev s) w'"
proof -
  let ?f = "ev_ident ev"
  have inv: "sv_inv s" "sv_conns s (sv_lfd s) = None" using ok by (auto simp: srv_ok_def fresh_ok_def)
  have same: ?thesis if "world_step\<^sup>*\<^sup>* w w'" "tracks got (dispatch ev s) w'" "taken_bytes s (dispatch ev s) = []"
    "\<And>g. sv_conns (dispatch ev s) g \<noteq> None \<Longrightarrow> sv_conns s g \<noteq> None" for w'
    using that(1) tracks_got [OF that(2), of "got_after ev s got"] that(3,4) by (auto simp: got_after_def)
  consider "?f = sv_lfd s" | "?f \<noteq> sv_lfd s" "ev_filt ev = EVFILT_READ" "live ?f s"
    | "?f \<noteq> sv_lfd s" "ev_filt ev \<noteq> EVFILT_READ" "ev_filt ev = EVFILT_WRITE" | "dispatch ev s = s"
    by (fastforce simp: dispatch_def on_readable_def find_live_def live_def split: option.splits)
  then show ?thesis
  proof cases
    case 1
    then have eq: "dispatch ev s = on_accept s" by (simp add: dispatch_def)
    have "got_after ev s got = (\<lambda>g. if sv_conns s g = None then [] else got g)"
      using 1 inv(2) by (auto simp: got_after_def fun_eq_iff)
    with tracks_accept [OF ok t] eq show ?thesis by simp
  next
    case 2
    then have eq: "dispatch ev s = on_readable ?f (ev_eof ev) s" by (simp add: dispatch_def)
    obtain c where c: "sv_conns s ?f = Some c" "\<not> c_dead c" using 2(3) by (auto simp: live_def)
    have "length (lb_buf (c_in c)) \<le> buffered s" using buffered_bound [OF inv(1), of ?f] inbox_conn [OF c(1)] by simp
    with b have "ids_used s + length (lb_buf (c_in c)) + length (taken_bytes s (on_readable ?f (ev_eof ev) s)) < 2 ^ 32"
      by (simp add: eq)
    from tracks_readable [OF ok t c this] obtain w' where w': "world_step w w'"
      "tracks (\<lambda>g. if g = ?f then got g @ taken_bytes s (dispatch ev s) else got g) (dispatch ev s) w'" unfolding eq by blast
    have fr: "sframe s (dispatch ev s)"
      using read_loop_ok [OF inv(1) 2(3), of "ev_eof ev"] ok c by (simp add: eq srv_ok_def on_readable_def find_live_def)
    have "tracks (got_after ev s got) (dispatch ev s) w'"
      by (intro tracks_got [OF w'(2)]) (auto simp: got_after_def sframe_none [OF fr])
    with w'(1) show ?thesis by blast
  next
    case 3
    then have eq: "dispatch ev s = on_writable ?f s" by (simp add: dispatch_def)
    have rx: "rx (dispatch ev s) = rx s" by (simp add: eq on_writable_rx)
    then have "sv_conns (dispatch ev s) g \<noteq> None \<Longrightarrow> sv_conns s g \<noteq> None" for g
      using inbuf_conn [of "dispatch ev s" g s] by (cases "sv_conns s g") auto
    moreover have "taken_bytes s (dispatch ev s) = []" using rx by (intro taken_none) (simp add: rx_def)
    ultimately show ?thesis using tracks_writable [OF ok t, of ?f] same unfolding eq by blast
  next
    case 4
    then show ?thesis using same [of w] t by (simp add: taken_none)
  qed
qed

lemma served_tracks:
  assumes "served n got s" and "n < 2 ^ 32"
  shows "\<exists>w. world_step\<^sup>*\<^sup>* world_init w \<and> tracks got s w"
  using assms
proof (induction rule: served.induct)
  case (start w ip port s)
  with tracks_start [OF start(1,2)] show ?case by blast
next
  case (kernel n got s w)
  then obtain x where "world_step\<^sup>*\<^sup>* world_init x" "tracks got s x" by blast
  with tracks_os [of got s x w] kernel(2) show ?case by auto
next
  case (event n got s ev)
  then obtain x where x: "world_step\<^sup>*\<^sup>* world_init x" "tracks got s x" by auto
  have "ids_used s + buffered s + length (taken_bytes s (dispatch ev s)) < 2 ^ 32"
    using served_bytes [OF event.hyps] event.prems by linarith
  from tracks_dispatch [OF served_ok [OF event.hyps] x(2) this] x(1) show ?case by (meson rtranclp_trans)
next
  case (turn_end n got s)
  with tracks_reap [OF served_ok] show ?case by blast
qed

section \<open>Every run is a run of the specification\<close>

text \<open>
  C1: the server implements its specification: whatever the clients send and the kernel answers,
  every state the server reaches before \<open>2^32\<close> bytes have been received is matched by a run of
  the specified system, in which clients arrive, have their lines treated one after the other
  by the session specification over an arrival-ordered book, and leave. Sessions, book and
  next owner id are those of the specification. For every connection not yet reaped, the bytes
  put on its stream since it was accepted are a prefix of what the specification answered it, all of it
  while it lives; the lines treated for it are a prefix of the lines it has sent since it was
  accepted, all of them while it is neither closed nor closing, and then its buffer holds
  exactly the unfinished rest.
\<close>

theorem server_simulates_spec:
  assumes "served n got s" and "n < 2 ^ 32"
  shows "\<exists>w. world_step\<^sup>*\<^sup>* world_init w \<and> refines s (wd_srv w) \<and> sv_next_owner s = wd_next w
    \<and> (\<forall>g c. sv_conns s g = Some c \<longrightarrow>
        prefix (received g s) (wd_out w g) \<and> prefix (lines_of (wd_in w g)) (lines (got g))
        \<and> (\<not> c_dead c \<longrightarrow> received g s = wd_out w g)
        \<and> (\<not> c_dead c \<and> \<not> c_closing c \<longrightarrow>
             wd_in w g = map Line (lines (got g)) \<and> lb_buf (c_in c) = snd (split_nl (got g))))"
proof -
  obtain w where w: "world_step\<^sup>*\<^sup>* world_init w" "tracks got s w" using served_tracks [OF assms] by blast
  have "lb_buf (c_in c) = snd (split_nl (got g))"
    if "sv_conns s g = Some c" "\<not> c_dead c" "\<not> c_closing c" "remains g ls (got g) s" for g c ls
  proof -
    have "NL \<notin> set (lb_buf (c_in c))" using served_ok [OF assms(1)] that by (auto simp: srv_ok_def ins_ok_def in_ok_def)
    with that show ?thesis by (simp add: remains_def split_nl_no_NL)
  qed
  moreover have "remains g (lines_of (wd_in w g)) (got g) s" "c_dead c \<or> c_closing c \<or> wd_in w g = map Line (lines (got g))"
    if "sv_conns s g = Some c" for g c using w(2) that by (auto simp: tracks_def)
  moreover have "prefix (received g s) (wd_out w g)" "live g s \<Longrightarrow> received g s = wd_out w g" for g
    using w(2) by (simp_all add: tracks_def)
  ultimately show ?thesis
    using w by (intro exI [of _ w]) (simp add: tracks_def live_def, metis remains_prefix)
qed

lemma taken_bound: "length (taken_bytes s s') \<le> length (recvd (ans_recv (sv_os s)))"
  unfolding taken_bytes_def by (metis append_take_drop_id le_add1 length_append recvd_append)

lemma demo_accepted:
  "sv_conns (dispatch (readable 3) demo_s0) 7 \<noteq> None" "ans_recv (sv_os (dispatch (readable 3) demo_s0)) = ans_recv demo_os"
  by (simp_all add: demo_s0_def demo_os_def readable_def server_eval)

lemma demo_served:
  "\<exists>n got. served n got demo_s1 \<and> n < 2 ^ 32 \<and> got 7 = ''LOGIN alice'' @ [NL] @ ''SELL JNST 5 100'' @ [NL] @ ''BUY JN''"
proof -
  let ?a = "dispatch (readable 3) demo_s0"
  have r0: "length (recvd (ans_recv (sv_os demo_s0))) < 100"
    by (simp add: demo_s0_def demo_os_def server_eval)
  have r1: "length (recvd (ans_recv (sv_os ?a))) < 100" by (simp add: demo_accepted demo_os_def)
  have r2: "length (recvd (ans_recv (sv_os demo_m))) < 100" by (simp add: demo_m_fields)
  have st: "served 0 (\<lambda>_. []) demo_s0"
    using init_state [OF demo_s0_eval(1)]
    by (intro served.start [OF _ demo_s0_eval(1)]) (simp_all add: demo_os_def fresh_ok_def demo_s0_eval)
  let ?g = "got_after (readable 8) demo_m (got_after (readable 7) ?a (got_after (readable 3) demo_s0 (\<lambda>_. [])))"
  have m: "dispatch (readable 7) ?a = demo_m" "dispatch (readable 8) demo_m = demo_s1" by (simp_all add: demo_m_def demo_s1_def)
  have "served (0 + length (taken_bytes demo_s0 ?a) + length (taken_bytes ?a demo_m) + length (taken_bytes demo_m demo_s1)) ?g demo_s1"
    using served.event [OF served.event [OF served.event [OF st, of "readable 3"], of "readable 7"], of "readable 8"]
    by (simp only: m)
  moreover have "0 + length (taken_bytes demo_s0 ?a) + length (taken_bytes ?a demo_m) + length (taken_bytes demo_m demo_s1) < 2 ^ 32"
    using taken_bound [of demo_s0 ?a] taken_bound [of ?a demo_m] taken_bound [of demo_m demo_s1] r0 r1 r2 by simp
  moreover have "?g 7 = taken_bytes ?a demo_m"
    using demo_accepted(1) by (simp add: got_after_def m demo_m_fields) (auto simp: readable_def)
  moreover have "taken_bytes ?a demo_m = ''LOGIN alice'' @ [NL] @ ''SELL JNST 5 100'' @ [NL] @ ''BUY JN''"
    by (simp add: taken_bytes_def demo_accepted demo_m_fields) (simp add: demo_os_def)
  ultimately show ?thesis by metis
qed

lemma demo_received: "received 7 demo_s1 = msg_ok @ msg_order_accepted 0"
  by (simp add: received_def demo_s1_def demo_m_def demo_s0_def demo_os_def readable_def server_eval since_def)

theorem server_simulates_spec_witness:
  "\<exists>w. world_step\<^sup>*\<^sup>* world_init w \<and> refines demo_s1 (wd_srv w) \<and> received 7 demo_s1 = wd_out w 7"
proof -
  obtain n got where s: "served n got demo_s1" "n < 2 ^ 32" using demo_served by blast
  have c: "sv_conns demo_s1 7 = Some (demo_conn 7 1 Trader ''alice'' (\<lambda>_. False) ''BUY JN'')" by (simp add: demo_s1_fields)
  have d: "\<not> c_dead (demo_conn 7 1 Trader ''alice'' (\<lambda>_. False) ''BUY JN'')" by (simp add: demo_conn_def)
  from server_simulates_spec [OF s] c d show ?thesis by blast
qed

end
