(* ===== verification/Stdin.thy ===== *)
theory Stdin
  imports Framing
begin

text \<open>
  Standard input as the clients read it: \<open>std::getline\<close> on \<open>std::cin\<close>, which reads blocks from
  the kernel into a buffer of the library and cuts lines from that buffer. The kernel side is
  the list of what each \<open>read\<close> returns; an empty block, or the end of the list, is the end of
  the input.
\<close>

record stdin =
  si_buf :: string
  si_reads :: "string list"
  si_eof :: bool

definition stdin_open :: "string list \<Rightarrow> stdin" where
  "stdin_open reads = \<lparr>si_buf = [], si_reads = reads, si_eof = False\<rparr>"

text \<open>
  At the end of the input an unfinished line is still delivered, and every later call fails. A
  call that finds no complete line in the buffer waits for the next block.
\<close>

definition at_end :: "stdin \<Rightarrow> string option \<times> stdin" where
  "at_end s = (if si_buf s = [] then None else Some (si_buf s), s\<lparr>si_buf := [], si_eof := True\<rparr>)"

function getline :: "stdin \<Rightarrow> string option \<times> stdin" where
  "getline s =
     (if si_eof s then (None, s)
      else if NL \<in> set (si_buf s) then
        (Some (takeWhile (\<lambda>c. c \<noteq> NL) (si_buf s)), s\<lparr>si_buf := tl (dropWhile (\<lambda>c. c \<noteq> NL) (si_buf s))\<rparr>)
      else (case si_reads s of
              [] \<Rightarrow> at_end s
            | b # rs \<Rightarrow>
                if b = [] then at_end (s\<lparr>si_reads := rs\<rparr>)
                else getline (s\<lparr>si_buf := si_buf s @ b, si_reads := rs\<rparr>)))"
  by pat_completeness auto
termination
  by (relation "measure (\<lambda>s. length (si_reads s))") simp_all

declare getline.simps [simp del]

section \<open>What will be read\<close>

text \<open>The lines of a text; an unfinished one at the end counts.\<close>

definition text_lines :: "string \<Rightarrow> string list" where
  "text_lines b = fst (split_nl b) @ (if snd (split_nl b) = [] then [] else [snd (split_nl b)])"

definition typed_text :: "string list \<Rightarrow> string" where
  "typed_text reads = concat (takeWhile (\<lambda>b. b \<noteq> []) reads)"

definition typed :: "stdin \<Rightarrow> string list" where
  "typed s = (if si_eof s then [] else text_lines (si_buf s @ typed_text (si_reads s)))"

lemma typed_open: "typed (stdin_open reads) = text_lines (typed_text reads)"
  by (simp add: typed_def stdin_open_def)

lemma text_lines_NL: "NL \<notin> set l \<Longrightarrow> text_lines (l @ NL # r) = l # text_lines r"
  by (simp add: text_lines_def)

lemma text_lines_rest: "NL \<notin> set r \<Longrightarrow> text_lines r = (if r = [] then [] else [r])"
  by (simp add: text_lines_def split_nl_no_NL)

lemma text_lines_clean: "l \<in> set (text_lines b) \<Longrightarrow> NL \<notin> set l"
proof (induction b rule: length_induct)
  case (1 b)
  show ?case
  proof (cases b rule: split_nl_cases)
    case rest
    with "1.prems" show ?thesis by (auto simp: text_lines_rest split: if_splits)
  next
    case (line l' r)
    with 1 show ?thesis by (auto simp: text_lines_NL)
  qed
qed

lemma at_end_typed:
  assumes "at_end s = (r, s')" and "NL \<notin> set (si_buf s)" and "\<not> si_eof s" and "typed_text (si_reads s) = []"
  shows "case r of None \<Rightarrow> typed s = [] | Some l \<Rightarrow> typed s = l # typed s'"
  using assms by (auto simp: at_end_def typed_def text_lines_rest)

text \<open>Each call delivers the next line of the text, and fails when there is none.\<close>

lemma getline_typed: "getline s = (r, s') \<Longrightarrow> case r of None \<Rightarrow> typed s = [] | Some l \<Rightarrow> typed s = l # typed s'"
proof (induction s rule: getline.induct)
  case (1 s)
  consider "si_eof s" | "\<not> si_eof s" "NL \<in> set (si_buf s)" | "\<not> si_eof s" "NL \<notin> set (si_buf s)" "si_reads s = []"
    | rs where "\<not> si_eof s" "NL \<notin> set (si_buf s)" "si_reads s = [] # rs"
    | b rs where "\<not> si_eof s" "NL \<notin> set (si_buf s)" "si_reads s = b # rs" "b \<noteq> []"
    by (cases "si_reads s") auto
  then show ?case
  proof cases
    case 1
    with "1.prems" show ?thesis by (subst (asm) getline.simps) (auto simp: typed_def)
  next
    case 2
    then obtain l t where l: "si_buf s = l @ NL # t" "NL \<notin> set l" by (meson in_set_conv_decomp_first)
    then have "takeWhile (\<lambda>c. c \<noteq> NL) (si_buf s) = l" "dropWhile (\<lambda>c. c \<noteq> NL) (si_buf s) = NL # t"
      by (auto simp: takeWhile_append dropWhile_append)
    with 2 "1.prems" l show ?thesis
      by (subst (asm) getline.simps) (auto simp: typed_def text_lines_NL)
  next
    case 3
    with "1.prems" have "at_end s = (r, s')" by (subst (asm) getline.simps) simp
    from at_end_typed [OF this 3(2,1)] 3(3) show ?thesis by (simp add: typed_text_def)
  next
    case (4 rs)
    with "1.prems" have "at_end (s\<lparr>si_reads := rs\<rparr>) = (r, s')" by (subst (asm) getline.simps) simp
    then have "at_end s = (r, s'\<lparr>si_reads := si_reads s\<rparr>)" "si_eof s'" by (auto simp: at_end_def)
    from at_end_typed [OF this(1) 4(2,1)] this(2) 4(3) show ?thesis by (auto simp: typed_text_def typed_def split: option.splits)
  next
    case (5 b rs)
    then have eq: "getline s = getline (s\<lparr>si_buf := si_buf s @ b, si_reads := rs\<rparr>)" by (subst getline.simps) simp
    have "typed (s\<lparr>si_buf := si_buf s @ b, si_reads := rs\<rparr>) = typed s" using 5 by (simp add: typed_def typed_text_def)
    with "1.IH" [OF 5(1,2,3,4)] "1.prems" eq show ?thesis by (cases r) simp_all
  qed
qed

end
