(* ===== verification/Client.thy ===== *)
theory Client
  imports Event_Loop Stdin "HOL-Library.Sublist"
begin

text \<open>
  \<open>src/client_common.hpp\<close>, \<open>src/trader.cpp\<close> and \<open>src/market_data.cpp\<close>: connecting, the
  sending loop, the loop over stdin and the socket, and the two programs. The answers of
  \<open>select\<close> and the blocks read from standard input are parameters like the kernel's; what goes
  to stdout is kept as the list of printed lines.
\<close>

section \<open>Connecting and sending\<close>

text \<open>None is \<open>std::exit(1)\<close>.\<close>

definition connect_to :: "string \<Rightarrow> string \<Rightarrow> os \<Rightarrow> fd option \<times> os" where
  "connect_to host port w =
     (case sys_int SysSocket w of
        (Fail _, w1) \<Rightarrow> (None, w1)
      | (Ret f, w1) \<Rightarrow>
          (case sys_int (SysInetPton host) w1 of
             (r, w2) \<Rightarrow>
               if r \<noteq> Ret 1 then (None, w2)
               else (case sys_int (SysConnect f host (word_of_int (atoi port))) w2 of
                       (Fail _, w3) \<Rightarrow> (None, w3)
                     | (Ret _, w3) \<Rightarrow> (Some f, w3))))"

function send_all :: "fd \<Rightarrow> string \<Rightarrow> nat \<Rightarrow> os \<Rightarrow> bool \<times> os" where
  "send_all f s off w =
     (if off < length s then
        (case sys_send f (drop off s) w of
           (Ret n, w1) \<Rightarrow> if 0 < n then send_all f s (off + n) w1 else (False, w1)
         | (Fail e, w1) \<Rightarrow> if e = EINTR then send_all f s off w1 else (False, w1))
      else (True, w))"
  by pat_completeness auto
termination
  by (relation "measure (\<lambda>(f, s, off, w). length (ans_send w))")
    (auto dest: sys_send_Ret [OF sym] sys_send_Fail [OF sym])

declare send_all.simps [simp del]

section \<open>The client loop\<close>

record Client =
  cl_os :: os
  cl_in :: LineBuffer
  cl_stdin_open :: bool
  cl_stdin :: stdin
  cl_printed :: "string list"

text \<open>\<open>msg.c_str()\<close> in \<open>printf\<close> ends at the first NUL.\<close>

definition c_str :: "string \<Rightarrow> string" where
  "c_str s = takeWhile (\<lambda>c. c \<noteq> CHR 0x00) s"

text \<open>
  The part of a turn that reads stdin. At the end of the input the result of sending \<open>QUIT\<close> is
  ignored. False says the loop is left.
\<close>

definition client_stdin :: "fd \<Rightarrow> Client \<Rightarrow> bool \<times> Client" where
  "client_stdin f c =
     (case getline (cl_stdin c) of
        (None, si) \<Rightarrow>
          (case send_all f (''QUIT'' @ [NL]) 0 (cl_os c) of (_, w) \<Rightarrow>
             (True, c\<lparr>cl_stdin := si, cl_os := log_call (SysShutdown f) w, cl_stdin_open := False\<rparr>))
      | (Some line, si) \<Rightarrow>
          (case send_all f (line @ [NL]) 0 (cl_os c) of (ok, w) \<Rightarrow> (ok, c\<lparr>cl_stdin := si, cl_os := w\<rparr>)))"

definition client_recv :: "fd \<Rightarrow> Client \<Rightarrow> bool \<times> Client" where
  "client_recv f c =
     (case sys_recv f 4096 (cl_os c) of
        (Ret b, w) \<Rightarrow>
          if b = [] then (False, c\<lparr>cl_os := w\<rparr>)
          else (case drain_lines (lb_append b (cl_in c)) of (ls, lb) \<Rightarrow>
                  (True, c\<lparr>cl_os := w, cl_in := lb, cl_printed := cl_printed c @ map c_str ls\<rparr>))
      | (Fail e, w) \<Rightarrow> (e = EINTR, c\<lparr>cl_os := w\<rparr>))"

text \<open>One turn, given what \<open>select\<close> answered: is stdin readable, is the socket.\<close>

definition client_turn :: "fd \<Rightarrow> (bool \<times> bool) sysret \<Rightarrow> Client \<Rightarrow> bool \<times> Client" where
  "client_turn f a c =
     (case a of
        Fail e \<Rightarrow> (e = EINTR, c)
      | Ret (rin, rsock) \<Rightarrow>
          (case (if cl_stdin_open c \<and> rin then client_stdin f c else (True, c)) of (go, c1) \<Rightarrow>
             if \<not> go then (False, c1)
             else if rsock then client_recv f c1
             else (True, c1)))"

text \<open>
  The loop, for as many answers of \<open>select\<close> as are given: True says it is still running, and
  when it is left the descriptor is closed.
\<close>

fun client_turns :: "fd \<Rightarrow> (bool \<times> bool) sysret list \<Rightarrow> Client \<Rightarrow> bool \<times> Client" where
  "client_turns f [] c = (True, c)"
| "client_turns f (a # as) c =
     (case client_turn f a c of
        (True, c1) \<Rightarrow> client_turns f as c1
      | (False, c1) \<Rightarrow> (False, c1\<lparr>cl_os := log_call (SysClose f) (cl_os c1)\<rparr>))"

definition client_loop :: "fd \<Rightarrow> (bool \<times> bool) sysret list \<Rightarrow> string list \<Rightarrow> os \<Rightarrow> bool \<times> Client" where
  "client_loop f turns reads w = client_turns f turns
     \<lparr>cl_os = w, cl_in = lb_init, cl_stdin_open = True, cl_stdin = stdin_open reads, cl_printed = []\<rparr>"

section \<open>The two programs\<close>

text \<open>
  The exit code and the client state when the loop was entered; \<open>argv\<close> starts with the name of
  the program. The exit code is that of a loop that was left.
\<close>

definition trader_main ::
  "string list \<Rightarrow> (bool \<times> bool) sysret list \<Rightarrow> string list \<Rightarrow> os \<Rightarrow> int \<times> os \<times> Client option" where
  "trader_main argv turns reads w =
     (if length argv < 4 then (2, w, None)
      else (case connect_to (argv ! 1) (argv ! 2) w of
              (None, w1) \<Rightarrow> (1, w1, None)
            | (Some f, w1) \<Rightarrow>
                (case send_all f (''LOGIN '' @ argv ! 3 @ [NL]) 0 w1 of
                   (False, w2) \<Rightarrow> (1, w2, None)
                 | (True, w2) \<Rightarrow> (case client_loop f turns reads w2 of (_, c) \<Rightarrow> (0, cl_os c, Some c)))))"

fun subscribe_all :: "fd \<Rightarrow> string list \<Rightarrow> os \<Rightarrow> bool \<times> os" where
  "subscribe_all f [] w = (True, w)"
| "subscribe_all f (i # is) w =
     (case send_all f (''SUBSCRIBE '' @ i @ [NL]) 0 w of
        (False, w1) \<Rightarrow> (False, w1)
      | (True, w1) \<Rightarrow> subscribe_all f is w1)"

definition market_data_main ::
  "string list \<Rightarrow> (bool \<times> bool) sysret list \<Rightarrow> string list \<Rightarrow> os \<Rightarrow> int \<times> os \<times> Client option" where
  "market_data_main argv turns reads w =
     (if length argv < 4 then (2, w, None)
      else (case connect_to (argv ! 1) (argv ! 2) w of
              (None, w1) \<Rightarrow> (1, w1, None)
            | (Some f, w1) \<Rightarrow>
                (case subscribe_all f (drop 3 argv) w1 of
                   (False, w2) \<Rightarrow> (1, w2, None)
                 | (True, w2) \<Rightarrow> (case client_loop f turns reads w2 of (_, c) \<Rightarrow> (0, cl_os c, Some c)))))"

section \<open>Sending\<close>

text \<open>The loop by its turns, as for the server's flush loop.\<close>

lemma send_all_induct [consumes 1, case_names complete took intr failed]:
  assumes run: "send_all f s off w = (ok, w')"
    and complete: "\<And>off w. length s \<le> off \<Longrightarrow> P off w True w"
    and took: "\<And>off w n w1 ok w'. off < length s \<Longrightarrow> sys_send f (drop off s) w = (Ret n, w1) \<Longrightarrow> 0 < n \<Longrightarrow>
      P (off + n) w1 ok w' \<Longrightarrow> P off w ok w'"
    and intr: "\<And>off w w1 ok w'. off < length s \<Longrightarrow> sys_send f (drop off s) w = (Fail EINTR, w1) \<Longrightarrow>
      P off w1 ok w' \<Longrightarrow> P off w ok w'"
    and failed: "\<And>off w a w1. off < length s \<Longrightarrow> sys_send f (drop off s) w = (a, w1) \<Longrightarrow>
      (case a of Ret n \<Rightarrow> n = 0 | Fail e \<Rightarrow> e \<noteq> EINTR) \<Longrightarrow> P off w False w1"
  shows "P off w ok w'"
proof -
  have "P off w ok w'" if "send_all g t off w = (ok, w')" and gt: "g = f \<and> t = s" for g t
    using that
  proof (induction g t off w rule: send_all.induct)
    case (1 g t off w)
    obtain a w1 where a: "sys_send f (drop off s) w = (a, w1)" by (metis prod.exhaust)
    have gt: "g = f" "t = s" using "1.prems"(2) by simp_all
    note eq = "1.prems"(1) [unfolded gt, unfolded send_all.simps [of f s off w]]
    show ?case
    proof (cases "off < length s")
      case False
      with eq complete show ?thesis by simp
    next
      case True
      then have tr: "off < length t" by (simp add: gt)
      consider n where "a = Ret n" "0 < n" | "a = Fail EINTR" | "case a of Ret n \<Rightarrow> n = 0 | Fail e \<Rightarrow> e \<noteq> EINTR"
        by (cases a) auto
      then show ?thesis
      proof cases
        case (1 n)
        with took [OF True a [unfolded 1(1)] 1(2)] "1.IH"(1) [OF tr _ 1(1,2), of w1] eq a True show ?thesis by (simp add: gt)
      next
        case 2
        with intr [OF True a [unfolded 2]] "1.IH"(2) [OF tr _ 2 refl, of w1] eq a True show ?thesis by (simp add: gt)
      next
        case 3
        with failed [OF True a 3] eq a True show ?thesis by (auto split: sysret.splits if_splits)
      qed
    qed
  qed
  with run show ?thesis by blast
qed

lemma send_all_spec:
  assumes "send_all f s off w = (ok, w')"
  shows "\<exists>cs. calls w' = calls w @ cs \<and> prefix (sent f cs) (drop off s) \<and> (\<forall>g. g \<noteq> f \<longrightarrow> sent g cs = [])
    \<and> (ok \<longrightarrow> sent f cs = drop off s) \<and> ans_recv w' = ans_recv w"
  using assms
proof (induction rule: send_all_induct)
  case (complete off w)
  then show ?case by simp
next
  case (took off w n w1 ok w')
  then obtain cs where cs: "calls w' = calls w1 @ cs" "prefix (sent f cs) (drop (off + n) s)" "\<forall>g. g \<noteq> f \<longrightarrow> sent g cs = []"
    "ok \<longrightarrow> sent f cs = drop (off + n) s" "ans_recv w' = ans_recv w1" by blast
  let ?cs = "SysSend f (take n (drop off s)) # cs"
  have d: "drop off s = take n (drop off s) @ drop (off + n) s" by (metis add.commute append_take_drop_id drop_drop)
  have "prefix (sent f ?cs) (drop off s)" "ok \<longrightarrow> sent f ?cs = drop off s"
    using cs(2,4) d by (simp, metis same_prefix_prefix) (metis d sent.simps(2) cs(4))
  with cs sys_send_Ret [OF took.hyps(2)] sys_send_frame [OF took.hyps(2)] show ?case
    by (intro exI [of _ ?cs]) (simp add: os_frame_def)
next
  case (intr off w w1 ok w')
  then obtain cs where "calls w' = calls w1 @ cs" "prefix (sent f cs) (drop off s)" "\<forall>g. g \<noteq> f \<longrightarrow> sent g cs = []"
    "ok \<longrightarrow> sent f cs = drop off s" "ans_recv w' = ans_recv w1" by blast
  with sys_send_Fail [OF intr.hyps(2)] sys_send_frame [OF intr.hyps(2)] show ?case
    by (intro exI [of _ "SysSend f [] # cs"]) (simp add: os_frame_def)
next
  case (failed off w a w1)
  have "calls w1 = calls w @ [SysSend f []]"
    using failed sys_send_Ret sys_send_Fail by (cases a) fastforce+
  with sys_send_frame [OF failed.hyps(2)] show ?case by (auto simp: os_frame_def)
qed

lemma send_all_willing:
  assumes "send_all f s off w = (ok, w')" and "willing (length s - off) (ans_send w)"
  shows ok
  using assms
proof (induction rule: send_all_induct)
  case (took off w n w1 ok w')
  have "0 < length s - off" using took.hyps(1) by simp
  then have "willing (length s - off - n) (ans_send w1)"
    by (rule sys_send_willing [OF took.prems _ took.hyps(2)]) simp_all
  with took.IH show ?case by simp
next
  case (intr off w w1 ok w')
  have "0 < length s - off" using intr.hyps(1) by simp
  then have "willing (length s - off) (ans_send w1)"
    by (rule sys_send_willing [OF intr.prems _ intr.hyps(2)]) simp_all
  with intr.IH show ?case by simp
next
  case (failed off w a w1)
  have "0 < length s - off" using failed.hyps(1) by simp
  then show ?case
    by (rule sys_send_willing [OF failed.prems _ failed.hyps(2)]) (use failed.hyps(3) in simp_all)
qed simp

text \<open>
  \<open>send_all\<close> delivers: on a socket that takes the bytes, in portions of any size and with any
  interruptions, it returns true after having sent exactly the text, on that descriptor only.
\<close>

lemma send_all_delivers:
  assumes "willing (length s) (ans_send w)"
  shows "\<exists>w' cs. send_all f s 0 w = (True, w') \<and> calls w' = calls w @ cs \<and> sent f cs = s
    \<and> (\<forall>g. g \<noteq> f \<longrightarrow> sent g cs = [])"
proof -
  obtain ok w' where s: "send_all f s 0 w = (ok, w')" by (metis prod.exhaust)
  with send_all_willing [OF s] assms send_all_spec [OF s] show ?thesis by auto
qed

section \<open>Printing\<close>

text \<open>
  Between two states of the loop: the answers of \<open>recv\<close> consumed in between, with what was
  buffered, have been printed line by line and the unfinished rest kept.
\<close>

definition printed :: "Client \<Rightarrow> Client \<Rightarrow> bool" where
  "printed c c' \<longleftrightarrow> (\<exists>used. ans_recv (cl_os c) = used @ ans_recv (cl_os c')
     \<and> cl_printed c' = cl_printed c @ map c_str (lines (lb_buf (cl_in c) @ recvd used))
     \<and> lb_buf (cl_in c') = snd (split_nl (lb_buf (cl_in c) @ recvd used)))"

lemma printed_trans:
  assumes "printed a b" and "printed b c"
  shows "printed a c"
proof -
  obtain us where 1: "ans_recv (cl_os a) = us @ ans_recv (cl_os b)"
    "cl_printed b = cl_printed a @ map c_str (lines (lb_buf (cl_in a) @ recvd us))"
    "lb_buf (cl_in b) = snd (split_nl (lb_buf (cl_in a) @ recvd us))"
    using assms(1) unfolding printed_def by blast
  obtain vs where 2: "ans_recv (cl_os b) = vs @ ans_recv (cl_os c)"
    "cl_printed c = cl_printed b @ map c_str (lines (lb_buf (cl_in b) @ recvd vs))"
    "lb_buf (cl_in c) = snd (split_nl (lb_buf (cl_in b) @ recvd vs))"
    using assms(2) unfolding printed_def by blast
  show ?thesis
    unfolding printed_def
    using 1 2 lines_append [of "lb_buf (cl_in a) @ recvd us" "recvd vs"]
      residue_append [of "lb_buf (cl_in a) @ recvd us" "recvd vs"]
    by (intro exI [of _ "us @ vs"]) (simp add: recvd_append)
qed

text \<open>A step that reads nothing, from a buffer without a complete line.\<close>

lemma printed_quiet:
  assumes "ans_recv (cl_os c) = us @ ans_recv (cl_os c')" and "recvd us = []" and "cl_printed c' = cl_printed c"
    and "cl_in c' = cl_in c" and "NL \<notin> set (lb_buf (cl_in c))"
  shows "printed c c'"
  unfolding printed_def using assms by (intro exI [of _ us]) (simp add: lines_def split_nl_no_NL)

lemma client_stdin_printed:
  assumes "client_stdin f c = (go, c')" and "NL \<notin> set (lb_buf (cl_in c))"
  shows "printed c c' \<and> cl_in c' = cl_in c"
proof -
  obtain ok w where s: "send_all f (case fst (getline (cl_stdin c)) of Some line \<Rightarrow> line @ [NL] | None \<Rightarrow> ''QUIT'' @ [NL]) 0 (cl_os c) = (ok, w)"
    by (metis prod.exhaust)
  from send_all_spec [OF s] have "ans_recv w = ans_recv (cl_os c)" by blast
  moreover have "cl_os c' = w \<or> cl_os c' = log_call (SysShutdown f) w" "cl_in c' = cl_in c" "cl_printed c' = cl_printed c"
    using assms(1) s by (auto simp: client_stdin_def split: list.splits option.splits prod.splits)
  ultimately show ?thesis using assms(2) by (auto intro!: printed_quiet [where us = "[]"])
qed

lemma client_recv_printed:
  assumes "client_recv f c = (go, c')" and "NL \<notin> set (lb_buf (cl_in c))"
  shows "printed c c' \<and> NL \<notin> set (lb_buf (cl_in c'))"
proof -
  obtain a w where a: "sys_recv f 4096 (cl_os c) = (a, w)" by (metis prod.exhaust)
  obtain us where us: "ans_recv (cl_os c) = us @ ans_recv w" "recvd us = (case a of Ret b \<Rightarrow> b | Fail _ \<Rightarrow> [])"
    by (rule sys_recv_used [OF a])
  show ?thesis
  proof (cases "\<exists>b. a = Ret b \<and> b \<noteq> []")
    case True
    then obtain b where b: "a = Ret b" "b \<noteq> []" by blast
    let ?n = "lb_buf (cl_in c) @ b"
    have "c' = c\<lparr>cl_os := w, cl_in := \<lparr>lb_buf = snd (split_nl ?n)\<rparr>, cl_printed := cl_printed c @ map c_str (lines ?n)\<rparr>"
      using assms(1) a b by (auto simp: client_recv_def drain_lines_split lb_append_def lines_def)
    with us b(1) split_nl_residue show ?thesis unfolding printed_def by (auto intro!: exI [of _ us])
  next
    case False
    then have "recvd us = []" using us(2) by (cases a) auto
    moreover have "c' = c\<lparr>cl_os := w\<rparr>"
      using assms(1) a False by (cases a) (auto simp: client_recv_def)
    ultimately show ?thesis using us(1) assms(2) by (auto intro!: printed_quiet [where us = us])
  qed
qed

lemma client_turn_printed:
  assumes "client_turn f a c = (go, c')" and "NL \<notin> set (lb_buf (cl_in c))"
  shows "printed c c' \<and> NL \<notin> set (lb_buf (cl_in c'))"
proof -
  have refl: "printed c c" using assms(2) by (intro printed_quiet [where us = "[]"]) auto
  obtain g1 c1 where 1: "(if cl_stdin_open c \<and> (\<exists>rs. a = Ret (True, rs)) then client_stdin f c else (True, c)) = (g1, c1)"
    by (metis prod.exhaust)
  have p1: "printed c c1" "NL \<notin> set (lb_buf (cl_in c1))"
    using 1 assms(2) refl client_stdin_printed [of f c g1 c1] by (auto split: if_splits)
  have "c' = c \<or> c' = c1 \<or> client_recv f c1 = (go, c')"
    using assms(1) 1 by (auto simp: client_turn_def split: sysret.splits prod.splits if_splits)
  with p1 refl assms(2) client_recv_printed [of f c1 go c'] show ?thesis by (auto intro: printed_trans)
qed

lemma client_turns_printed:
  "NL \<notin> set (lb_buf (cl_in c)) \<Longrightarrow> printed c (snd (client_turns f turns c))"
proof (induction turns arbitrary: c)
  case Nil
  then show ?case by (auto intro: printed_quiet [where us = "[]"])
next
  case (Cons a as)
  obtain go c1 where t: "client_turn f a c = (go, c1)" by (metis prod.exhaust)
  note p = client_turn_printed [OF t Cons.prems]
  have "printed c1 (c1\<lparr>cl_os := log_call (SysClose f) (cl_os c1)\<rparr>)"
    using p by (intro printed_quiet [where us = "[]"]) auto
  with t p Cons.IH [of c1] show ?case by (cases go) (auto intro: printed_trans)
qed

text \<open>
  C24: whatever the sizes of the reads and whatever the interleaving with stdin, the client prints
  exactly the complete lines of the byte stream it has received, in order, each up to its
  first NUL and less a trailing carriage return, and keeps exactly the unfinished rest.
\<close>

theorem client_prints_lines:
  "\<exists>used. ans_recv w = used @ ans_recv (cl_os (snd (client_loop f turns reads w)))
    \<and> cl_printed (snd (client_loop f turns reads w)) = map c_str (map strip_cr (fst (split_nl (recvd used))))
    \<and> lb_buf (cl_in (snd (client_loop f turns reads w))) = snd (split_nl (recvd used))"
  using client_turns_printed [of "\<lparr>cl_os = w, cl_in = lb_init, cl_stdin_open = True, cl_stdin = stdin_open reads, cl_printed = []\<rparr>" f turns]
  by (simp add: client_loop_def printed_def lb_init_def lines_def)

section \<open>What goes out\<close>

text \<open>The bytes owed for the lines of the input: every line with its newline, then \<open>QUIT\<close>.\<close>

fun typed_bytes :: "string list \<Rightarrow> string" where
  "typed_bytes [] = ''QUIT'' @ [NL]"
| "typed_bytes (l # ls) = l @ [NL] @ typed_bytes ls"

definition owed :: "Client \<Rightarrow> string" where
  "owed c = typed_bytes (typed (cl_stdin c))"

text \<open>
  What a stretch of the loop sends: a prefix of what is owed, exactly what was consumed while
  it goes on, and nothing any more once the input has ended.
\<close>

definition sends :: "fd \<Rightarrow> bool \<Rightarrow> Client \<Rightarrow> Client \<Rightarrow> bool" where
  "sends f go c c' \<longleftrightarrow> (\<exists>cs. calls (cl_os c') = calls (cl_os c) @ cs \<and>
     (if cl_stdin_open c
      then prefix (sent f cs) (owed c) \<and>
        (go \<and> cl_stdin_open c' \<longrightarrow> sent f cs @ owed c' = owed c)
      else sent f cs = [] \<and> \<not> cl_stdin_open c'))"

lemma sends_quiet:
  assumes "calls (cl_os c') = calls (cl_os c) @ cs" and "sent f cs = []"
    and "cl_stdin_open c' = cl_stdin_open c" and "cl_stdin c' = cl_stdin c"
  shows "sends f go c c'"
  unfolding sends_def using assms by (intro exI [of _ cs]) (simp add: owed_def)

lemma sends_trans:
  assumes "sends f True a b" and "sends f go b c"
  shows "sends f go a c"
proof -
  obtain cs where 1: "calls (cl_os b) = calls (cl_os a) @ cs"
    "if cl_stdin_open a then prefix (sent f cs) (owed a) \<and>
       (cl_stdin_open b \<longrightarrow> sent f cs @ owed b = owed a)
     else sent f cs = [] \<and> \<not> cl_stdin_open b"
    using assms(1) unfolding sends_def by auto
  obtain ds where 2: "calls (cl_os c) = calls (cl_os b) @ ds"
    "if cl_stdin_open b then prefix (sent f ds) (owed b) \<and>
       (go \<and> cl_stdin_open c \<longrightarrow> sent f ds @ owed c = owed b)
     else sent f ds = [] \<and> \<not> cl_stdin_open c"
    using assms(2) unfolding sends_def by auto
  have "prefix (sent f cs @ sent f ds) (owed a)" if "cl_stdin_open a" "cl_stdin_open b"
    using 1(2) 2(2) that by (metis same_prefix_prefix)
  with 1 2 show ?thesis
    unfolding sends_def by (intro exI [of _ "cs @ ds"]) (auto split: if_splits)
qed

lemma client_stdin_sends:
  assumes "client_stdin f c = (go, c')" and "cl_stdin_open c"
  shows "sends f go c c'"
proof -
  obtain r si where g: "getline (cl_stdin c) = (r, si)" by (metis prod.exhaust)
  note ty = getline_typed [OF g]
  show ?thesis
  proof (cases r)
    case (Some l)
    obtain w where s: "send_all f (l @ [NL]) 0 (cl_os c) = (go, w)" and c': "c' = c\<lparr>cl_stdin := si, cl_os := w\<rparr>"
      using assms(1) g Some by (auto simp: client_stdin_def split: prod.splits)
    have o: "owed c = l @ [NL] @ owed c'" using ty Some c' by (simp add: owed_def)
    obtain cs where "calls w = calls (cl_os c) @ cs" "prefix (sent f cs) (l @ [NL])" "go \<longrightarrow> sent f cs = l @ [NL]"
      using send_all_spec [OF s] by auto
    then show ?thesis
      unfolding sends_def using assms(2) c' o prefix_prefix [of "sent f cs" "l @ [NL]" "owed c'"]
      by (intro exI [of _ cs]) auto
  next
    case None
    then have q: "owed c = ''QUIT'' @ [NL]" using ty by (simp add: owed_def)
    obtain ok w where s: "send_all f (''QUIT'' @ [NL]) 0 (cl_os c) = (ok, w)" by (metis prod.exhaust)
    obtain cs where cs: "calls w = calls (cl_os c) @ cs" "prefix (sent f cs) (''QUIT'' @ [NL])"
      using send_all_spec [OF s] by auto
    have "cl_os c' = log_call (SysShutdown f) w" "\<not> cl_stdin_open c'"
      using assms(1) s None g by (auto simp: client_stdin_def)
    then show ?thesis
      unfolding sends_def using assms(2) q cs by (intro exI [of _ "cs @ [SysShutdown f]"]) simp
  qed
qed

lemma client_recv_sends: "client_recv f c = (go, c') \<Longrightarrow> sends f go' c c'"
  by (rule sends_quiet [where cs = "[SysRecv f]"])
    (auto simp: client_recv_def sys_recv_def split: list.splits sysret.splits if_splits prod.splits)

lemma client_turn_sends:
  assumes "client_turn f a c = (go, c')"
  shows "sends f go c c'"
proof -
  have refl: "sends f g c c" for g by (rule sends_quiet [where cs = "[]"]) auto
  obtain g1 c1 where 1: "(if cl_stdin_open c \<and> (\<exists>rs. a = Ret (True, rs)) then client_stdin f c else (True, c)) = (g1, c1)"
    by (metis prod.exhaust)
  have p1: "sends f g1 c c1"
    using 1 refl client_stdin_sends [of f c g1 c1] by (auto split: if_splits)
  have "c' = c \<or> go = g1 \<and> c' = c1 \<or> g1 \<and> client_recv f c1 = (go, c')"
    using assms 1 by (auto simp: client_turn_def split: sysret.splits prod.splits if_splits)
  with p1 refl show ?thesis by (auto intro: sends_trans client_recv_sends)
qed

lemma client_turns_sends:
  "client_turns f turns c = (go, c') \<Longrightarrow> sends f go c c'"
proof (induction turns arbitrary: c)
  case Nil
  then show ?case by (auto intro: sends_quiet [where cs = "[]"])
next
  case (Cons a as)
  obtain g1 c1 where t: "client_turn f a c = (g1, c1)" by (metis prod.exhaust)
  note s = client_turn_sends [OF t]
  show ?case
  proof (cases g1)
    case True
    with t Cons.prems Cons.IH [of c1] s show ?thesis by (auto intro: sends_trans)
  next
    case False
    with t Cons.prems have "\<not> go" "c' = c1\<lparr>cl_os := log_call (SysClose f) (cl_os c1)\<rparr>" by simp_all
    moreover obtain cs where "calls (cl_os c1) = calls (cl_os c) @ cs"
      "if cl_stdin_open c then prefix (sent f cs) (owed c) else sent f cs = [] \<and> \<not> cl_stdin_open c1"
      using s unfolding sends_def by auto
    ultimately show ?thesis unfolding sends_def by (intro exI [of _ "cs @ [SysClose f]"]) auto
  qed
qed

lemma client_loop_sends:
  assumes "client_loop f turns reads w = (running, c)"
  shows "\<exists>cs. calls (cl_os c) = calls w @ cs \<and> prefix (sent f cs) (typed_bytes (text_lines (typed_text reads)))
    \<and> (running \<and> cl_stdin_open c \<longrightarrow> sent f cs @ owed c = typed_bytes (text_lines (typed_text reads)))"
  using client_turns_sends [OF assms [unfolded client_loop_def]] unfolding sends_def by (simp add: owed_def typed_open)

text \<open>
  C25: the bytes the client loop has sent are always a prefix of what it owes for its standard
  input, every line of the text read with a newline, an unfinished last one included, and \<open>QUIT\<close>
  at its end, however the input and the writes are cut into blocks; while the loop is running
  and the input open, they are exactly the lines taken from the input so far.
\<close>

theorem client_sends_lines:
  assumes "client_loop f turns reads w = (running, c)"
  shows "\<exists>cs. calls (cl_os c) = calls w @ cs \<and> prefix (sent f cs) (typed_bytes (text_lines (typed_text reads)))
    \<and> (running \<and> cl_stdin_open c \<longrightarrow>
         sent f cs @ typed_bytes (typed (cl_stdin c)) = typed_bytes (text_lines (typed_text reads)))"
  using client_loop_sends [OF assms] by (simp add: owed_def)

theorem client_sends_lines_witness:
  "\<exists>c cs. client_loop 5 [Ret (True, False)] [''CANC'', ''EL 1'' @ [NL] @ ''BUY''] \<lparr>ans_send = [Ret 3, Fail EINTR, Ret 100], ans_recv = [],
       ans_accept = [], ans_int = [], bucket_order = (\<lambda>_ ks. ks), calls = []\<rparr> = (True, c)
     \<and> calls (cl_os c) = cs \<and> sent 5 cs @ typed_bytes (typed (cl_stdin c)) = typed_bytes [''CANCEL 1'', ''BUY'']"
proof -
  let ?w = "\<lparr>ans_send = [Ret 3, Fail EINTR, Ret 100], ans_recv = [], ans_accept = [], ans_int = [],
      bucket_order = (\<lambda>_ ks. ks), calls = []\<rparr>"
  let ?r = "[''CANC'', ''EL 1'' @ [NL] @ ''BUY'']"
  obtain r c where l: "client_loop 5 [Ret (True, False)] ?r ?w = (r, c)" by (metis prod.exhaust)
  have "r" "cl_stdin_open c"
    using l by (auto simp: client_loop_def client_turn_def client_stdin_def stdin_open_def getline.simps at_end_def
        send_all.simps sys_send_def log_call_def)
  moreover have "text_lines (typed_text ?r) = [''CANCEL 1'', ''BUY'']" by (simp add: text_lines_def typed_text_def)
  ultimately show ?thesis using l client_sends_lines [OF l] by auto
qed

text \<open>A turn in which \<open>select\<close> does not report standard input leaves it alone.\<close>

fun reports_stdin :: "(bool \<times> bool) sysret \<Rightarrow> bool" where
  "reports_stdin (Ret (rin, _)) = rin"
| "reports_stdin (Fail _) = False"

lemma client_turn_idle:
  assumes "client_turn f a c = (go, c')" and "\<not> reports_stdin a"
  shows "cl_stdin c' = cl_stdin c \<and> (\<exists>cs. calls (cl_os c') = calls (cl_os c) @ cs \<and> sent f cs = [])"
proof -
  have recv: "cl_stdin x' = cl_stdin x \<and> (\<exists>cs. calls (cl_os x') = calls (cl_os x) @ cs \<and> sent f cs = [])"
    if "client_recv f x = (g, x')" for x x' g
    using that by (auto simp: client_recv_def sys_recv_def split: list.splits sysret.splits if_splits prod.splits)
  show ?thesis
    using assms recv by (cases a rule: reports_stdin.cases) (auto simp: client_turn_def split: if_splits)
qed

lemma client_turns_idle:
  assumes "client_turns f turns c = (go, c')" and "\<forall>a \<in> set turns. \<not> reports_stdin a"
  shows "cl_stdin c' = cl_stdin c \<and> (\<exists>cs. calls (cl_os c') = calls (cl_os c) @ cs \<and> sent f cs = [])"
  using assms
proof (induction turns arbitrary: c)
  case Nil
  then show ?case by simp
next
  case (Cons a as)
  obtain g1 c1 where t: "client_turn f a c = (g1, c1)" by (metis prod.exhaust)
  obtain cs where cs: "cl_stdin c1 = cl_stdin c" "calls (cl_os c1) = calls (cl_os c) @ cs" "sent f cs = []"
    using client_turn_idle [OF t] Cons.prems(2) by auto
  show ?case
  proof (cases g1)
    case True
    with t Cons.prems Cons.IH [of c1] cs show ?thesis by auto
  next
    case False
    with t Cons.prems(1) cs show ?thesis by (auto intro: exI [of _ "cs @ [SysClose f]"])
  qed
qed

text \<open>
  C36: lines that arrive together are held back: when the first block read from standard input
  holds a complete line and more, the client sends that line only; the rest, complete lines
  included, stays in the buffer of the library, and as long as \<open>select\<close>, which sees only what the
  kernel holds, does not report standard input again, nothing more is sent.
\<close>

theorem lines_held_back:
  assumes "NL \<notin> set l" and "client_loop f (Ret (True, False) # turns) [l @ [NL] @ rest] w = (running, c)"
    and "\<forall>a \<in> set turns. \<not> reports_stdin a"
  shows "si_buf (cl_stdin c) = rest \<and> si_reads (cl_stdin c) = []
    \<and> (\<exists>cs. calls (cl_os c) = calls w @ cs \<and> prefix (sent f cs) (l @ [NL]))"
proof -
  let ?c0 = "\<lparr>cl_os = w, cl_in = lb_init, cl_stdin_open = True, cl_stdin = stdin_open [l @ [NL] @ rest], cl_printed = []\<rparr>"
  have g: "getline (stdin_open [l @ [NL] @ rest]) = (Some l, \<lparr>si_buf = rest, si_reads = [], si_eof = False\<rparr>)"
    using assms(1) by (simp add: getline.simps stdin_open_def takeWhile_append dropWhile_append)
  obtain ok w1 where s: "send_all f (l @ [NL]) 0 w = (ok, w1)" by (metis prod.exhaust)
  obtain cs where cs: "calls w1 = calls w @ cs" "prefix (sent f cs) (l @ [NL])" using send_all_spec [OF s] by auto
  let ?c1 = "?c0\<lparr>cl_stdin := \<lparr>si_buf = rest, si_reads = [], si_eof = False\<rparr>, cl_os := w1\<rparr>"
  have t: "client_turn f (Ret (True, False)) ?c0 = (ok, ?c1)" using g s by (simp add: client_turn_def client_stdin_def)
  show ?thesis
  proof (cases ok)
    case True
    then have "client_turns f turns ?c1 = (running, c)" using assms(2) t by (simp add: client_loop_def)
    from client_turns_idle [OF this assms(3)] obtain ds where
      "cl_stdin c = cl_stdin ?c1" "calls (cl_os c) = calls w1 @ ds" "sent f ds = []" by auto
    with cs show ?thesis by (intro conjI exI [of _ "cs @ ds"]) simp_all
  next
    case False
    then have "c = ?c1\<lparr>cl_os := log_call (SysClose f) w1\<rparr>" using assms(2) t by (simp add: client_loop_def)
    with cs show ?thesis by (auto intro!: exI [of _ "cs @ [SysClose f]"])
  qed
qed

theorem lines_held_back_witness:
  "\<exists>c cs. client_loop 5 [Ret (True, False), Ret (False, False)] [''BUY JNST 5 100'' @ [NL] @ ''CANCEL 0'' @ [NL]]
       \<lparr>ans_send = [Ret 100], ans_recv = [], ans_accept = [], ans_int = [], bucket_order = (\<lambda>_ ks. ks), calls = []\<rparr> = (True, c)
     \<and> si_buf (cl_stdin c) = ''CANCEL 0'' @ [NL] \<and> calls (cl_os c) = cs \<and> prefix (sent 5 cs) (''BUY JNST 5 100'' @ [NL])"
proof -
  let ?w = "\<lparr>ans_send = [Ret 100], ans_recv = [], ans_accept = [], ans_int = [], bucket_order = (\<lambda>_ ks. ks), calls = []\<rparr>"
  let ?l = "''BUY JNST 5 100''" and ?r = "''CANCEL 0'' @ [NL]"
  obtain r c where l: "client_loop 5 [Ret (True, False), Ret (False, False)] [?l @ [NL] @ ?r] ?w = (r, c)" by (metis prod.exhaust)
  have r: "r"
    using l by (auto simp: client_loop_def client_turn_def client_stdin_def stdin_open_def getline.simps
        send_all.simps sys_send_def log_call_def)
  from lines_held_back [OF _ l] have "si_buf (cl_stdin c) = ?r \<and> (\<exists>cs. calls (cl_os c) = calls ?w @ cs \<and> prefix (sent 5 cs) (?l @ [NL]))"
    by simp
  with l r show ?thesis by auto
qed



lemma subscribe_all_spec:
  "subscribe_all f insts w = (ok, w') \<Longrightarrow> \<exists>cs. calls w' = calls w @ cs
     \<and> prefix (sent f cs) (concat (map (\<lambda>i. ''SUBSCRIBE '' @ i @ [NL]) insts))
     \<and> (ok \<longrightarrow> sent f cs = concat (map (\<lambda>i. ''SUBSCRIBE '' @ i @ [NL]) insts))"
proof (induction insts arbitrary: w)
  case Nil
  then show ?case by simp
next
  case (Cons i insts)
  obtain ok1 w1 where s: "send_all f (''SUBSCRIBE '' @ i @ [NL]) 0 w = (ok1, w1)" by (metis prod.exhaust)
  obtain cs where cs: "calls w1 = calls w @ cs" "prefix (sent f cs) (''SUBSCRIBE '' @ i @ [NL])"
    "ok1 \<longrightarrow> sent f cs = ''SUBSCRIBE '' @ i @ [NL]"
    using send_all_spec [OF s] by auto
  show ?case
  proof (cases ok1)
    case True
    with Cons.prems s have "subscribe_all f insts w1 = (ok, w')" by simp
    from Cons.IH [OF this] obtain ds where "calls w' = calls w1 @ ds"
      "prefix (sent f ds) (concat (map (\<lambda>i. ''SUBSCRIBE '' @ i @ [NL]) insts))"
      "ok \<longrightarrow> sent f ds = concat (map (\<lambda>i. ''SUBSCRIBE '' @ i @ [NL]) insts)" by blast
    with cs True show ?thesis by (intro exI [of _ "cs @ ds"]) simp
  next
    case False
    with Cons.prems s have "\<not> ok" "w' = w1" by simp_all
    with cs(1) prefix_prefix [OF cs(2)] show ?thesis by (intro exI [of _ cs]) simp
  qed
qed

text \<open>
  C27: \<open>market_data_client\<close> sends one subscription for each instrument named on its command line, in
  that order and completely, before it sends anything else; when a subscription cannot be
  sent it exits with 1 having sent no more than a prefix of them.
\<close>

theorem market_data_startup:
  assumes "connect_to (argv ! 1) (argv ! 2) w = (Some f, w1)" and "4 \<le> length argv"
    and "market_data_main argv turns reads w = (code, w', r)"
  shows "\<exists>cs ds. calls w' = calls w1 @ cs @ ds
    \<and> (r = None \<longrightarrow> code = 1 \<and> ds = [] \<and> prefix (sent f cs) (concat (map (\<lambda>i. ''SUBSCRIBE '' @ i @ [NL]) (drop 3 argv))))
    \<and> (r \<noteq> None \<longrightarrow> code = 0 \<and> sent f cs = concat (map (\<lambda>i. ''SUBSCRIBE '' @ i @ [NL]) (drop 3 argv))
         \<and> prefix (sent f ds) (typed_bytes (text_lines (typed_text reads))))"
proof -
  obtain ok w2 where s: "subscribe_all f (drop 3 argv) w1 = (ok, w2)" by (metis prod.exhaust)
  obtain g cl where l: "client_loop f turns reads w2 = (g, cl)" by (metis prod.exhaust)
  obtain cs where cs: "calls w2 = calls w1 @ cs"
    "prefix (sent f cs) (concat (map (\<lambda>i. ''SUBSCRIBE '' @ i @ [NL]) (drop 3 argv)))"
    "ok \<longrightarrow> sent f cs = concat (map (\<lambda>i. ''SUBSCRIBE '' @ i @ [NL]) (drop 3 argv))"
    using subscribe_all_spec [OF s] by blast
  obtain ds where ds: "calls (cl_os cl) = calls w2 @ ds" "prefix (sent f ds) (typed_bytes (text_lines (typed_text reads)))"
    using client_loop_sends [OF l] by auto
  show ?thesis
  proof (cases ok)
    case True
    with assms s l have "code = 0" "w' = cl_os cl" "r = Some cl" by (simp_all add: market_data_main_def)
    with cs ds True show ?thesis by (intro exI [of _ cs] exI [of _ ds]) simp
  next
    case False
    with assms s have "code = 1" "w' = w2" "r = None" by (simp_all add: market_data_main_def)
    with cs show ?thesis by (intro exI [of _ cs] exI [of _ "[]"]) simp
  qed
qed

theorem market_data_startup_witness:
  "\<exists>w' c p cs ds. market_data_main [''market_data_client'', ''127.0.0.1'', ''5000'', ''JNST'', ''IMCT''] [] []
      \<lparr>ans_send = [Ret 100, Ret 7, Ret 100], ans_recv = [], ans_accept = [], ans_int = [Ret 5, Ret 1, Ret 0],
       bucket_order = (\<lambda>_ ks. ks), calls = []\<rparr> = (0, w', Some c)
    \<and> calls w' = p @ cs @ ds \<and> sent 5 cs = ''SUBSCRIBE JNST'' @ [NL] @ ''SUBSCRIBE IMCT'' @ [NL]"
proof -
  let ?w = "\<lparr>ans_send = [Ret 100, Ret 7, Ret 100], ans_recv = [], ans_accept = [], ans_int = [Ret 5, Ret 1, Ret 0],
       bucket_order = (\<lambda>_ ks. ks), calls = []\<rparr>"
  let ?argv = "[''market_data_client'', ''127.0.0.1'', ''5000'', ''JNST'', ''IMCT'']"
  obtain w1 where c: "connect_to (?argv ! 1) (?argv ! 2) ?w = (Some 5, w1)"
    by (auto simp: connect_to_def sys_int_def log_call_def)
  obtain code w' r where m: "market_data_main ?argv [] [] ?w = (code, w', r)" by (metis prod_cases3)
  have "code = 0" "r \<noteq> None"
    using m by (auto simp: market_data_main_def connect_to_def sys_int_def log_call_def send_all.simps sys_send_def client_loop_def)
  with m obtain cl where cl: "market_data_main ?argv [] [] ?w = (0, w', Some cl)" by auto
  from market_data_startup [OF c _ m] \<open>r \<noteq> None\<close> obtain cs ds where
    "calls w' = calls w1 @ cs @ ds" "sent 5 cs = ''SUBSCRIBE JNST'' @ [NL] @ ''SUBSCRIBE IMCT'' @ [NL]" by auto
  with cl show ?thesis by (intro exI [of _ w'] exI [of _ cl] exI [of _ "calls w1"] exI [of _ cs] exI [of _ ds] conjI)
qed

end
