(* ===== verification/Dialogue.thy ===== *)
theory Dialogue
  imports Server_Sim Client
begin

text \<open>
  The server and its clients together: what a client writes arrives as the lines it typed, what
  the server sends is a sequence of well-formed messages, and the lines of the protocol are
  read as the requests they stand for. The lemmas here carry the properties of the
  root theory.
\<close>

section \<open>From a client to the server\<close>

lemma lines_prefix: "prefix a b \<Longrightarrow> prefix (lines a) (lines b)"
  unfolding prefix_def by (metis lines_append)

text \<open>The lines a client writes: those of its input, then \<open>QUIT\<close>.\<close>

lemma lines_typed: "\<forall>l \<in> set ls. NL \<notin> set l \<Longrightarrow> lines (typed_bytes ls) = map strip_cr (ls @ [''QUIT''])"
  by (induction ls) (simp_all add: lines_def)

lemma lines_first:
  "NL \<notin> set l \<Longrightarrow> lines (l @ NL # typed_bytes (text_lines b)) = map strip_cr (l # text_lines b @ [''QUIT''])"
  using lines_typed [of "text_lines b"] text_lines_clean [of _ b] by simp

lemma trader_sent:
  assumes "connect_to (argv ! 1) (argv ! 2) w = (Some f, w1)" and "trader_main argv turns reads w = (code, w', Some c)"
  shows "prefix (sent f (calls w')) (sent f (calls w) @ (''LOGIN '' @ argv ! 3) @ NL # typed_bytes (text_lines (typed_text reads)))"
proof -
  have len: "\<not> length argv < 4" using assms(2) by (auto simp: trader_main_def split: if_splits)
  have c1: "sent f (calls w1) = sent f (calls w)"
    using assms(1) by (auto simp: connect_to_def split: prod.splits sysret.splits if_splits dest!: sys_int_frame)
  obtain ok w2 where s: "send_all f (''LOGIN '' @ argv ! 3 @ [NL]) 0 w1 = (ok, w2)" by (metis prod.exhaust)
  obtain g cl where l: "client_loop f turns reads w2 = (g, cl)" by (metis prod.exhaust)
  have ok: ok and w': "w' = cl_os cl" using assms len s l by (auto simp: trader_main_def split: bool.splits)
  obtain cs where cs: "calls w2 = calls w1 @ cs" "sent f cs = ''LOGIN '' @ argv ! 3 @ [NL]"
    using send_all_spec [OF s] ok by auto
  obtain ds where "calls (cl_os cl) = calls w2 @ ds" "prefix (sent f ds) (typed_bytes (text_lines (typed_text reads)))"
    using client_loop_sends [OF l] by auto
  with cs c1 w' show ?thesis by simp
qed

section \<open>From the server to a client\<close>

definition printable :: "server_msg \<Rightarrow> bool" where
  "printable m \<longleftrightarrow> wire_ok m \<and> (case m of MError r \<Rightarrow> CHR 0x00 \<notin> set r | _ \<Rightarrow> True)"

definition messages :: "string \<Rightarrow> bool" where
  "messages b \<longleftrightarrow> (\<exists>ms. (\<forall>m \<in> set ms. printable m) \<and> b = concat (map render ms))"

lemma messages_Nil [simp]: "messages []"
  unfolding messages_def by (rule exI [of _ "[]"]) simp

lemma messages_append: "messages a \<Longrightarrow> messages b \<Longrightarrow> messages (a @ b)"
  unfolding messages_def
proof (elim exE conjE)
  fix ms ns
  assume "\<forall>m \<in> set ms. printable m" "a = concat (map render ms)" "\<forall>m \<in> set ns. printable m" "b = concat (map render ns)"
  then show "\<exists>ms. (\<forall>m \<in> set ms. printable m) \<and> a @ b = concat (map render ms)"
    by (intro exI [of _ "ms @ ns"]) auto
qed

lemma messages_concat: "(\<And>x. x \<in> set xs \<Longrightarrow> messages (h x)) \<Longrightarrow> messages (concat (map h xs))"
  by (induction xs) (auto intro: messages_append)

lemma messages_render: "printable m \<Longrightarrow> messages (render m)"
  unfolding messages_def by (intro exI [of _ "[m]"]) simp

lemma messages_to: "messages m \<Longrightarrow> messages (to f m g)"
  by (simp add: to_def)

lemma messages_msgs:
  "messages msg_ok" "messages (msg_order_accepted i)" "messages (msg_order_cancelled i)"
  "inst = 0 \<or> inst = 1 \<Longrightarrow> messages (msg_bought inst q p)"
  "inst = 0 \<or> inst = 1 \<Longrightarrow> messages (msg_sold inst q p)"
  "inst = 0 \<or> inst = 1 \<Longrightarrow> messages (msg_trade inst q p)"
  "set e \<inter> {NL, CR, CHR 0x00} = {} \<Longrightarrow> messages (msg_error e)"
  using messages_render [of MOk] messages_render [of "MAccepted i"] messages_render [of "MCancelled i"]
    messages_render [of "MBought inst q p"] messages_render [of "MSold inst q p"] messages_render [of "MTrade inst q p"]
    messages_render [of "MError e"]
  by (auto simp: printable_def)

lemma fill_inst: "fill side inst price ow q rs = (rem, rs', ts) \<Longrightarrow> t \<in> set ts \<Longrightarrow> t_inst t = inst"
  by (induction side inst price ow q rs arbitrary: rem rs' ts rule: fill.induct)
    (auto simp: Let_def mk_trade_def split: if_splits prod.splits)

lemma news_messages: "t_inst t = 0 \<or> t_inst t = 1 \<Longrightarrow> messages (news sp t g)"
  unfolding news_def by (intro messages_append) (auto simp: messages_msgs)

lemma instrument_01: "n \<in> set kInstruments \<Longrightarrow> instrument_index n = 0 \<or> instrument_index n = 1"
  by (auto simp: kInstruments_def instrument_index_def)

lemma request_place: "request r tk = Place side i q p \<Longrightarrow> i = 0 \<or> i = 1"
  by (auto simp: request_def req_login_def req_order_def req_cancel_def req_listen_def for_trader_def
      dest: instrument_01 split: list.splits if_splits Role.splits option.splits)

text \<open>A reason that breaks no line and ends no C string.\<close>

definition plain :: "string \<Rightarrow> bool" where
  "plain e \<longleftrightarrow> set e \<inter> {NL, CR, CHR 0x00} = {}"

lemma plain_reasons:
  "plain ''unknown instrument''" "plain ''bad quantity''" "plain ''bad price''" "plain ''bad arguments''"
  "plain ''bad order id''" "plain ''already logged in''" "plain ''not permitted for this client type''"
  "plain ''not logged in''" "plain ''unknown command''" "plain ''duplicate username''" "plain ''unknown order''"
  "plain ''not your order''" "plain ''line too long''"
  by (simp_all add: plain_def)

lemma req_refuse:
  "req_login r args = Refuse e \<Longrightarrow> plain e" "req_order side args = Refuse e \<Longrightarrow> plain e"
  "req_cancel args = Refuse e \<Longrightarrow> plain e" "req_listen on args = Refuse e \<Longrightarrow> plain e"
  by (auto simp: req_login_def req_order_def req_cancel_def req_listen_def plain_reasons
      split: list.splits if_splits Role.splits option.splits)

lemma for_trader_refuse: "for_trader r q = Refuse e \<Longrightarrow> plain e \<or> q = Refuse e"
  by (auto simp: for_trader_def plain_reasons split: Role.splits)

lemma if_eqE: "(if b then x else y) = z \<Longrightarrow> (x = z \<Longrightarrow> P) \<Longrightarrow> (y = z \<Longrightarrow> P) \<Longrightarrow> P"
  by (simp split: if_splits)

lemma request_refuse:
  assumes "request r tk = Refuse e"
  shows "plain e"
proof (cases tk)
  case Nil
  with assms show ?thesis by (simp add: request_def)
next
  case (Cons v args)
  from assms [unfolded request_def Cons list.case] show ?thesis
    by (elim if_eqE) (auto dest!: for_trader_refuse req_refuse simp: plain_reasons)
qed

lemma perform_messages:
  assumes "perform f x (request r tk) sp = (sp', out)"
  shows "messages (out g)"
proof (cases "request r tk")
  case (Refuse e)
  from request_refuse [OF this] have "messages (msg_error e)" by (simp add: messages_msgs plain_def)
  with assms Refuse show ?thesis by (auto simp: perform_def intro: messages_to)
next
  case (Login u)
  have "messages (msg_error ''duplicate username'')" by (rule messages_msgs(7)) simp
  with assms Login show ?thesis by (auto simp: perform_def messages_msgs messages_to split: if_splits)
next
  case (Place side i q p)
  obtain id ts b where s: "spec_submit side i q p (se_owner x) (sp_book sp) = (id, ts, b)" by (metis prod_cases3)
  have "t_inst t = i" if "t \<in> set ts" for t
    using s that fill_inst by (fastforce simp: spec_submit_def split: prod.splits)
  with request_place [OF Place] have "messages (concat (map (\<lambda>t. news sp t g) ts))"
    by (intro messages_concat news_messages) auto
  with assms Place s show ?thesis
    by (auto simp: perform_def messages_msgs intro!: messages_append messages_to)
next
  case (Withdraw i)
  have "messages (msg_error e)" if "spec_cancel i (se_owner x) (sp_book sp) = Inl e" for e
    using that plain_reasons(11,12)
    by (intro messages_msgs(7)) (auto simp: spec_cancel_def plain_def split: option.splits if_splits)
  with assms Withdraw show ?thesis by (auto simp: perform_def messages_msgs messages_to split: sum.splits)
qed (use assms in \<open>auto simp: perform_def messages_msgs messages_to\<close>)

lemma spec_input_messages:
  assumes "spec_input f i sp = (sp', out)"
  shows "messages (out g)"
proof (cases i)
  case (Line l)
  with assms perform_messages show ?thesis by (fastforce simp: spec_input_def spec_line_def split: option.splits)
next
  case Overlong
  have "messages (msg_error ''line too long'')" by (rule messages_msgs(7)) simp
  with assms Overlong show ?thesis by (auto simp: spec_input_def messages_to split: option.splits)
qed (use assms in \<open>auto simp: spec_input_def\<close>)

lemma spec_inputs_messages: "spec_inputs f sp ins out sp' \<Longrightarrow> messages (out g)"
  by (induction rule: spec_inputs.induct) (auto intro: messages_append spec_input_messages)

lemma world_messages: "world_step\<^sup>*\<^sup>* world_init w \<Longrightarrow> messages (wd_out w g)"
proof (induction rule: rtranclp_induct)
  case base
  then show ?case by (simp add: world_init_def)
next
  case (step y z)
  from step(2,3) show ?case
    by (cases rule: world_step.cases)
      (auto simp: arrive_def treat_def leave_def intro: messages_append spec_inputs_messages)
qed

lemma printable_line:
  assumes "printable m"
  shows "\<exists>l. render m = l @ [NL] \<and> NL \<notin> set l \<and> CR \<notin> set l \<and> CHR 0x00 \<notin> set l \<and> tokens l = msg_fields m"
proof -
  obtain l where l: "render m = l @ [NL]" "NL \<notin> set l" "CR \<notin> set l" "tokens l = msg_fields m"
    using render_line assms unfolding printable_def by blast
  have d: "CHR 0x00 \<notin> set (to_string n)" for n
    using to_string_props [of n] by (auto simp: list_all_iff is_digit_def)
  have i: "CHR 0x00 \<notin> set (inst_name k)" if "k = 0 \<or> k = 1" for k
    using that by (auto simp: inst_name_def kInstruments_def)
  have "CHR 0x00 \<notin> set (render m)"
    using assms d i by (cases m) (auto simp: printable_def msg_defs)
  with l show ?thesis by auto
qed

lemma messages_lines:
  assumes "\<forall>m \<in> set ms. printable m"
  shows "\<exists>ls. lines (concat (map render ms)) = ls \<and> map c_str ls = ls \<and> map tokens ls = map msg_fields ms"
  using assms
proof (induction ms)
  case Nil
  then show ?case by (simp add: lines_def)
next
  case (Cons m ms)
  then obtain l where l: "render m = l @ [NL]" "NL \<notin> set l" "CR \<notin> set l" "CHR 0x00 \<notin> set l" "tokens l = msg_fields m"
    using printable_line by auto
  then have "c_str l = l" "strip_cr l = l" by (auto simp: c_str_def strip_cr_id intro: takeWhile_eq_all_conv [THEN iffD2])
  with l Cons show ?case by simp
qed

section \<open>Commands\<close>

lemma inst_name_simps:
  "i = 0 \<or> i = 1 \<Longrightarrow> inst_name i \<in> set kInstruments \<and> instrument_index (inst_name i) = i"
  by (auto simp: inst_name_def kInstruments_def instrument_index_def)

lemma tokens_inst: "i = 0 \<or> i = 1 \<Longrightarrow> tokens (inst_name i) = [inst_name i]"
  using inst_name_word by (intro tokens_word(1)) auto

lemma tokens_inst_sp: "i = 0 \<or> i = 1 \<Longrightarrow> tokens (inst_name i @ SP # s) = inst_name i # tokens s"
  using inst_name_word by (intro tokens_word_sp) auto

lemma tokens_verb:
  "tokens (''LOGIN'' @ SP # s) = ''LOGIN'' # tokens s" "tokens (''BUY'' @ SP # s) = ''BUY'' # tokens s"
  "tokens (''SELL'' @ SP # s) = ''SELL'' # tokens s" "tokens (''CANCEL'' @ SP # s) = ''CANCEL'' # tokens s"
  "tokens (''SUBSCRIBE'' @ SP # s) = ''SUBSCRIBE'' # tokens s"
  "tokens (''UNSUBSCRIBE'' @ SP # s) = ''UNSUBSCRIBE'' # tokens s" "tokens ''QUIT'' = [''QUIT'']"
  by (subst tokens_word_sp; simp add: is_ws_def tokens_word)+ (simp add: is_ws_def tokens_word)

lemmas tokens_verbs = tokens_verb [simplified]

text \<open>What the lines of the protocol ask for, with instruments by name and numbers in decimal.\<close>

lemma order_request:
  assumes "i = 0 \<or> i = 1" and "kMinValue \<le> q" "q \<le> kMaxValue" "kMinValue \<le> p" "p \<le> kMaxValue"
  shows "request Trader (tokens (''BUY'' @ SP # inst_name i @ SP # to_string q @ SP # to_string p)) = Place Buy i q p"
    and "request Trader (tokens (''SELL'' @ SP # inst_name i @ SP # to_string q @ SP # to_string p)) = Place Sell i q p"
  using assms
  by (auto simp: tokens_verbs tokens_word tokens_inst tokens_inst_sp request_def req_order_def for_trader_def inst_name_simps
      parse_u32_to_string)

lemma cancel_request: "j \<le> kMaxOrderId \<Longrightarrow> request Trader (tokens (''CANCEL'' @ SP # to_string j)) = Withdraw j"
  by (simp add: tokens_verbs tokens_word request_def req_cancel_def for_trader_def parse_u32_to_string)

lemma listen_request:
  assumes "i = 0 \<or> i = 1" and "r \<noteq> Trader"
  shows "request r (tokens (''SUBSCRIBE'' @ SP # inst_name i)) = Listen i True"
    and "request r (tokens (''UNSUBSCRIBE'' @ SP # inst_name i)) = Listen i False"
  using assms by (auto simp: tokens_verbs tokens_inst request_def req_listen_def inst_name_simps)

lemma login_request:
  "u \<noteq> [] \<Longrightarrow> \<forall>c \<in> set u. \<not> is_ws c \<Longrightarrow> request Unknown (tokens (''LOGIN'' @ SP # u)) = Login u"
  by (simp add: tokens_verbs tokens_word request_def req_login_def)

lemma quit_request: "request r (tokens ''QUIT'') = Quit"
  by (simp add: tokens_verbs request_def)

section \<open>Start-up of the server\<close>

lemma sys_int_ans:
  "ans_accept (snd (sys_int c w)) = ans_accept w" "ans_recv (snd (sys_int c w)) = ans_recv w"
  by (simp_all add: sys_int_def split: list.splits)

lemma sys_int_ansD: "sys_int c w = (r, w') \<Longrightarrow> ans_accept w' = ans_accept w \<and> ans_recv w' = ans_recv w"
  using sys_int_ans [of c w] by simp

lemma set_nonblocking_ansD: "set_nonblocking f w = (r, w') \<Longrightarrow> ans_accept w' = ans_accept w \<and> ans_recv w' = ans_recv w"
  by (drule set_nonblocking_calls) (simp add: os_frame_def)

lemma make_listen_socket_ansD:
  "make_listen_socket ip port w = (r, w') \<Longrightarrow> ans_accept w' = ans_accept w \<and> ans_recv w' = ans_recv w"
  unfolding make_listen_socket_def Let_def
  by (auto simp: sys_int_ans split: prod.splits sysret.splits bool.splits if_splits
      dest!: sys_int_ansD set_nonblocking_ansD)

lemma init_frame:
  assumes "init (server_new ip port w) = (ok, s)"
  shows "sv_conns s = Map.empty \<and> ans_accept (sv_os s) = ans_accept w \<and> ans_recv (sv_os s) = ans_recv w
    \<and> (ok \<longrightarrow> sv_lfd s = fst (make_listen_socket ip port w))"
proof -
  obtain lfd w1 where m: "make_listen_socket ip port w = (lfd, w1)" by (metis prod.exhaust)
  obtain r w2 where k: "sys_int SysKqueue w1 = (r, w2)" by (metis prod.exhaust)
  from assms m k make_listen_socket_ansD [OF m] sys_int_ansD [OF k] show ?thesis
    by (auto simp: init_def server_new_def Let_def upd_os_def split: if_splits)
qed

end
