(* ===== verification/Server_Types.thy ===== *)
theory Server_Types
  imports Server_Sim
begin

text \<open>
  Invariants of the server obtained through the simulation. The locale \<open>world_invariant\<close> says
  what a predicate on specified systems needs to be kept by every input, arrival and departure,
  and shows that every state the server reaches refines a system with it. It is interpreted
  twice: on the typing of sessions and resting orders, which also gives that the arrays of the
  code are indexed within their bounds, and on the book being uncrossed.
\<close>

section \<open>Transfer\<close>

locale world_invariant =
  fixes J :: "spec_server \<Rightarrow> bool"
  assumes J_init: "J (wd_srv world_init)"
    and J_new: "J sp \<Longrightarrow> J (upd_sess f (new_session ow) sp)"
    and J_drop: "J sp \<Longrightarrow> J (sp\<lparr>sp_sess := sp_sess sp |` L\<rparr>)"
    and J_close: "J sp \<Longrightarrow> sp_sess sp f = Some x \<Longrightarrow> J (upd_sess f (x\<lparr>se_closing := True\<rparr>) sp)"
    and J_perform: "J sp \<Longrightarrow> sp_sess sp f = Some x \<Longrightarrow> perform f x (request (se_role x) (tokens l)) sp = (sp', out) \<Longrightarrow> J sp'"
begin

lemma drop_one: "J sp \<Longrightarrow> J (sp\<lparr>sp_sess := (sp_sess sp)(f := None)\<rparr>)"
  using J_drop [of sp "- {f}"] by (simp add: restrict_complement_singleton_eq)

lemma input: "J sp \<Longrightarrow> spec_input f i sp = (sp', out) \<Longrightarrow> J sp'"
  by (auto simp: spec_input_def spec_line_def drop_one J_close dest: J_perform split: input.splits option.splits)

lemma inputs: "spec_inputs f sp ins out sp' \<Longrightarrow> J sp \<Longrightarrow> J sp'"
  by (induction rule: spec_inputs.induct) (auto intro: J_drop input)

lemma every_world: "world_step\<^sup>*\<^sup>* world_init w \<Longrightarrow> J (wd_srv w)"
proof (induction rule: rtranclp_induct)
  case base
  show ?case by (rule J_init)
next
  case (step y z)
  from step(2,3) show ?case
    by (cases rule: world_step.cases) (auto simp: arrive_def treat_def leave_def J_new drop_one intro: inputs)
qed

lemma transfers: "served n got s \<Longrightarrow> n < 2 ^ 32 \<Longrightarrow> \<exists>sp. refines s sp \<and> J sp"
  using served_tracks [of n got s] every_world by (auto simp: tracks_def)

end

section \<open>Types\<close>

text \<open>
  What a connection may hold, by role: a name only as a trader, and then a word; subscriptions
  only as a market data client, and then to instruments that exist.
\<close>

fun typed_as :: "Role \<Rightarrow> string \<Rightarrow> (int \<Rightarrow> bool) \<Rightarrow> bool" where
  "typed_as Unknown u subs \<longleftrightarrow> u = [] \<and> (\<forall>i. \<not> subs i)"
| "typed_as Trader u subs \<longleftrightarrow> u \<noteq> [] \<and> (\<forall>c \<in> set u. \<not> is_ws c) \<and> (\<forall>i. \<not> subs i)"
| "typed_as MarketData u subs \<longleftrightarrow> u = [] \<and> (\<forall>i. subs i \<longrightarrow> i = 0 \<or> i = 1)"

text \<open>An order at rest: an instrument that exists, price and quantity within the limits of the protocol.\<close>

definition order_typed :: "Order \<Rightarrow> bool" where
  "order_typed r \<longleftrightarrow> (o_inst r = 0 \<or> o_inst r = 1) \<and> kMinValue \<le> o_price r \<and> o_price r \<le> kMaxValue
     \<and> o_remaining r \<le> kMaxValue"

abbreviation sess_typed :: "session \<Rightarrow> bool" where
  "sess_typed x \<equiv> typed_as (se_role x) (se_name x) (se_subs x)"

definition spec_typed :: "spec_server \<Rightarrow> bool" where
  "spec_typed sp \<longleftrightarrow> (\<forall>f x. sp_sess sp f = Some x \<longrightarrow> sess_typed x) \<and> (\<forall>r \<in> set (sb_rest (sp_book sp)). order_typed r)"

text \<open>A request is typed when an order it places is, and a subscription is to an instrument that exists.\<close>

fun req_typed :: "request \<Rightarrow> bool" where
  "req_typed (Login u) \<longleftrightarrow> u \<noteq> [] \<and> (\<forall>c \<in> set u. \<not> is_ws c)"
| "req_typed (Place side inst qty price) \<longleftrightarrow> (inst = 0 \<or> inst = 1) \<and> kMinValue \<le> price \<and> price \<le> kMaxValue \<and> qty \<le> kMaxValue"
| "req_typed (Listen inst on) \<longleftrightarrow> inst = 0 \<or> inst = 1"
| "req_typed _ \<longleftrightarrow> True"

lemma instrument_index_typed: "n \<in> set kInstruments \<Longrightarrow> instrument_index n = 0 \<or> instrument_index n = 1"
  by (auto simp: instrument_index_def kInstruments_def)

lemma req_parts_typed:
  "req_typed (req_order side args)" "req_typed (req_cancel args)" "req_typed (req_listen on args)"
  by (auto simp: req_order_def req_cancel_def req_listen_def parse_u32_iff dest: instrument_index_typed
      split: list.splits option.splits)

lemma req_login_typed:
  "\<forall>u \<in> set args. u \<noteq> [] \<and> (\<forall>c \<in> set u. \<not> is_ws c) \<Longrightarrow> req_typed (req_login r args)"
  by (auto simp: req_login_def split: list.split Role.split)

lemma for_trader_typed: "req_typed q \<Longrightarrow> req_typed (for_trader r q)"
  by (simp add: for_trader_def split: Role.split)

lemma request_typed: "req_typed (request r (tokens l))"
proof (cases "tokens l")
  case Nil
  then show ?thesis by (simp add: request_def)
next
  case (Cons v args)
  then have "u \<noteq> [] \<and> (\<forall>c \<in> set u. \<not> is_ws c)" if "u \<in> set args" for u using tokens_sound [of u l] that by simp
  then show ?thesis by (simp add: Cons request_def req_login_typed for_trader_typed req_parts_typed)
qed

lemma part_filled_typed: "order_typed r \<Longrightarrow> order_typed (r\<lparr>o_remaining := o_remaining r - min q (o_remaining r)\<rparr>)"
  by (auto simp: order_typed_def intro: order_trans [OF word_sub_min_le(2)])

lemma fill_typed:
  "fill side inst price owner rem rs = (rem', rs', ts) \<Longrightarrow> \<forall>r \<in> set rs. order_typed r \<Longrightarrow>
   rem' \<le> rem \<and> (\<forall>r \<in> set rs'. order_typed r)"
proof (induction rs arbitrary: rem rem' rs' ts)
  case Nil
  then show ?case by simp
next
  case (Cons r rs)
  show ?case
  proof (cases "rem = 0 \<or> \<not> crosses side inst price r")
    case True
    obtain m rs2 ts2 where f: "fill side inst price owner rem rs = (m, rs2, ts2)" by (metis prod_cases3)
    have "rem' = m" "rs' = r # rs2" using Cons.prems(1) by (simp_all only: fill.simps True if_True f Let_def prod.case prod.inject)
    with Cons.IH [OF f] Cons.prems(2) show ?thesis by simp
  next
    case False
    obtain m rs2 ts2 where f: "fill side inst price owner (rem - min rem (o_remaining r)) rs = (m, rs2, ts2)"
      by (metis prod_cases3)
    have "rem' = m" "set rs' \<subseteq> insert (r\<lparr>o_remaining := o_remaining r - min rem (o_remaining r)\<rparr>) (set rs2)"
      using Cons.prems(1) by (auto simp only: fill.simps False if_False f Let_def prod.case prod.inject) (auto split: if_splits)
    moreover have "m \<le> rem" "\<forall>x \<in> set rs2. order_typed x"
      using Cons.IH [OF f] Cons.prems(2) order_trans [OF _ word_sub_min_le(1)] by auto
    ultimately show ?thesis using part_filled_typed [of r rem] Cons.prems(2) by auto
  qed
qed

lemma spec_submit_typed:
  assumes "spec_submit side inst qty price owner b = (i, ts, b')" and "\<forall>r \<in> set (sb_rest b). order_typed r"
    and q: "req_typed (Place side inst qty price)"
  shows "\<forall>r \<in> set (sb_rest b'). order_typed r"
proof -
  obtain rem rs t where f: "fill side inst price owner qty (sb_rest b) = (rem, rs, t)" by (metis prod_cases3)
  have "rem \<le> qty" "\<forall>r \<in> set rs. order_typed r" using fill_typed [OF f assms(2)] by simp_all
  moreover have "rem \<le> kMaxValue" using q order_trans [OF \<open>rem \<le> qty\<close>] by auto
  moreover from this have "order_typed \<lparr>o_id = i', o_side = side, o_inst = inst, o_price = price, o_remaining = rem, o_owner = owner\<rparr>" for i'
    using q by (simp add: order_typed_def)
  ultimately show ?thesis using assms(1) by (auto simp: spec_submit_def f split: if_splits)
qed

lemma spec_typed_upd: "spec_typed sp \<Longrightarrow> sess_typed x \<Longrightarrow> spec_typed (upd_sess f x sp)"
  by (simp add: spec_typed_def upd_sess_def)

lemma spec_typed_book: "spec_typed sp \<Longrightarrow> \<forall>r \<in> set (sb_rest b). order_typed r \<Longrightarrow> spec_typed (sp\<lparr>sp_book := b\<rparr>)"
  by (simp add: spec_typed_def)

lemma perform_typed:
  assumes J: "spec_typed sp" and x: "sp_sess sp f = Some x" and p: "perform f x q sp = (sp', out)"
    and q: "req_typed q" and login: "\<And>u. q = Login u \<Longrightarrow> se_role x = Unknown"
    and listen: "\<And>j on. q = Listen j on \<Longrightarrow> se_role x \<noteq> Trader"
  shows "spec_typed sp'"
proof -
  have t: "sess_typed x" and b: "\<forall>r \<in> set (sb_rest (sp_book sp)). order_typed r" using J x by (auto simp: spec_typed_def)
  show ?thesis
  proof (cases q)
    case (Login u)
    with t login q have "sess_typed (x\<lparr>se_role := Trader, se_name := u\<rparr>)" by simp
    with J p Login spec_typed_upd show ?thesis by (auto simp: perform_def split: if_splits)
  next
    case (Place side inst qty price)
    obtain i ts b' where s: "spec_submit side inst qty price (se_owner x) (sp_book sp) = (i, ts, b')" by (metis prod_cases3)
    from spec_submit_typed [OF this b] q Place have "\<forall>r \<in> set (sb_rest b'). order_typed r" by simp
    with J p Place s spec_typed_book show ?thesis by (auto simp: perform_def)
  next
    case (Withdraw i)
    have "\<forall>r \<in> set (sb_rest b'). order_typed r" if "spec_cancel i (se_owner x) (sp_book sp) = Inr b'" for b'
      using that b by (auto simp: spec_cancel_def split: option.splits if_splits)
    with J p Withdraw spec_typed_book show ?thesis by (auto simp: perform_def split: sum.splits)
  next
    case (Listen j on)
    with t listen q have "sess_typed (x\<lparr>se_role := MarketData, se_subs := (se_subs x)(j := on)\<rparr>)"
      by (cases "se_role x") auto
    with J p Listen spec_typed_upd show ?thesis by (auto simp: perform_def)
  next
    case Quit
    with J p t spec_typed_upd [OF J, of "x\<lparr>se_closing := True\<rparr>" f] show ?thesis by (auto simp: perform_def)
  qed (use J p in \<open>auto simp: perform_def\<close>)
qed

interpretation typing: world_invariant spec_typed
proof (unfold_locales, goal_cases)
  case 1
  show ?case by (simp add: spec_typed_def world_init_def spec_init_def)
next
  case (2 sp f ow)
  then show ?case by (rule spec_typed_upd) (simp add: new_session_def)
next
  case (3 sp L)
  then show ?case by (auto simp: spec_typed_def restrict_map_def)
next
  case (4 sp f x)
  then show ?case by (intro spec_typed_upd) (auto simp: spec_typed_def)
next
  case (5 sp f x l sp' out)
  from perform_typed [OF this request_typed] show ?case using request_Login request_Listen by blast
qed

interpretation uncrossing: world_invariant "\<lambda>sp. uncrossed (sb_rest (sp_book sp))"
proof (unfold_locales, goal_cases)
  case 1
  show ?case by (simp add: uncrossed_def world_init_def spec_init_def)
next
  case (5 sp f x l sp' out)
  then show ?case
    using spec_submit_uncrossed [OF 5(1)] spec_cancel_uncrossed [OF 5(1)]
    by (auto simp: perform_def upd_sess_def split: request.splits if_splits prod.splits sum.splits)
qed (simp_all add: upd_sess_def)

section \<open>The tables of the server\<close>

lemma refines_conn: "refines s sp \<Longrightarrow> sv_conns s f = Some c \<Longrightarrow> \<not> c_dead c \<Longrightarrow> sp_sess sp f = Some (sess_of c)"
  by (simp add: refines_def abs_sess_def)

lemma represents_order:
  assumes "represents ex b" and "ex_orders ex i = Some r"
  shows "r \<in> set (sb_rest b)" "o_id r = i" "0 < o_remaining r"
proof -
  have ok: "orders_ok (sb_next b) (sb_rest b)" "by_id (sb_rest b) i = Some r" using assms by (simp_all add: represents_def)
  then show "r \<in> set (sb_rest b)" "o_id r = i" by (simp_all add: by_id_eq [OF orders_ok_distinct])
  with ok(1) show "0 < o_remaining r" by (simp add: orders_ok_def)
qed

lemma represents_level:
  assumes "represents ex b" and "ex_books ex j k p = Some q"
  shows "\<exists>r \<in> set (sb_rest b). at_level j k p r"
proof -
  have "level j k p (sb_rest b) \<noteq> []" using assms by (auto simp: represents_def index_apply split: if_splits)
  then show ?thesis by (auto simp: level_def filter_empty_conv)
qed

lemma served_uncrossed:
  assumes "served n got s" and "n < 2 ^ 32"
  shows "ex_books (sv_exch s) j (side_idx Buy) p = None \<or> ex_books (sv_exch s) j (side_idx Sell) p = None"
proof -
  obtain b where "represents (sv_exch s) b" "uncrossed (sb_rest b)"
    using uncrossing.transfers [OF assms] by (auto simp: refines_def)
  then show ?thesis by (rule uncrossed_levels)
qed

text \<open>
  C10: the tables of the server are well typed in every state it reaches before \<open>2^32\<close> bytes have
  been received. A live connection has a name only as a trader, and then a word without white
  space, and subscriptions only as a market data client, and then to instruments that exist.
  Every order at rest is stored under its own id, with an instrument that exists, a price within
  the limits of the protocol, and a quantity that is positive and within them. Every level of a
  book is at an instrument and a side within the arrays the code indexes, and at such a price.
\<close>

theorem server_well_typed:
  assumes "served n got s" and "n < 2 ^ 32"
  shows "(\<forall>f c. sv_conns s f = Some c \<and> \<not> c_dead c \<longrightarrow> typed_as (c_role c) (c_username c) (c_subs c))
    \<and> (\<forall>i r. ex_orders (sv_exch s) i = Some r \<longrightarrow> o_id r = i \<and> order_typed r \<and> 0 < o_remaining r)
    \<and> (\<forall>j k p q. ex_books (sv_exch s) j k p = Some q \<longrightarrow>
        (j = 0 \<or> j = 1) \<and> (k = 0 \<or> k = 1) \<and> kMinValue \<le> p \<and> p \<le> kMaxValue)"
proof -
  obtain sp where sp: "refines s sp" "spec_typed sp" using typing.transfers [OF assms] by blast
  have rep: "represents (sv_exch s) (sp_book sp)" using sp(1) by (simp add: refines_def)
  have o: "order_typed r" if "r \<in> set (sb_rest (sp_book sp))" for r using sp(2) that by (simp add: spec_typed_def)
  show ?thesis
  proof (intro conjI allI impI)
    fix f c
    assume "sv_conns s f = Some c \<and> \<not> c_dead c"
    with refines_conn [OF sp(1)] sp(2) show "typed_as (c_role c) (c_username c) (c_subs c)"
      by (fastforce simp: spec_typed_def sess_of_def)
  next
    fix i r
    assume "ex_orders (sv_exch s) i = Some r"
    note r = represents_order [OF rep this]
    show "o_id r = i" "order_typed r" "0 < o_remaining r" by (simp_all add: r o)
  next
    fix j k p q
    assume "ex_books (sv_exch s) j k p = Some q"
    from represents_level [OF rep this] obtain r where "order_typed r" "at_level j k p r" using o by blast
    then show "j = 0 \<or> j = 1" "k = 0 \<or> k = 1" "kMinValue \<le> p" "p \<le> kMaxValue"
      by (auto simp: order_typed_def at_level_def side_idx_def split: if_splits)
  qed
qed

theorem server_well_typed_witness:
  "typed_as Trader ''alice'' (\<lambda>_. False) \<and> (\<exists>r. ex_orders (sv_exch demo_s1) 0 = Some r \<and> order_typed r)"
proof -
  obtain n got where s: "served n got demo_s1" "n < 2 ^ 32" using demo_served by blast
  have c: "sv_conns demo_s1 7 = Some (demo_conn 7 1 Trader ''alice'' (\<lambda>_. False) ''BUY JN'')"
    "\<not> c_dead (demo_conn 7 1 Trader ''alice'' (\<lambda>_. False) ''BUY JN'')" by (simp_all add: demo_s1_fields demo_conn_def)
  have "\<exists>r. ex_orders (sv_exch demo_s1) 0 = Some r" by (simp add: demo_s1_fields)
  then show ?thesis
    using server_well_typed [OF s, THEN conjunct1, rule_format, OF conjI, OF c]
      server_well_typed [OF s, THEN conjunct2, THEN conjunct1, rule_format] by (auto simp: demo_conn_def)
qed

end
