(* ===== verification/Server_Main.thy ===== *)
theory Server_Main
  imports Server_Sim
begin

text \<open>
  Runs of the server program in which the kernel hands out descriptors as it does: \<open>accept\<close>
  answers with one that is not open at that moment, so that a descriptor comes back once its
  connection has been closed. The answers of \<open>accept\<close> are prepared in advance, for the whole run;
  that nothing but \<open>on_accept\<close> looks at them is proved first, so that a state of such a run is
  reachable in the sense of \<open>Server_Reach\<close> once the answers not yet given are put aside.
\<close>

section \<open>Only accepting looks at the prepared answers\<close>

definition with_accepts :: "fd sysret list \<Rightarrow> Server \<Rightarrow> Server" where
  "with_accepts q s = s\<lparr>sv_os := (sv_os s)\<lparr>ans_accept := q\<rparr>\<rparr>"

named_theorems accepts_apart

lemma with_accepts_fields [simp]:
  "sv_conns (with_accepts q s) = sv_conns s" "sv_keys (with_accepts q s) = sv_keys s" "sv_lfd (with_accepts q s) = sv_lfd s"
  "sv_kq (with_accepts q s) = sv_kq s" "sv_owner_fd (with_accepts q s) = sv_owner_fd s" "sv_dead (with_accepts q s) = sv_dead s"
  "sv_usernames (with_accepts q s) = sv_usernames s" "sv_exch (with_accepts q s) = sv_exch s"
  "sv_next_owner (with_accepts q s) = sv_next_owner s" "sv_os (with_accepts q s) = (sv_os s)\<lparr>ans_accept := q\<rparr>"
  "sv_ip (with_accepts q s) = sv_ip s" "sv_port (with_accepts q s) = sv_port s"
  by (simp_all add: with_accepts_def)

lemma with_accepts_twice [simp]: "with_accepts p (with_accepts q s) = with_accepts p s"
  by (simp add: with_accepts_def)

lemma calls_apart [accepts_apart]:
  "log_call c (w\<lparr>ans_accept := q\<rparr>) = (log_call c w)\<lparr>ans_accept := q\<rparr>"
  "sys_int c (w\<lparr>ans_accept := q\<rparr>) = map_prod id (ans_accept_update (\<lambda>_. q)) (sys_int c w)"
  "sys_send f d (w\<lparr>ans_accept := q\<rparr>) = map_prod id (ans_accept_update (\<lambda>_. q)) (sys_send f d w)"
  "sys_recv f n (w\<lparr>ans_accept := q\<rparr>) = map_prod id (ans_accept_update (\<lambda>_. q)) (sys_recv f n w)"
  by (simp_all add: log_call_def sys_int_def sys_send_def sys_recv_def split: list.split sysret.split)

lemma net_apart [accepts_apart]:
  "kq_change k f filt fl (w\<lparr>ans_accept := q\<rparr>) = map_prod id (ans_accept_update (\<lambda>_. q)) (kq_change k f filt fl w)"
  "set_nonblocking f (w\<lparr>ans_accept := q\<rparr>) = map_prod id (ans_accept_update (\<lambda>_. q)) (set_nonblocking f w)"
  by (simp_all add: kq_change_def set_nonblocking_def accepts_apart split: prod.split sysret.split)

lemma flush_loop_apart [accepts_apart]:
  "flush_loop f ob (w\<lparr>ans_accept := q\<rparr>) = map_prod id (map_prod id (ans_accept_update (\<lambda>_. q))) (flush_loop f ob w)"
proof (induction f ob w rule: flush_loop.induct)
  case (1 f ob w)
  then show ?case
    by (simp add: flush_loop.simps [of f ob w] flush_loop.simps [of f ob "w\<lparr>ans_accept := q\<rparr>"] accepts_apart
        split: prod.split sysret.split)
qed

lemma state_apart [accepts_apart]:
  "upd_conn f k (with_accepts q s) = with_accepts q (upd_conn f k s)"
  "(with_accepts q s)\<lparr>sv_exch := ex\<rparr> = with_accepts q (s\<lparr>sv_exch := ex\<rparr>)"
  "(with_accepts q s)\<lparr>sv_usernames := us, sv_owner_fd := m\<rparr> = with_accepts q (s\<lparr>sv_usernames := us, sv_owner_fd := m\<rparr>)"
  "(with_accepts q s)\<lparr>sv_os := w\<lparr>ans_accept := q\<rparr>\<rparr> = with_accepts q (s\<lparr>sv_os := w\<rparr>)"
  by (simp_all add: with_accepts_def upd_conn_def)

lemma upd_os_apart:
  "(\<And>w. k (w\<lparr>ans_accept := q\<rparr>) = (k w)\<lparr>ans_accept := q\<rparr>) \<Longrightarrow> upd_os k (with_accepts q s) = with_accepts q (upd_os k s)"
  by (simp add: with_accepts_def upd_os_def)

lemma close_conn_apart [accepts_apart]: "close_conn f (with_accepts q s) = with_accepts q (close_conn f s)"
  by (simp add: close_conn_def calls_apart split: option.split)

lemma try_flush_apart [accepts_apart]: "try_flush f (with_accepts q s) = with_accepts q (try_flush f s)"
  by (simp add: try_flush_def Let_def accepts_apart upd_os_apart split: option.split prod.split flush_end.split)

lemma output_apart [accepts_apart]:
  "queue_out f m (with_accepts q s) = with_accepts q (queue_out f m s)"
  "notify_owner ow m (with_accepts q s) = with_accepts q (notify_owner ow m s)"
  "publish_to t f (with_accepts q s) = with_accepts q (publish_to t f s)"
proof -
  show qo: "queue_out f m (with_accepts q s) = with_accepts q (queue_out f m s)" for f m s
    by (simp add: queue_out_def Let_def accepts_apart split: option.split)
  show "notify_owner ow m (with_accepts q s) = with_accepts q (notify_owner ow m s)"
    "publish_to t f (with_accepts q s) = with_accepts q (publish_to t f s)"
    by (simp_all add: notify_owner_def publish_to_def find_live_def qo split: option.split)
qed

lemma fold_apart:
  "(\<And>x s. k x (with_accepts q s) = with_accepts q (k x s)) \<Longrightarrow> fold k xs (with_accepts q s) = with_accepts q (fold k xs s)"
  by (induction xs arbitrary: s) simp_all

lemma publish_apart [accepts_apart]:
  "publish t (with_accepts q s) = with_accepts q (publish t s)"
  "fold publish ts (with_accepts q s) = with_accepts q (fold publish ts s)"
proof -
  have it: "conn_iter (with_accepts q s) = conn_iter s" for s by (simp add: conn_iter_def cong: if_cong)
  show "publish t (with_accepts q s) = with_accepts q (publish t s)" for t s
    by (simp add: publish_def Let_def accepts_apart it fold_apart)
  then show "fold publish ts (with_accepts q s) = with_accepts q (fold publish ts s)"
    by (rule fold_apart)
qed

lemma commands_apart [accepts_apart]:
  "cmd_login f tk (with_accepts q s) = with_accepts q (cmd_login f tk s)"
  "cmd_order f tk side (with_accepts q s) = with_accepts q (cmd_order f tk side s)"
  "cmd_cancel f tk (with_accepts q s) = with_accepts q (cmd_cancel f tk s)"
  "cmd_subscribe f tk on (with_accepts q s) = with_accepts q (cmd_subscribe f tk on s)"
  "cmd_quit f (with_accepts q s) = with_accepts q (cmd_quit f s)"
  by (simp_all add: cmd_login_def cmd_order_def cmd_cancel_def cmd_subscribe_def cmd_quit_def with_conn_def Let_def
      accepts_apart split: option.split prod.split sum.split)

lemma handle_line_apart [accepts_apart]: "handle_line f line (with_accepts q s) = with_accepts q (handle_line f line s)"
  by (simp add: handle_line_def Let_def accepts_apart)

lemma line_loop_apart [accepts_apart]:
  "line_loop f (with_accepts q s) = map_prod id (with_accepts q) (line_loop f s)"
proof (induction f s rule: line_loop.induct)
  case (1 f s)
  then show ?case
    by (simp add: line_loop.simps [of f s] line_loop.simps [of f "with_accepts q s"] Let_def accepts_apart
        split: option.split prod.split)
qed

lemma read_loop_apart [accepts_apart]: "read_loop f eof (with_accepts q s) = with_accepts q (read_loop f eof s)"
proof (induction f eof s rule: read_loop.induct)
  case (1 f eof s)
  then show ?case
    by (auto simp: read_loop.simps [of f eof s] read_loop.simps [of f eof "with_accepts q s"] recv_into_def accepts_apart
        split: prod.split sysret.split bool.split)
qed

lemma event_apart:
  "ev_ident ev \<noteq> sv_lfd s \<Longrightarrow> dispatch ev (with_accepts q s) = with_accepts q (dispatch ev s)"
  by (simp add: dispatch_def on_readable_def on_writable_def find_live_def accepts_apart split: option.split)

lemma reap_apart: "reap (with_accepts q s) = with_accepts q (reap s)"
  by (simp add: reap_eq with_accepts_def cong: if_cong)

lemma accept_conn_apart: "accept_conn cfd (with_accepts q s) = with_accepts q (accept_conn cfd s)"
  by (simp add: accept_conn_def Let_def accepts_apart upd_os_def with_accepts_def split: option.split)

lemma init_apart:
  "init (server_new ip port (w\<lparr>ans_accept := q\<rparr>)) = map_prod id (with_accepts q) (init (server_new ip port w))"
proof -
  have "make_listen_socket ip port (w\<lparr>ans_accept := q\<rparr>) = map_prod id (ans_accept_update (\<lambda>_. q)) (make_listen_socket ip port w)"
    by (simp add: make_listen_socket_def Let_def accepts_apart case_prod_beta cong: if_cong sysret.case_cong bool.case_cong
        split: sysret.split bool.split)
  then show ?thesis
    by (simp add: init_def server_new_def Let_def accepts_apart with_accepts_def upd_os_def split: prod.split sysret.split)
qed

section \<open>Descriptors that are not open\<close>

text \<open>
  What POSIX says of \<open>accept\<close>, along a run: each answer with a descriptor, when it is given, is
  neither the listening socket nor a descriptor under which the server keeps a connection, dead
  ones that are not yet closed included. Nothing is said of descriptors closed before.
\<close>

function accepts_new :: "Server \<Rightarrow> bool" where
  "accepts_new s =
     (case sys_accept (sv_lfd s) (sv_os s) of
        (Ret cfd, w) \<Rightarrow> cfd \<noteq> sv_lfd s \<and> sv_conns s cfd = None \<and> accepts_new (accept_conn cfd (s\<lparr>sv_os := w\<rparr>))
      | (Fail e, w) \<Rightarrow> if e = EINTR \<or> e = ECONNABORTED then accepts_new (s\<lparr>sv_os := w\<rparr>) else True)"
  by pat_completeness auto
termination
  by (relation "measure (\<lambda>s. length (ans_accept (sv_os s)))")
    (auto simp: sys_accept_def split: list.splits)

declare accepts_new.simps [simp del]

fun batch_new :: "kev list \<Rightarrow> Server \<Rightarrow> bool" where
  "batch_new [] s = True"
| "batch_new (ev # evs) s = ((ev_ident ev = sv_lfd s \<longrightarrow> accepts_new s) \<and> batch_new evs (dispatch ev s))"

fun run_new :: "kev list sysret list \<Rightarrow> Server \<Rightarrow> bool" where
  "run_new [] s = True"
| "run_new (a # as) s =
     ((case a of Ret evs \<Rightarrow> batch_new (take 64 evs) s | Fail _ \<Rightarrow> True) \<and>
      (case run_turn a s of None \<Rightarrow> True | Some s' \<Rightarrow> run_new as s'))"

text \<open>
  The answers one \<open>on_accept\<close> takes from the front of the queue: given these alone it ends in the
  same state, and they are fresh all at once.
\<close>

definition asked :: "Server \<Rightarrow> Server" where
  "asked s = s\<lparr>sv_os := log_call (SysAccept (sv_lfd s)) (sv_os s)\<rparr>"

lemma asked_fields [simp]:
  "sv_conns (asked s) = sv_conns s" "sv_lfd (asked s) = sv_lfd s" "sv_next_owner (asked s) = sv_next_owner s"
  by (simp_all add: asked_def)

lemma sys_accept_cases:
  "ans_accept (sv_os s) = [] \<Longrightarrow> sys_accept (sv_lfd s) (sv_os s) = (Fail EAGAIN, sv_os (with_accepts [] (asked s)))"
  "ans_accept (sv_os s) = a # p \<Longrightarrow> sys_accept (sv_lfd s) (sv_os s) = (a, sv_os (with_accepts p (asked s)))"
  by (simp_all add: sys_accept_def asked_def log_call_def)

lemma with_accepts_os: "s\<lparr>sv_os := sv_os (with_accepts p (asked s))\<rparr> = with_accepts p (asked s)"
  by (simp add: with_accepts_def asked_def)

lemma asked_apart [simp]: "with_accepts p (asked (with_accepts q s)) = with_accepts p (asked s)"
  by (simp add: asked_def with_accepts_def log_call_def)

lemma on_accept_turn:
  "ans_accept (sv_os s) = [] \<Longrightarrow> on_accept s = with_accepts [] (asked s)"
  "ans_accept (sv_os s) = Ret cfd # p \<Longrightarrow> on_accept s = on_accept (with_accepts p (accept_conn cfd (asked s)))"
  "ans_accept (sv_os s) = Fail e # p \<Longrightarrow>
     on_accept s = (if e = EINTR \<or> e = ECONNABORTED then on_accept (with_accepts p (asked s)) else with_accepts p (asked s))"
  by (simp_all only: on_accept.simps [of s] sys_accept_cases split sysret.case with_accepts_os accept_conn_apart) simp

lemma accepts_new_turn:
  "ans_accept (sv_os s) = Ret cfd # p \<Longrightarrow> accepts_new s \<longleftrightarrow>
     cfd \<noteq> sv_lfd s \<and> sv_conns s cfd = None \<and> accepts_new (with_accepts p (accept_conn cfd (asked s)))"
  "ans_accept (sv_os s) = Fail e # p \<Longrightarrow>
     accepts_new s \<longleftrightarrow> (e = EINTR \<or> e = ECONNABORTED \<longrightarrow> accepts_new (with_accepts p (asked s)))"
  by (simp_all only: accepts_new.simps [of s] sys_accept_cases split sysret.case with_accepts_os accept_conn_apart) simp

lemma accept_takes:
  assumes "accepts_new s" and "sv_lfd s \<notin> dom (sv_conns s)"
  shows "\<exists>p. on_accept (with_accepts p s) = with_accepts [] (on_accept s) \<and> fresh_ok (with_accepts p s)"
  using assms
proof (induction "ans_accept (sv_os s)" arbitrary: s)
  case Nil
  then have "on_accept (with_accepts [] s) = with_accepts [] (on_accept s)" by (simp add: on_accept_turn)
  with Nil.prems(2) show ?case by (intro exI [of _ "[]"]) (simp add: fresh_ok_def)
next
  case (Cons a q)
  note q = Cons.hyps(2) [symmetric]
  show ?case
  proof (cases a)
    case (Ret cfd)
    let ?s1 = "accept_conn cfd (asked s)"
    have new: "cfd \<noteq> sv_lfd s" "sv_conns s cfd = None" "accepts_new (with_accepts q ?s1)"
      using Cons.prems(1) accepts_new_turn(1) [OF q [unfolded Ret]] by simp_all
    have st: "sv_conns ?s1 = (sv_conns s)(cfd \<mapsto> new_conn cfd (sv_next_owner s))" "sv_lfd ?s1 = sv_lfd s"
      using accept_conn_state [of "asked s" cfd] new(2) by simp_all
    obtain p where p: "on_accept (with_accepts p ?s1) = with_accepts [] (on_accept s)" "fresh_ok (with_accepts p ?s1)"
      using Cons.hyps(1) [of "with_accepts q ?s1"] st new Cons.prems(2) on_accept_turn(2) [OF q [unfolded Ret]] by auto
    have "on_accept (with_accepts (Ret cfd # p) s) = with_accepts [] (on_accept s)"
      using on_accept_turn(2) [of "with_accepts (Ret cfd # p) s"] p(1) by (simp add: accept_conn_apart [symmetric])
    moreover have "fresh_ok (with_accepts (Ret cfd # p) s)"
      using p(2) new(1,2) Cons.prems(2) by (auto simp: fresh_ok_def st Let_def)
    ultimately show ?thesis by blast
  next
    case (Fail e)
    note oa = on_accept_turn(3) [OF q [unfolded Fail]] on_accept_turn(3) [of "with_accepts (Fail e # p) s" e p for p]
    show ?thesis
    proof (cases "e = EINTR \<or> e = ECONNABORTED")
      case True
      with Cons.prems accepts_new_turn(2) [OF q [unfolded Fail]] Cons.hyps(1) [of "with_accepts q (asked s)"]
      obtain p where p: "on_accept (with_accepts p (asked s)) = with_accepts [] (on_accept s)" "fresh_ok (with_accepts p (asked s))"
        by (auto simp: oa(1))
      have "fresh_ok (with_accepts (Fail e # p) s)" using p(2) by (simp add: fresh_ok_def)
      moreover have "on_accept (with_accepts (Fail e # p) s) = with_accepts [] (on_accept s)" using oa(2) [of p] p(1) True by simp
      ultimately show ?thesis by blast
    next
      case False
      with Cons.prems(2) oa show ?thesis by (intro exI [of _ "[Fail e]"]) (simp add: fresh_ok_def)
    qed
  qed
qed

section \<open>Runs\<close>

text \<open>A state served by events that brought \<open>k\<close> bytes, counting those prepared, but for the answers of \<open>accept\<close>.\<close>

definition served_apart :: "nat \<Rightarrow> Server \<Rightarrow> bool" where
  "served_apart k s \<longleftrightarrow> served_upto k (with_accepts [] s)"

lemma served_prepare: "served_upto k s \<Longrightarrow> fresh_ok (with_accepts p s) \<Longrightarrow> served_upto k (with_accepts p s)"
  unfolding served_upto_def using served.kernel [of _ _ s "(sv_os s)\<lparr>ans_accept := p\<rparr>"] by (fastforce simp: with_accepts_def)

lemma served_fresh: "served_upto k s \<Longrightarrow> fresh_ok s"
  unfolding served_upto_def using served_ok srv_ok_def by blast

lemma apart_dispatch:
  assumes "served_apart k s" and "ev_ident ev = sv_lfd s \<longrightarrow> accepts_new s"
  shows "served_apart k (dispatch ev s)"
proof (cases "ev_ident ev = sv_lfd s")
  case False
  with assms(1) served_dispatch [of k "with_accepts [] s" ev] show ?thesis
    by (simp add: served_apart_def event_apart)
next
  case True
  then have d: "dispatch ev s = on_accept s" "dispatch ev (with_accepts p s) = on_accept (with_accepts p s)" for p
    by (simp_all add: dispatch_def)
  have sv: "served_upto k (with_accepts [] s)" using assms(1) by (simp add: served_apart_def)
  then have "sv_lfd s \<notin> dom (sv_conns s)" using served_fresh [OF sv] by (simp add: fresh_ok_def)
  with accept_takes [of s] assms(2) True obtain p where
    p: "on_accept (with_accepts p s) = with_accepts [] (on_accept s)" "fresh_ok (with_accepts p s)" by blast
  have "served_upto k (with_accepts p s)" using served_prepare [OF sv, of p] p(2) by simp
  from served_dispatch [OF this, of ev] show ?thesis by (simp add: served_apart_def d p(1))
qed

lemma apart_batch: "served_apart k s \<Longrightarrow> batch_new evs s \<Longrightarrow> served_apart k (fold dispatch evs s)"
  by (induction evs arbitrary: s) (simp_all add: apart_dispatch)

lemma apart_run: "served_apart k s \<Longrightarrow> run_new turns s \<Longrightarrow> served_apart k (run turns s)"
proof (induction turns arbitrary: s)
  case Nil
  then show ?case by simp
next
  case (Cons a as)
  have "served_apart k s'" if "run_turn a s = Some s'" for s'
    using that Cons.prems apart_batch served_reap [of k "with_accepts [] _"]
    by (auto simp: run_turn_def served_apart_def reap_apart split: sysret.splits if_splits)
  with Cons show ?case by (simp split: option.splits)
qed

lemma apart_start:
  assumes "init (server_new ip port w) = (True, s)" and "calls w = []"
  shows "served_apart (length (recvd (ans_recv (sv_os s)))) s"
proof -
  have "init (server_new ip port (w\<lparr>ans_accept := []\<rparr>)) = (True, with_accepts [] s)"
    using assms(1) by (simp add: init_apart)
  moreover have "fresh_ok (with_accepts [] s)" using init_state [OF assms(1)] by (simp add: fresh_ok_def)
  ultimately have "served 0 (\<lambda>_. []) (with_accepts [] s)"
    using served.start [of "w\<lparr>ans_accept := []\<rparr>"] assms(2) by simp
  then show ?thesis by (auto simp: served_apart_def served_upto_def)
qed

section \<open>A descriptor that comes back\<close>

text \<open>
  The server listens on descriptor 3. A first client gets descriptor 7 and leaves; its connection
  is closed and reaped, and a second client gets descriptor 7 again.
\<close>

definition reuse_os :: os where
  "reuse_os = \<lparr>ans_send = [], ans_recv = [Ret []], ans_accept = [Ret 7, Fail EAGAIN, Ret 7, Fail EAGAIN],
     ans_int = [Ret 3, Ret 0, Ret 1, Ret 0, Ret 2, Ret 0, Ret 0, Ret 4, Ret 0,
       Ret 2, Ret 0, Ret 0, Ret 0, Ret 2, Ret 0, Ret 0, Ret 0],
     bucket_order = (\<lambda>_ ks. ks), calls = []\<rparr>"

definition reuse_turns :: "kev list sysret list" where
  "reuse_turns = [Ret [readable 3], Ret [readable 7], Ret [readable 3]]"

definition reuse_state :: "owner \<Rightarrow> (fd \<rightharpoonup> Conn) \<Rightarrow> fd list \<Rightarrow> fd sysret list \<Rightarrow> string sysret list \<Rightarrow>
    int sysret list \<Rightarrow> syscall list \<Rightarrow> Server" where
  "reuse_state n m ks q r ns cs = \<lparr>sv_ip = ''127.0.0.1'', sv_port = 5000, sv_lfd = 3, sv_kq = 4, sv_next_owner = n,
     sv_conns = m, sv_keys = ks, sv_owner_fd = Map.empty, sv_usernames = {}, sv_dead = [], sv_exch = ex_init,
     sv_os = \<lparr>ans_send = [], ans_recv = r, ans_accept = q, ans_int = ns, bucket_order = (\<lambda>_ ks. ks), calls = cs\<rparr>\<rparr>"

lemma reuse_init:
  "\<exists>cs. init (server_new ''127.0.0.1'' 5000 reuse_os) = (True, reuse_state 1 Map.empty [] [Ret 7, Fail EAGAIN, Ret 7, Fail EAGAIN]
     [Ret []] [Ret 2, Ret 0, Ret 0, Ret 0, Ret 2, Ret 0, Ret 0, Ret 0] cs) \<and> closed cs = []"
  by (simp add: reuse_os_def server_eval reuse_state_def)

lemma reuse_accept:
  "\<exists>cs'. dispatch (readable 3) (reuse_state n Map.empty [] (Ret 7 # Fail EAGAIN # q) r (Ret 2 # Ret 0 # Ret 0 # Ret 0 # ns) cs)
     = reuse_state (n + 1) [7 \<mapsto> new_conn 7 n] [7] q r ns cs' \<and> closed cs' = closed cs"
  "accepts_new (reuse_state n Map.empty [] (Ret 7 # Fail EAGAIN # q) r (Ret 2 # Ret 0 # Ret 0 # Ret 0 # ns) cs)"
  by (simp_all add: reuse_state_def readable_def dispatch_def on_accept.simps accepts_new.simps sys_accept_def log_call_def
      accept_conn_def Let_def upd_os_def set_nonblocking_def sys_int_def kq_change_def)

lemma reuse_leave:
  "\<exists>cs'. reap (dispatch (readable 7) (reuse_state n [7 \<mapsto> new_conn 7 k] [7] q [Ret []] ns cs)) = reuse_state n Map.empty [] q [] ns cs'
     \<and> closed cs' = closed cs @ [7]"
  by (simp add: reuse_state_def readable_def dispatch_def on_readable_def find_live_def new_conn_def read_loop.simps sys_recv_def
      log_call_def close_conn_def reap_eq fun_eq_iff)

lemma reap_none: "sv_dead s = [] \<Longrightarrow> reap s = s"
  by (simp add: reap_def)

lemma reuse_run:
  "\<exists>s0 s c. init (server_new ''127.0.0.1'' 5000 reuse_os) = (True, s0) \<and> run_new reuse_turns s0
     \<and> run reuse_turns s0 = s \<and> sv_conns s 7 = Some c \<and> c_owner_id c = 2 \<and> \<not> c_dead c \<and> closed (calls (sv_os s)) = [7]"
proof -
  let ?ns = "[Ret 2, Ret 0, Ret 0, Ret 0]" and ?q = "[Ret 7, Fail EAGAIN]"
  obtain cs0 where 0: "init (server_new ''127.0.0.1'' 5000 reuse_os) =
      (True, reuse_state 1 Map.empty [] (?q @ ?q) [Ret []] (?ns @ ?ns) cs0)" "closed cs0 = []"
    using reuse_init by auto
  define s0 where "s0 = reuse_state 1 Map.empty [] (?q @ ?q) [Ret []] (?ns @ ?ns) cs0"
  obtain cs1 where 1: "dispatch (readable 3) s0 = reuse_state 2 [7 \<mapsto> new_conn 7 1] [7] ?q [Ret []] ?ns cs1" "closed cs1 = []"
    using reuse_accept(1) [of 1 ?q "[Ret []]" ?ns cs0] 0(2) by (auto simp: s0_def)
  obtain cs2 where 2: "reap (dispatch (readable 7) (reuse_state 2 [7 \<mapsto> new_conn 7 1] [7] ?q [Ret []] ?ns cs1)) =
      reuse_state 2 Map.empty [] ?q [] ?ns cs2" "closed cs2 = [7]"
    using reuse_leave [of 2 1 ?q ?ns cs1] 1(2) by auto
  obtain cs3 where 3: "dispatch (readable 3) (reuse_state 2 Map.empty [] ?q [] ?ns cs2) =
      reuse_state 3 [7 \<mapsto> new_conn 7 2] [7] [] [] [] cs3" "closed cs3 = [7]"
    using reuse_accept(1) [of 2 "[]" "[]" "[]" cs2] 2(2) by auto
  have d: "sv_dead (reuse_state n m ks q r ns cs) = []" "sv_lfd (reuse_state n m ks q r ns cs) = 3" "ev_ident (readable f) = f"
    for n m ks q r ns cs f by (simp_all add: reuse_state_def readable_def)
  have "run_new reuse_turns s0" "run reuse_turns s0 = reuse_state 3 [7 \<mapsto> new_conn 7 2] [7] [] [] [] cs3"
    using reuse_accept(2) [of 1 ?q "[Ret []]" ?ns cs0] reuse_accept(2) [of 2 "[]" "[]" "[]" cs2]
    by (simp_all add: reuse_turns_def run_turn_def 1(1) 2(1) 3(1) reap_none d s0_def [symmetric] del: One_nat_def)
      (simp add: s0_def)
  with 0(1) 3(2) show ?thesis by (auto simp: s0_def reuse_state_def new_conn_def)
qed

end
