(* ===== verification/Connflood.thy ===== *)
theory Connflood
  imports Event_Loop "HOL-Library.Multiset"
begin

text \<open>
  \<open>src/tools/connflood.cpp\<close>: the load generator that opens a given number of idle
  connections. Its counters and the vector of descriptors it holds are the state; the inner
  loop issues non-blocking connects, the outer one drains completions. What it reports is kept
  as a list, without the times and the texts of error numbers.
\<close>

section \<open>Arguments\<close>

text \<open>The loop that cuts the value of \<open>--src\<close> at commas and skips empty pieces.\<close>

fun src_loop :: "string \<Rightarrow> string \<Rightarrow> string list \<Rightarrow> string list" where
  "src_loop [] cur srcs = (if cur \<noteq> [] then srcs @ [cur] else srcs)"
| "src_loop (c # s) cur srcs =
     (if c = CHR '','' then src_loop s [] (if cur \<noteq> [] then srcs @ [cur] else srcs)
      else src_loop s (cur @ [c]) srcs)"

record flood_args =
  fa_srcs :: "string list"
  fa_batch :: int
  fa_report :: int

function flood_opts :: "string list \<Rightarrow> flood_args \<Rightarrow> flood_args" where
  "flood_opts [] p = p"
| "flood_opts (a # r) p =
     (if a = ''--src'' \<and> r \<noteq> [] then flood_opts (tl r) (p\<lparr>fa_srcs := src_loop (hd r) [] (fa_srcs p)\<rparr>)
      else if a = ''--batch'' \<and> r \<noteq> [] then flood_opts (tl r) (p\<lparr>fa_batch := atol (hd r)\<rparr>)
      else if a = ''--report'' \<and> r \<noteq> [] then flood_opts (tl r) (p\<lparr>fa_report := atol (hd r)\<rparr>)
      else flood_opts r p)"
  by pat_completeness auto
termination
  by (relation "measure (\<lambda>(as, p). length as)") (auto simp: neq_Nil_conv)

section \<open>State and the issuing loop\<close>

text \<open>
  The reports: established and pending connections on the way, connects that do not complete,
  the summary with what was requested, established and is held, the verdict, and the number of
  descriptors about to be closed.
\<close>

datatype flood_report = Progress int int | StillPending int | Summary int int nat | StoppedBy string | TargetReached | Closing nat

record Flood =
  fl_os :: os
  fl_kq :: int
  fl_fds :: "fd list"
  fl_issued :: int
  fl_established :: int
  fl_pending :: int
  fl_stop :: "string option"
  fl_undef :: bool
  fl_out :: "flood_report list"

text \<open>What is fixed for a run: the destination, the source addresses, the target, the batch size and the reporting interval.\<close>

record flood_cfg =
  fc_host :: string
  fc_port :: "16 word"
  fc_binds :: "string list"
  fc_target :: int
  fc_batch :: int
  fc_report :: int

definition socket_reason :: "errno \<Rightarrow> string" where
  "socket_reason e = (if e = EMFILE then ''socket(): EMFILE (per-process fd limit)''
     else if e = ENFILE then ''socket(): ENFILE (system-wide file table full)'' else ''socket() failed'')"

definition bind_reason :: "errno \<Rightarrow> string" where
  "bind_reason e = (if e = EADDRNOTAVAIL
     then ''bind(): EADDRNOTAVAIL (ephemeral ports exhausted for this source address)'' else ''bind() failed'')"

definition connect_reason :: "errno \<Rightarrow> string" where
  "connect_reason e =
     (if e = EADDRNOTAVAIL then ''connect(): EADDRNOTAVAIL (ephemeral port range exhausted)''
      else if e = EADDRINUSE then ''connect(): EADDRINUSE (4-tuple space exhausted)''
      else if e = ECONNREFUSED then ''connect(): ECONNREFUSED (server gone or listen backlog overflowed)''
      else if e = ETIMEDOUT then ''connect(): ETIMEDOUT'' else ''connect() failed'')"

text \<open>The progress report after each connect, every \<open>report\<close> connections established.\<close>

definition progress :: "flood_cfg \<Rightarrow> Flood \<Rightarrow> Flood" where
  "progress cfg s =
     (if 0 < fc_report cfg \<and> fl_established s mod fc_report cfg = 0 \<and> 0 < fl_established s
      then s\<lparr>fl_out := fl_out s @ [Progress (fl_established s) (fl_pending s)]\<rparr> else s)"

lemma progress_fields [simp]:
  "fl_os (progress cfg s) = fl_os s" "fl_kq (progress cfg s) = fl_kq s" "fl_fds (progress cfg s) = fl_fds s"
  "fl_issued (progress cfg s) = fl_issued s" "fl_established (progress cfg s) = fl_established s"
  "fl_pending (progress cfg s) = fl_pending s" "fl_stop (progress cfg s) = fl_stop s" "fl_undef (progress cfg s) = fl_undef s"
  by (simp_all add: progress_def)

lemma progress_eq: "\<exists>out. progress cfg s = s\<lparr>fl_out := out\<rparr>"
  by (intro exI [of _ "fl_out (progress cfg s)"]) (simp add: progress_def)

text \<open>
  From the socket on: non-blocking mode, connect, and the three outcomes. \<open>fds.pop_back()\<close> on
  an empty vector is undefined in the language: \<open>fl_undef\<close> records that it happened, and what
  the model computes afterwards says nothing about the program.
\<close>

definition connect_one :: "flood_cfg \<Rightarrow> fd \<Rightarrow> Flood \<Rightarrow> Flood" where
  "connect_one cfg f s =
     (let w1 = snd (set_nonblocking f (fl_os s)) in
      case sys_int (SysConnect f (fc_host cfg) (fc_port cfg)) w1 of
        (Ret _, w2) \<Rightarrow>
          progress cfg (s\<lparr>fl_os := w2, fl_fds := fl_fds s @ [f], fl_issued := fl_issued s + 1,
            fl_established := fl_established s + 1\<rparr>)
      | (Fail e, w2) \<Rightarrow>
          if e = EINPROGRESS then
            progress cfg (s\<lparr>fl_os := snd (kq_change (fl_kq s) f EVFILT_WRITE [EV_ADD, EV_ENABLE] w2),
              fl_fds := fl_fds s @ [f], fl_issued := fl_issued s + 1, fl_pending := fl_pending s + 1\<rparr>)
          else
            s\<lparr>fl_os := log_call (SysClose f) w2, fl_fds := butlast (fl_fds s),
              fl_stop := Some (connect_reason e), fl_undef := fl_undef s \<or> fl_fds s = []\<rparr>)"

definition issue_one :: "flood_cfg \<Rightarrow> Flood \<Rightarrow> Flood" where
  "issue_one cfg s =
     (case sys_int SysSocket (fl_os s) of
        (Fail e, w1) \<Rightarrow> s\<lparr>fl_os := w1, fl_stop := Some (socket_reason e)\<rparr>
      | (Ret f, w1) \<Rightarrow>
          if fc_binds cfg \<noteq> [] then
            (let b = fc_binds cfg ! nat (fl_issued s mod int (length (fc_binds cfg))) in
             case sys_int (SysBind f b 0) w1 of
               (Fail e, w2) \<Rightarrow> s\<lparr>fl_os := log_call (SysClose f) w2, fl_stop := Some (bind_reason e)\<rparr>
             | (Ret _, w2) \<Rightarrow> connect_one cfg f (s\<lparr>fl_os := w2\<rparr>))
          else connect_one cfg f (s\<lparr>fl_os := w1\<rparr>))"

text \<open>Every \<open>break\<close> of the inner loop sets the stop reason, which its condition tests.\<close>

definition may_issue :: "flood_cfg \<Rightarrow> Flood \<Rightarrow> bool" where
  "may_issue cfg s \<longleftrightarrow> fl_pending s < fc_batch cfg \<and> fl_issued s < fc_target cfg \<and> fl_stop s = None"

lemma issue_one_progress:
  "fl_stop s = None \<Longrightarrow> fl_issued (issue_one cfg s) = fl_issued s + 1 \<and> fl_stop (issue_one cfg s) = None
     \<or> fl_issued (issue_one cfg s) = fl_issued s \<and> fl_stop (issue_one cfg s) \<noteq> None"
  by (auto simp: issue_one_def connect_one_def Let_def split: prod.splits sysret.splits)

function issue_loop :: "flood_cfg \<Rightarrow> Flood \<Rightarrow> Flood" where
  "issue_loop cfg s = (if may_issue cfg s then issue_loop cfg (issue_one cfg s) else s)"
  by pat_completeness auto
termination
proof (relation "measures [\<lambda>(cfg, s). if fl_stop s = None then 1 else 0, \<lambda>(cfg, s). nat (fc_target cfg - fl_issued s)]", goal_cases)
  case 1
  show ?case by simp
next
  case (2 cfg s)
  then show ?case using issue_one_progress [of s cfg] by (auto simp: may_issue_def)
qed

declare issue_loop.simps [simp del]

section \<open>Draining completions\<close>

text \<open>One completion: the descriptor and its \<open>SO_ERROR\<close>.\<close>

definition complete_one :: "fd \<times> int \<Rightarrow> Flood \<Rightarrow> Flood" where
  "complete_one ev s =
     (let s1 = s\<lparr>fl_os := snd (kq_change (fl_kq s) (fst ev) EVFILT_WRITE [EV_DELETE] (fl_os s)),
                 fl_pending := fl_pending s - 1\<rparr>
      in if snd ev = 0 then s1\<lparr>fl_established := fl_established s1 + 1\<rparr>
         else s1\<lparr>fl_stop := Some ''asynchronous connect failed''\<rparr>)"

text \<open>The warning after two seconds without a completion.\<close>

definition warn :: "(fd \<times> int) list \<Rightarrow> Flood \<Rightarrow> Flood" where
  "warn evs s = (if evs = [] \<and> 0 < fl_pending s then s\<lparr>fl_out := fl_out s @ [StillPending (fl_pending s)]\<rparr> else s)"

text \<open>
  One turn of the outer loop, given what \<open>kevent\<close> answers should it be called: False says the
  loop is left by \<open>break\<close>.
\<close>

definition flood_turn :: "flood_cfg \<Rightarrow> (fd \<times> int) list sysret \<Rightarrow> Flood \<Rightarrow> bool \<times> Flood" where
  "flood_turn cfg a s =
     (let s1 = issue_loop cfg s in
      if fl_pending s1 = 0 then (True, s1)
      else (case a of
              Fail e \<Rightarrow> (e = EINTR, s1)
            | Ret evs \<Rightarrow> (True, fold complete_one evs (warn evs s1))))"

text \<open>The outer loop, for as many answers as are given; the flag is \<open>g_stop\<close>.\<close>

fun flood_loop :: "flood_cfg \<Rightarrow> (bool \<times> (fd \<times> int) list sysret) list \<Rightarrow> Flood \<Rightarrow> Flood" where
  "flood_loop cfg [] s = s"
| "flood_loop cfg ((g_stop, a) # as) s =
     (if \<not> g_stop \<and> fl_established s < fc_target cfg \<and> fl_stop s = None
      then (case flood_turn cfg a s of
              (True, s1) \<Rightarrow> flood_loop cfg as s1
            | (False, s1) \<Rightarrow> s1)
      else s)"

text \<open>The summary: what was asked for, what was established and is held, and the verdict.\<close>

definition flood_summary :: "flood_cfg \<Rightarrow> Flood \<Rightarrow> Flood" where
  "flood_summary cfg s = s\<lparr>fl_out := fl_out s @ [Summary (fc_target cfg) (fl_established s) (length (fl_fds s)),
     case fl_stop s of Some r \<Rightarrow> StoppedBy r | None \<Rightarrow> TargetReached]\<rparr>"

text \<open>After the signal: close what is held and the kqueue; the exit code.\<close>

definition flood_release :: "Flood \<Rightarrow> int \<times> Flood" where
  "flood_release s =
     (let w1 = fold (\<lambda>f w. log_call (SysClose f) w) (fl_fds s) (fl_os s)
      in (if fl_stop s = None then 0 else 1, s\<lparr>fl_os := log_call (SysClose (fl_kq s)) w1, fl_out := fl_out s @ [Closing (length (fl_fds s))]\<rparr>))"

text \<open>
  \<open>raise_fd_limit\<close>: the limit on open descriptors is set to its hard maximum, which the answer
  of \<open>getrlimit\<close> gives; a failure to set it is only reported, and the last call is for the report.
\<close>

definition raise_fd_limit :: "os \<Rightarrow> os" where
  "raise_fd_limit w =
     (case sys_int SysGetrlimit w of
        (Fail _, w1) \<Rightarrow> w1
      | (Ret mx, w1) \<Rightarrow> snd (sys_int SysGetrlimit (snd (sys_int (SysSetrlimit mx) w1))))"

text \<open>
  \<open>main\<close>: the arguments, the limit, the addresses (each parsed by \<open>inet_pton\<close>), the kqueue, the loop and
  the release; \<open>argv\<close> starts with the name of the program.
\<close>

fun parse_all :: "string list \<Rightarrow> os \<Rightarrow> bool \<times> os" where
  "parse_all [] w = (True, w)"
| "parse_all (a # as) w =
     (case sys_int (SysInetPton a) w of (r, w1) \<Rightarrow> if r = Ret 1 then parse_all as w1 else (False, w1))"

text \<open>
  The exit code with the final state, or the abort by the exception that \<open>fds.reserve\<close> throws
  when the count, read as unsigned, exceeds \<open>max_size\<close>, for a vector of \<open>int\<close> in the library of
  the platform (libc++) \<open>2^62 - 1\<close>: every negative count does.
\<close>

datatype flood_exit = Exit int "Flood option" | Length_Error

definition flood_start :: "int \<Rightarrow> os \<Rightarrow> Flood" where
  "flood_start kq w = \<lparr>fl_os = w, fl_kq = kq, fl_fds = [], fl_issued = 0, fl_established = 0,
     fl_pending = 0, fl_stop = None, fl_undef = False, fl_out = []\<rparr>"

definition flood_main ::
  "string list \<Rightarrow> (bool \<times> (fd \<times> int) list sysret) list \<Rightarrow> os \<Rightarrow> flood_exit" where
  "flood_main argv turns w =
     (if length argv < 4 then Exit 2 None
      else (let p = flood_opts (drop 4 argv) \<lparr>fa_srcs = [], fa_batch = 256, fa_report = 5000\<rparr>;
                cfg = \<lparr>fc_host = argv ! 1, fc_port = word_of_int (atoi (argv ! 2)), fc_binds = fa_srcs p,
                       fc_target = atol (argv ! 3), fc_batch = fa_batch p, fc_report = fa_report p\<rparr>
            in case parse_all (argv ! 1 # fa_srcs p) (raise_fd_limit w) of
                 (False, w1) \<Rightarrow> Exit 1 None
               | (True, w1) \<Rightarrow>
                   (case sys_int SysKqueue w1 of
                      (Fail _, w2) \<Rightarrow> Exit 1 None
                    | (Ret kq, w2) \<Rightarrow>
                        if fc_target cfg < 0 \<or> 2 ^ 62 \<le> fc_target cfg then Length_Error
                        else (case flood_release (flood_summary cfg (flood_loop cfg turns (flood_start kq w2))) of
                                (code, s) \<Rightarrow> Exit code (Some s)))))"

section \<open>What a trace shows\<close>

text \<open>
  Read off the trace: the descriptors registered for write events, with multiplicity; the
  addresses bound to, in order; the descriptors closed, in order.
\<close>

definition watch_step :: "int \<Rightarrow> syscall \<Rightarrow> fd multiset \<Rightarrow> fd multiset" where
  "watch_step kq c m =
     (case c of
        SysKevent k f EVFILT_WRITE fl \<Rightarrow>
          if k \<noteq> kq then m else if EV_ADD \<in> set fl then add_mset f m
          else if EV_DELETE \<in> set fl then m - {#f#} else m
      | _ \<Rightarrow> m)"

definition watched :: "int \<Rightarrow> syscall list \<Rightarrow> fd multiset" where
  "watched kq cs = fold (watch_step kq) cs {#}"

fun bound :: "syscall list \<Rightarrow> string list" where
  "bound [] = []"
| "bound (SysBind f a p # cs) = a # bound cs"
| "bound (_ # cs) = bound cs"

lemma watched_append [simp]: "watched kq (xs @ ys) = fold (watch_step kq) ys (watched kq xs)"
  by (simp add: watched_def)

lemma bound_append [simp]: "bound (xs @ ys) = bound xs @ bound ys"
  by (induction xs rule: bound.induct) auto

lemma sys_int_calls [simp]: "sys_int c w = (r, w') \<Longrightarrow> calls w' = calls w @ [c]"
  by (drule sys_int_frame) simp

lemma kq_change_calls [simp]: "calls (snd (kq_change kq f filt flags w)) = calls w @ [SysKevent kq f filt flags]"
  using kq_change_frame by blast

lemma set_nonblocking_obs [simp]:
  "watched kq (calls (snd (set_nonblocking f w))) = watched kq (calls w)"
  "bound (calls (snd (set_nonblocking f w))) = bound (calls w)"
  "closed (calls (snd (set_nonblocking f w))) = closed (calls w)"
  by (auto simp: set_nonblocking_def watch_step_def split: prod.splits sysret.splits)

section \<open>The counters\<close>

text \<open>
  The bookkeeping that every turn keeps, and the addresses that the sockets are bound to, where
  \<open>b\<close> is what had been bound before the run and the number of sockets bound is that of the
  connects issued, or one more when the run has just stopped.
\<close>

definition flood_inv :: "flood_cfg \<Rightarrow> Flood \<Rightarrow> bool" where
  "flood_inv cfg s \<longleftrightarrow>
     fl_pending s = int (size (watched (fl_kq s) (calls (fl_os s))))
     \<and> fl_pending s \<le> max 0 (fc_batch cfg)
     \<and> 0 \<le> fl_established s \<and> fl_established s + fl_pending s \<le> fl_issued s
     \<and> fl_issued s \<le> max 0 (fc_target cfg)
     \<and> int (length (fl_fds s)) \<le> fl_issued s \<and> fl_issued s - 1 \<le> int (length (fl_fds s))
     \<and> (fl_stop s = None \<longrightarrow> int (length (fl_fds s)) = fl_issued s
          \<and> fl_established s + fl_pending s = fl_issued s \<and> \<not> fl_undef s)"

definition rotation :: "string list \<Rightarrow> nat \<Rightarrow> string list" where
  "rotation bs m = (if bs = [] then [] else map (\<lambda>i. bs ! (i mod length bs)) [0..<m])"

definition bind_inv :: "flood_cfg \<Rightarrow> string list \<Rightarrow> Flood \<Rightarrow> bool" where
  "bind_inv cfg b s \<longleftrightarrow> 0 \<le> fl_issued s \<and>
     (\<exists>m. bound (calls (fl_os s)) = b @ rotation (fc_binds cfg) m
        \<and> (m = nat (fl_issued s) \<or> fl_stop s \<noteq> None \<and> m = nat (fl_issued s) + 1))"

lemma connect_one_inv:
  assumes "flood_inv cfg s" and "may_issue cfg s"
  shows "flood_inv cfg (connect_one cfg f s)"
  using assms unfolding flood_inv_def may_issue_def
  by (auto simp: connect_one_def Let_def watch_step_def split: prod.splits sysret.splits)

lemma issue_one_inv:
  assumes "flood_inv cfg s" and "may_issue cfg s"
  shows "flood_inv cfg (issue_one cfg s)"
proof -
  have os: "flood_inv cfg (s\<lparr>fl_os := w\<rparr>) \<and> may_issue cfg (s\<lparr>fl_os := w\<rparr>)"
    if "watched (fl_kq s) (calls w) = watched (fl_kq s) (calls (fl_os s))" for w
    using assms that by (simp add: flood_inv_def may_issue_def)
  have stop: "flood_inv cfg (s\<lparr>fl_os := w, fl_stop := Some r\<rparr>)"
    if "watched (fl_kq s) (calls w) = watched (fl_kq s) (calls (fl_os s))" for w r
    using assms that by (auto simp: flood_inv_def may_issue_def)
  show ?thesis
    by (auto simp: issue_one_def Let_def watch_step_def os stop intro!: connect_one_inv split: prod.splits sysret.splits)
qed

lemma connect_one_bound:
  "bound (calls (fl_os (connect_one cfg f s))) = bound (calls (fl_os s))"
  by (auto simp: connect_one_def Let_def split: prod.splits sysret.splits)

lemma connect_one_issued:
  "fl_stop s = None \<Longrightarrow> fl_issued (connect_one cfg f s) = fl_issued s + 1
     \<or> fl_issued (connect_one cfg f s) = fl_issued s \<and> fl_stop (connect_one cfg f s) \<noteq> None"
  by (auto simp: connect_one_def Let_def split: prod.splits sysret.splits)

lemma issue_one_bind:
  assumes "bind_inv cfg b s" and "may_issue cfg s"
  shows "bind_inv cfg b (issue_one cfg s)"
proof -
  from assms have i: "0 \<le> fl_issued s" "fl_stop s = None"
    "bound (calls (fl_os s)) = b @ rotation (fc_binds cfg) (nat (fl_issued s))"
    by (auto simp: bind_inv_def may_issue_def)
  define n where "n = nat (fl_issued s)"
  have n: "fl_issued s = int n" "nat (int n + 1) = Suc n" using i(1) by (simp_all add: n_def)
  have rot: "rotation bs (Suc n) = rotation bs n @ [bs ! (n mod length bs)]" if "bs \<noteq> []" for bs :: "string list"
    using that by (simp add: rotation_def)
  have c: "bind_inv cfg b (connect_one cfg f (s\<lparr>fl_os := w\<rparr>))"
    if "bound (calls w) = b @ rotation (fc_binds cfg) (Suc n)" for f w
    using that connect_one_issued [of "s\<lparr>fl_os := w\<rparr>" cfg f] i n
    by (auto simp: bind_inv_def connect_one_bound)
  have e: "fc_binds cfg = [] \<Longrightarrow> rotation (fc_binds cfg) n = rotation (fc_binds cfg) (Suc n)"
    by (simp add: rotation_def)
  have stop: "bind_inv cfg b (s\<lparr>fl_os := w, fl_stop := Some r\<rparr>)"
    if "bound (calls w) = b @ rotation (fc_binds cfg) n \<or> bound (calls w) = b @ rotation (fc_binds cfg) (Suc n)" for w r
    using that n by (auto simp: bind_inv_def)
  show ?thesis
    using i(3) rot n e
    by (auto simp: issue_one_def Let_def zmod_int [symmetric] n_def [symmetric] intro!: c stop split: prod.splits sysret.splits)
qed

lemma issue_loop_inv:
  "flood_inv cfg s \<Longrightarrow> flood_inv cfg (issue_loop cfg s)"
  "bind_inv cfg b s \<Longrightarrow> bind_inv cfg b (issue_loop cfg s)"
  by (induction cfg s rule: issue_loop.induct)
    (subst issue_loop.simps, simp add: issue_one_inv issue_one_bind)+

lemma complete_one_inv:
  assumes "flood_inv cfg s" and "fst ev \<in># watched (fl_kq s) (calls (fl_os s))"
  shows "flood_inv cfg (complete_one ev s) \<and> fl_kq (complete_one ev s) = fl_kq s
    \<and> watched (fl_kq s) (calls (fl_os (complete_one ev s))) = watched (fl_kq s) (calls (fl_os s)) - {#fst ev#}"
proof -
  have "0 < size (watched (fl_kq s) (calls (fl_os s)))"
    using assms(2) by (auto simp: nonempty_has_size [symmetric])
  with assms show ?thesis
    by (auto simp: flood_inv_def complete_one_def Let_def watch_step_def size_Diff_singleton)
qed

lemma fold_complete_inv:
  "flood_inv cfg s \<Longrightarrow> mset (map fst evs) \<subseteq># watched (fl_kq s) (calls (fl_os s)) \<Longrightarrow> flood_inv cfg (fold complete_one evs s)"
proof (induction evs arbitrary: s)
  case Nil
  then show ?case by simp
next
  case (Cons ev evs)
  from Cons.prems(2) have "fst ev \<in># watched (fl_kq s) (calls (fl_os s))"
    by (auto dest: mset_subset_eqD)
  note c = complete_one_inv [OF Cons.prems(1) this]
  from Cons.prems(2) have "mset (map fst evs) \<subseteq># watched (fl_kq s) (calls (fl_os s)) - {#fst ev#}"
    by (simp add: insert_subset_eq_iff)
  with c Cons.IH [of "complete_one ev s"] show ?case by simp
qed

lemma complete_one_bind: "bind_inv cfg b s \<Longrightarrow> bind_inv cfg b (complete_one ev s)"
  by (auto simp: bind_inv_def complete_one_def Let_def)

lemma fold_complete_bind: "bind_inv cfg b s \<Longrightarrow> bind_inv cfg b (fold complete_one evs s)"
  by (induction evs arbitrary: s) (auto simp: complete_one_bind)

text \<open>
  What is relied on of \<open>kevent\<close>: while connects are pending, it reports registered descriptors
  only, and no registration twice in one answer.
\<close>

definition turn_ok :: "flood_cfg \<Rightarrow> (fd \<times> int) list sysret \<Rightarrow> Flood \<Rightarrow> bool" where
  "turn_ok cfg a s \<longleftrightarrow>
     (case a of
        Fail _ \<Rightarrow> True
      | Ret evs \<Rightarrow> fl_pending (issue_loop cfg s) \<noteq> 0 \<longrightarrow>
          mset (map fst evs) \<subseteq># watched (fl_kq s) (calls (fl_os (issue_loop cfg s))))"

fun turns_ok :: "flood_cfg \<Rightarrow> (bool \<times> (fd \<times> int) list sysret) list \<Rightarrow> Flood \<Rightarrow> bool" where
  "turns_ok cfg [] s \<longleftrightarrow> True"
| "turns_ok cfg ((g_stop, a) # as) s \<longleftrightarrow> turn_ok cfg a s \<and> turns_ok cfg as (snd (flood_turn cfg a s))"

lemma connect_one_kq [simp]: "fl_kq (connect_one cfg f s) = fl_kq s"
  by (simp add: connect_one_def Let_def split: prod.splits sysret.splits)

lemma warn_fields [simp]:
  "fl_os (warn evs s) = fl_os s" "fl_kq (warn evs s) = fl_kq s" "fl_fds (warn evs s) = fl_fds s"
  "fl_issued (warn evs s) = fl_issued s" "fl_established (warn evs s) = fl_established s"
  "fl_pending (warn evs s) = fl_pending s" "fl_stop (warn evs s) = fl_stop s" "fl_undef (warn evs s) = fl_undef s"
  by (simp_all add: warn_def)

lemma warn_inv [simp]: "flood_inv cfg (warn evs s) = flood_inv cfg s" "bind_inv cfg b (warn evs s) = bind_inv cfg b s"
  by (simp_all add: flood_inv_def bind_inv_def)

lemma issue_loop_kq [simp]: "fl_kq (issue_loop cfg s) = fl_kq s"
  by (induction cfg s rule: issue_loop.induct)
    (subst issue_loop.simps, auto simp: issue_one_def Let_def split: prod.splits sysret.splits if_splits)

lemma flood_turn_inv:
  "flood_inv cfg s \<Longrightarrow> turn_ok cfg a s \<Longrightarrow> flood_inv cfg (snd (flood_turn cfg a s))"
  "bind_inv cfg b s \<Longrightarrow> bind_inv cfg b (snd (flood_turn cfg a s))"
  by (auto simp: flood_turn_def Let_def turn_ok_def issue_loop_inv fold_complete_inv fold_complete_bind
      split: sysret.splits)

lemma flood_loop_turns:
  assumes "\<And>a s. I s \<Longrightarrow> H a s \<Longrightarrow> I (snd (flood_turn cfg a s))"
    and "\<And>g a as s. K ((g, a) # as) s \<Longrightarrow> H a s \<and> K as (snd (flood_turn cfg a s))"
    and "I s" and "K turns s"
  shows "I (flood_loop cfg turns s)"
  using assms(3,4)
proof (induction turns arbitrary: s)
  case Nil
  then show ?case by simp
next
  case (Cons t ts)
  obtain g a where t: "t = (g, a)" by (metis prod.exhaust)
  obtain go s1 where f: "flood_turn cfg a s = (go, s1)" by (metis prod.exhaust)
  from assms(2) [of g a ts s] Cons.prems(2) t f have "H a s" "K ts s1" by simp_all
  moreover from assms(1) [OF Cons.prems(1) \<open>H a s\<close>] f have "I s1" by simp
  ultimately show ?case using Cons.IH [of s1] Cons.prems(1) t f by (auto split: bool.splits)
qed

lemma flood_loop_inv: "flood_inv cfg s \<Longrightarrow> turns_ok cfg turns s \<Longrightarrow> flood_inv cfg (flood_loop cfg turns s)"
  by (rule flood_loop_turns [where H = "turn_ok cfg" and K = "turns_ok cfg"]) (auto intro: flood_turn_inv(1))

lemma flood_loop_bind: "bind_inv cfg b s \<Longrightarrow> bind_inv cfg b (flood_loop cfg turns s)"
  by (rule flood_loop_turns [where H = "\<lambda>_ _. True" and K = "\<lambda>_ _. True"]) (auto intro: flood_turn_inv(2))

text \<open>
  The completions with an error that the outer loop treats. The connects issued that are
  neither established nor pending are these.
\<close>

fun failed_completions :: "flood_cfg \<Rightarrow> (bool \<times> (fd \<times> int) list sysret) list \<Rightarrow> Flood \<Rightarrow> nat" where
  "failed_completions cfg [] s = 0"
| "failed_completions cfg ((g_stop, a) # as) s =
     (if \<not> g_stop \<and> fl_established s < fc_target cfg \<and> fl_stop s = None
      then (if fl_pending (issue_loop cfg s) = 0 then 0
            else case a of Fail _ \<Rightarrow> 0 | Ret evs \<Rightarrow> length (filter (\<lambda>ev. snd ev \<noteq> 0) evs))
        + (case flood_turn cfg a s of (True, s1) \<Rightarrow> failed_completions cfg as s1 | (False, s1) \<Rightarrow> 0)
      else 0)"

definition lost :: "Flood \<Rightarrow> int" where
  "lost s = fl_issued s - fl_established s - fl_pending s"

lemma issue_loop_lost: "lost (issue_loop cfg s) = lost s"
proof (induction cfg s rule: issue_loop.induct)
  case (1 cfg s)
  have "lost (issue_one cfg s) = lost s"
    by (auto simp: issue_one_def connect_one_def lost_def Let_def split: prod.splits sysret.splits)
  with 1 show ?case by (subst issue_loop.simps) simp
qed

lemma fold_complete_lost: "lost (fold complete_one evs s) = lost s + int (length (filter (\<lambda>ev. snd ev \<noteq> 0) evs))"
  by (induction evs arbitrary: s) (auto simp: complete_one_def lost_def Let_def)

lemma flood_turn_lost:
  "lost (snd (flood_turn cfg a s)) = lost s + int (if fl_pending (issue_loop cfg s) = 0 then 0
     else case a of Fail _ \<Rightarrow> 0 | Ret evs \<Rightarrow> length (filter (\<lambda>ev. snd ev \<noteq> 0) evs))"
proof -
  have "lost (warn evs x) = lost x" for evs x by (simp add: lost_def)
  then show ?thesis by (simp add: flood_turn_def Let_def issue_loop_lost fold_complete_lost split: sysret.split)
qed

lemma flood_loop_lost: "lost (flood_loop cfg turns s) = lost s + int (failed_completions cfg turns s)"
proof (induction turns arbitrary: s)
  case Nil
  then show ?case by simp
next
  case (Cons t ts)
  obtain g a where t: "t = (g, a)" by (metis prod.exhaust)
  obtain go s1 where f: "flood_turn cfg a s = (go, s1)" by (metis prod.exhaust)
  from flood_turn_lost [of cfg a s] Cons.IH [of s1] show ?case
    by (simp add: t f split: bool.split)
qed

lemma flood_start_counts:
  "fl_issued (flood_start kq w) = 0" "fl_established (flood_start kq w) = 0" "fl_pending (flood_start kq w) = 0"
  by (simp_all add: flood_start_def)

text \<open>
  C29: the counters of the generator are exact: at every point of a run the number of pending
  connects is that of the descriptors registered for completion and never exceeds the batch
  size; established connections, pending ones and completions that failed add up to the
  connects issued, which never exceed the target. As long as nothing stopped the run no
  completion has failed and the vector holds one descriptor for each connect issued, so a run
  that reached its target holds exactly that many established connections and has none
  pending; once something stopped it, the vector may hold one less.
\<close>

theorem flood_counts:
  assumes "watched kq (calls w) = {#}" and "turns_ok cfg turns (flood_start kq w)"
    and "flood_loop cfg turns (flood_start kq w) = s"
  shows "fl_pending s = int (size (watched (fl_kq s) (calls (fl_os s)))) \<and> fl_pending s \<le> max 0 (fc_batch cfg)
    \<and> 0 \<le> fl_established s \<and> fl_issued s \<le> max 0 (fc_target cfg)
    \<and> fl_established s + fl_pending s + int (failed_completions cfg turns (flood_start kq w)) = fl_issued s
    \<and> int (length (fl_fds s)) \<in> {fl_issued s - 1, fl_issued s}
    \<and> (fl_stop s = None \<longrightarrow> int (length (fl_fds s)) = fl_issued s
         \<and> failed_completions cfg turns (flood_start kq w) = 0 \<and> \<not> fl_undef s)
    \<and> (fl_stop s = None \<and> 0 \<le> fc_target cfg \<and> fc_target cfg \<le> fl_established s \<longrightarrow>
         fl_established s = fc_target cfg \<and> fl_pending s = 0 \<and> int (length (fl_fds s)) = fc_target cfg)"
proof -
  have "flood_inv cfg (flood_start kq w)" using assms(1) by (simp add: flood_inv_def flood_start_def)
  from flood_loop_inv [OF this assms(2)] have "flood_inv cfg s" by (simp add: assms(3))
  note i = this [unfolded flood_inv_def]
  have f: "fl_established s + fl_pending s + int (failed_completions cfg turns (flood_start kq w)) = fl_issued s"
    using flood_loop_lost [of cfg turns "flood_start kq w"] unfolding assms(3) lost_def
    by (simp add: flood_start_counts)
  have "0 \<le> fl_pending s" using i by simp
  then have "fl_established s = fc_target cfg \<and> fl_pending s = 0 \<and> int (length (fl_fds s)) = fc_target cfg"
    if "fl_stop s = None \<and> 0 \<le> fc_target cfg \<and> fc_target cfg \<le> fl_established s"
    using i that by (elim conjE, simp only: simp_thms) linarith
  moreover have "int (length (fl_fds s)) \<in> {fl_issued s - 1, fl_issued s}" using i by force
  moreover have "failed_completions cfg turns (flood_start kq w) = 0" if "fl_stop s = None" using i f that by simp
  ultimately show ?thesis using i f by blast
qed

text \<open>Two connects, the first at once and the second completed by the kernel.\<close>

definition flood_demo_cfg :: flood_cfg where
  "flood_demo_cfg = \<lparr>fc_host = ''127.0.0.1'', fc_port = 5000, fc_binds = [''127.0.0.2'', ''127.0.0.3''], fc_target = 2, fc_batch = 8, fc_report = 2\<rparr>"

definition flood_demo_os :: os where
  "flood_demo_os = \<lparr>ans_send = [], ans_recv = [], ans_accept = [],
     ans_int = [Ret 5, Ret 0, Ret 2, Ret 0, Ret 0, Ret 6, Ret 0, Ret 2, Ret 0, Fail EINPROGRESS, Ret 0, Ret 0],
     bucket_order = (\<lambda>_ ks. ks), calls = []\<rparr>"

lemmas flood_eval = flood_turn_def issue_loop.simps may_issue_def issue_one_def connect_one_def
  set_nonblocking_def kq_change_def sys_int_def log_call_def Let_def complete_one_def flood_start_def
  flood_demo_cfg_def flood_demo_os_def

lemma flood_demo_run:
  "fl_stop (flood_loop flood_demo_cfg [(False, Ret [(6, 0)])] (flood_start 3 flood_demo_os)) = None"
  "fl_established (flood_loop flood_demo_cfg [(False, Ret [(6, 0)])] (flood_start 3 flood_demo_os)) = 2"
  by (simp_all add: flood_eval)

lemma flood_demo_ok: "turns_ok flood_demo_cfg [(False, Ret [(6, 0)])] (flood_start 3 flood_demo_os)"
  by (simp add: turn_ok_def watched_def watch_step_def flood_eval)

theorem flood_counts_witness:
  "\<exists>s. flood_loop flood_demo_cfg [(False, Ret [(6, 0)])] (flood_start 3 flood_demo_os) = s \<and> fl_stop s = None
     \<and> fl_established s = 2 \<and> fl_pending s = 0 \<and> length (fl_fds s) = 2"
proof -
  obtain s where s: "flood_loop flood_demo_cfg [(False, Ret [(6, 0)])] (flood_start 3 flood_demo_os) = s" by simp
  have "watched 3 (calls flood_demo_os) = {#}" by (simp add: watched_def flood_demo_os_def)
  note c = flood_counts [OF this flood_demo_ok s]
  have "fl_stop s = None" "fl_established s = 2" using flood_demo_run unfolding s by simp_all
  moreover have "fc_target flood_demo_cfg = 2" by (simp add: flood_demo_cfg_def)
  ultimately have "fl_pending s = 0 \<and> int (length (fl_fds s)) = 2" using c by (metis order_refl)
  with \<open>fl_stop s = None\<close> \<open>fl_established s = 2\<close> show ?thesis by (intro exI [of _ s] conjI s) simp_all
qed

text \<open>
  With source addresses given, the sockets of a run are bound to them in rotation, one bind
  for each connect issued, in the order of the connects, and at most one more when the run has
  stopped on a failure; without source addresses nothing is bound.
\<close>

lemma flood_round_robin:
  "\<exists>m. bound (calls (fl_os (flood_loop cfg turns (flood_start kq w)))) = bound (calls w) @ rotation (fc_binds cfg) m
     \<and> nat (fl_issued (flood_loop cfg turns (flood_start kq w))) \<le> m
     \<and> m \<le> nat (fl_issued (flood_loop cfg turns (flood_start kq w)))
          + (if fl_stop (flood_loop cfg turns (flood_start kq w)) = None then 0 else 1)"
proof -
  have "bind_inv cfg (bound (calls w)) (flood_start kq w)" by (simp add: bind_inv_def flood_start_def rotation_def)
  from flood_loop_bind [OF this, of turns] show ?thesis unfolding bind_inv_def by auto
qed

section \<open>Releasing what is held\<close>

lemma fold_close_calls: "calls (fold (\<lambda>f w. log_call (SysClose f) w) fs w) = calls w @ map SysClose fs"
  by (induction fs arbitrary: w) auto

lemma closed_map [simp]: "closed (map SysClose fs) = fs"
  by (induction fs) auto

text \<open>
  C38: a connect that fails at once makes the generator forget a connection it holds: the socket
  that failed is closed, but it was never in the vector, so \<open>pop_back\<close> removes the descriptor of
  the last connection issued, and the release at the end closes all others and not that one. If
  no connection was issued yet, \<open>pop_back\<close> is called on an empty vector.
\<close>

theorem failed_connect_forgets:
  assumes "fc_binds cfg = []" and "sys_int SysSocket (fl_os s) = (Ret f, w1)"
    and "sys_int (SysConnect f (fc_host cfg) (fc_port cfg)) (snd (set_nonblocking f w1)) = (Fail e, w2)"
    and "e \<noteq> EINPROGRESS"
  shows "fl_fds (issue_one cfg s) = butlast (fl_fds s) \<and> fl_stop (issue_one cfg s) = Some (connect_reason e)
    \<and> closed (calls (fl_os (snd (flood_release (issue_one cfg s)))))
        = closed (calls (fl_os s)) @ f # butlast (fl_fds s) @ [fl_kq s]
    \<and> (fl_fds s = [] \<longrightarrow> fl_undef (issue_one cfg s))"
proof -
  have "calls w1 = calls (fl_os s) @ [SysSocket]" using assms(2) by simp
  moreover have "closed (calls w2) = closed (calls w1)" using assms(3) by simp
  ultimately show ?thesis using assms
    by (simp add: issue_one_def connect_one_def Let_def flood_release_def fold_close_calls)
qed

theorem failed_connect_forgets_witness:
  "\<exists>s. closed (calls (fl_os (snd (flood_release s)))) = [6, 3] \<and> fl_stop s \<noteq> None
     \<and> s = issue_one (flood_demo_cfg\<lparr>fc_binds := []\<rparr>) ((flood_start 3 (flood_demo_os\<lparr>ans_int :=
         [Ret 6, Ret 2, Ret 0, Fail ECONNREFUSED]\<rparr>))\<lparr>fl_fds := [5], fl_issued := 1, fl_established := 1\<rparr>)"
proof -
  let ?cfg = "flood_demo_cfg\<lparr>fc_binds := []\<rparr>"
  let ?s = "(flood_start 3 (flood_demo_os\<lparr>ans_int := [Ret 6, Ret 2, Ret 0, Fail ECONNREFUSED]\<rparr>))
    \<lparr>fl_fds := [5], fl_issued := 1, fl_established := 1\<rparr>"
  obtain w1 where 1: "sys_int SysSocket (fl_os ?s) = (Ret 6, w1)" by (simp add: flood_eval)
  obtain w2 where 2: "sys_int (SysConnect 6 (fc_host ?cfg) (fc_port ?cfg)) (snd (set_nonblocking 6 w1)) = (Fail ECONNREFUSED, w2)"
    using 1 by (auto simp: flood_eval)
  from failed_connect_forgets [OF _ 1 2] have
    "closed (calls (fl_os (snd (flood_release (issue_one ?cfg ?s))))) = [6, 3]" "fl_stop (issue_one ?cfg ?s) \<noteq> None"
    by (simp_all add: flood_start_def flood_demo_os_def)
  then show ?thesis by blast
qed

section \<open>Runs that reach the target, and runs that cannot\<close>

text \<open>The answers to one connect that succeeds at once: the socket, its flags, and two successes.\<close>

definition connects :: "(fd \<times> int) list \<Rightarrow> int sysret list" where
  "connects qs = concat (map (\<lambda>(f, fl). [Ret f, Ret fl, Ret 0, Ret 0]) qs)"

lemma issue_loop_connects:
  assumes "fc_binds cfg = []" and "fl_pending s = 0" and "0 < fc_batch cfg" and "fl_stop s = None"
    and "ans_int (fl_os s) = connects qs @ rest" and "fl_issued s + int (length qs) = fc_target cfg"
  shows "\<exists>w out. closed (calls w) = closed (calls (fl_os s)) \<and> issue_loop cfg s = s\<lparr>fl_os := w, fl_fds := fl_fds s @ map fst qs,
    fl_issued := fc_target cfg, fl_established := fl_established s + int (length qs), fl_out := out\<rparr>"
  using assms
proof (induction qs arbitrary: s)
  case Nil
  then have "issue_loop cfg s = s" by (subst issue_loop.simps) (simp add: may_issue_def)
  with Nil show ?case by (intro exI [of _ "fl_os s"] exI [of _ "fl_out s"]) simp
next
  case (Cons q qs)
  obtain f fl where q: "q = (f, fl)" by (metis prod.exhaust)
  define w where "w = fl_os s\<lparr>ans_int := connects qs @ rest, calls := calls (fl_os s) @
    [SysSocket, SysFcntlGet f, SysFcntlSet f (fl OR O_NONBLOCK), SysConnect f (fc_host cfg) (fc_port cfg)]\<rparr>"
  obtain out where out: "progress cfg (s\<lparr>fl_os := w, fl_fds := fl_fds s @ [f], fl_issued := fl_issued s + 1, fl_established := fl_established s + 1\<rparr>)
    = s\<lparr>fl_os := w, fl_fds := fl_fds s @ [f], fl_issued := fl_issued s + 1, fl_established := fl_established s + 1, fl_out := out\<rparr>"
    (is "_ = ?s") using progress_eq by blast
  have "issue_one cfg s = ?s"
    using Cons.prems q out by (simp add: issue_one_def connect_one_def set_nonblocking_def sys_int_def log_call_def connects_def w_def)
  moreover have "may_issue cfg s" using Cons.prems by (simp add: may_issue_def)
  ultimately have "issue_loop cfg s = issue_loop cfg ?s" by (subst issue_loop.simps) simp
  moreover have "\<exists>w' out'. closed (calls w') = closed (calls (fl_os ?s)) \<and> issue_loop cfg ?s = ?s\<lparr>fl_os := w',
      fl_fds := fl_fds ?s @ map fst qs, fl_issued := fc_target cfg, fl_established := fl_established ?s + int (length qs), fl_out := out'\<rparr>"
    using Cons.prems by (intro Cons.IH) (simp_all add: w_def)
  ultimately show ?case using q by (auto simp: w_def algebra_simps)
qed

text \<open>
  C30: a run without source addresses and with a positive batch size, on a host where every
  connect succeeds at once, reaches its target in one turn, since nothing is ever pending,
  stays there, and on release closes every descriptor it opened, in order, then the kqueue, and
  exits with 0.
\<close>

theorem flood_reaches_target:
  assumes "fc_binds cfg = []" and "0 < fc_batch cfg" and "ans_int w = connects qs @ rest"
    and "fc_target cfg = int (length qs)" and "qs \<noteq> []"
  shows "\<exists>s. flood_loop cfg ((False, a) # turns) (flood_start kq w) = s \<and> fl_established s = fc_target cfg
    \<and> fl_pending s = 0 \<and> fl_fds s = map fst qs \<and> fst (flood_release s) = 0
    \<and> closed (calls (fl_os (snd (flood_release s)))) = closed (calls w) @ map fst qs @ [kq]"
proof -
  obtain w' out where w': "closed (calls w') = closed (calls w)"
    "issue_loop cfg (flood_start kq w) = (flood_start kq w)\<lparr>fl_os := w', fl_fds := map fst qs,
       fl_issued := fc_target cfg, fl_established := int (length qs), fl_out := out\<rparr>" (is "_ = ?s")
    using issue_loop_connects [of cfg "flood_start kq w" qs rest] assms by (auto simp: flood_start_def)
  have "flood_turn cfg a (flood_start kq w) = (True, ?s)"
    unfolding flood_turn_def w'(2) Let_def by (simp add: flood_start_def)
  moreover have "flood_loop cfg turns ?s = ?s" using assms(4) by (cases turns) (auto simp: flood_start_def)
  ultimately have "flood_loop cfg ((False, a) # turns) (flood_start kq w) = ?s"
    using assms(4,5) by (simp add: flood_start_def)
  with w'(1) assms(4) show ?thesis by (auto simp: flood_release_def fold_close_calls flood_start_def)
qed

theorem flood_reaches_target_witness:
  "\<exists>s. flood_loop (flood_demo_cfg\<lparr>fc_binds := []\<rparr>) [(False, Ret [])]
       (flood_start 3 (flood_demo_os\<lparr>ans_int := connects [(5, 2), (6, 2)]\<rparr>)) = s
     \<and> fl_fds s = [5, 6] \<and> closed (calls (fl_os (snd (flood_release s)))) = [5, 6, 3]"
  using flood_reaches_target [of "flood_demo_cfg\<lparr>fc_binds := []\<rparr>" "flood_demo_os\<lparr>ans_int := connects [(5, 2), (6, 2)]\<rparr>"
      "[(5, 2), (6, 2)]" "[]" "Ret []" "[]" 3]
  by (simp add: flood_demo_cfg_def flood_demo_os_def del: flood_loop.simps)

text \<open>
  C40: a batch size that is not positive makes the generator spin: no turn of the outer loop issues
  a connect or waits for one, so after any number of turns the state is the initial one and,
  for a positive target, the condition of the loop still holds.
\<close>

theorem flood_no_batch:
  assumes "fc_batch cfg \<le> 0"
  shows "flood_loop cfg turns (flood_start kq w) = flood_start kq w
    \<and> flood_turn cfg a (flood_start kq w) = (True, flood_start kq w)"
proof -
  have "issue_loop cfg (flood_start kq w) = flood_start kq w"
    using assms by (subst issue_loop.simps) (simp add: may_issue_def flood_start_def)
  then have t: "flood_turn cfg a (flood_start kq w) = (True, flood_start kq w)" for a
    by (simp add: flood_turn_def flood_start_def)
  then have "flood_loop cfg turns (flood_start kq w) = flood_start kq w"
    by (induction turns) auto
  with t show ?thesis by simp
qed

theorem flood_no_batch_witness:
  "flood_loop (flood_demo_cfg\<lparr>fc_batch := 0\<rparr>) [(False, Ret []), (False, Ret [])] (flood_start 3 flood_demo_os)
     = flood_start 3 flood_demo_os"
  using flood_no_batch [of "flood_demo_cfg\<lparr>fc_batch := 0\<rparr>"] by simp

text \<open>Whether the outer loop has been left within the given turns.\<close>

fun flood_left :: "flood_cfg \<Rightarrow> (bool \<times> (fd \<times> int) list sysret) list \<Rightarrow> Flood \<Rightarrow> bool" where
  "flood_left cfg [] s \<longleftrightarrow> False"
| "flood_left cfg ((g_stop, a) # as) s \<longleftrightarrow>
     (if \<not> g_stop \<and> fl_established s < fc_target cfg \<and> fl_stop s = None
      then (case flood_turn cfg a s of (True, s1) \<Rightarrow> flood_left cfg as s1 | (False, s1) \<Rightarrow> True)
      else True)"

lemma flood_turn_break:
  "flood_turn cfg a s = (False, s1) \<Longrightarrow> \<exists>e. a = Fail e \<and> e \<noteq> EINTR \<and> fl_pending (issue_loop cfg s) \<noteq> 0 \<and> s1 = issue_loop cfg s"
  by (auto simp: flood_turn_def Let_def split: sysret.splits if_splits)

text \<open>
  The two ways to leave the loop short of the target with no reason recorded: the signal, at
  the test of the loop, and a wait that fails.
\<close>

definition broke_off :: "flood_cfg \<Rightarrow> (bool \<times> (fd \<times> int) list sysret) list \<Rightarrow> Flood \<Rightarrow> Flood \<Rightarrow> bool" where
  "broke_off cfg turns s0 s \<longleftrightarrow>
     (\<exists>ts a rest. turns = ts @ (True, a) # rest \<and> flood_loop cfg ts s0 = s) \<or>
     (\<exists>ts e rest. turns = ts @ (False, Fail e) # rest \<and> e \<noteq> EINTR
        \<and> fl_pending (issue_loop cfg (flood_loop cfg ts s0)) \<noteq> 0 \<and> issue_loop cfg (flood_loop cfg ts s0) = s)"

lemma broke_off_Cons:
  assumes "broke_off cfg turns s1 s" and "flood_turn cfg a s0 = (True, s1)"
    and "fl_established s0 < fc_target cfg" and "fl_stop s0 = None"
  shows "broke_off cfg ((False, a) # turns) s0 s"
proof -
  have "flood_loop cfg ((False, a) # ts) s0 = flood_loop cfg ts s1" for ts using assms(2-) by simp
  with assms(1) show ?thesis unfolding broke_off_def by (metis append_Cons)
qed

lemma left_short:
  assumes "flood_left cfg turns s0" and "fl_stop (flood_loop cfg turns s0) = None"
    and "fl_established (flood_loop cfg turns s0) < fc_target cfg"
  shows "broke_off cfg turns s0 (flood_loop cfg turns s0)"
  using assms
proof (induction turns arbitrary: s0)
  case Nil
  then show ?case by simp
next
  case (Cons t ts)
  obtain g a where t: "t = (g, a)" by (metis prod.exhaust)
  show ?case
  proof (cases "\<not> g \<and> fl_established s0 < fc_target cfg \<and> fl_stop s0 = None")
    case False
    then have "flood_loop cfg (t # ts) s0 = s0" by (auto simp: t)
    with False Cons.prems have "g" "flood_loop cfg [] s0 = flood_loop cfg (t # ts) s0" by simp_all
    with t show ?thesis unfolding broke_off_def by (metis append_Nil)
  next
    case go: True
    obtain b s1 where f: "flood_turn cfg a s0 = (b, s1)" by (metis prod.exhaust)
    show ?thesis
    proof (cases b)
      case True
      with go f t Cons.prems have "flood_loop cfg (t # ts) s0 = flood_loop cfg ts s1" "flood_left cfg ts s1" by simp_all
      with Cons.IH [of s1] Cons.prems go f True t show ?thesis by (auto intro: broke_off_Cons)
    next
      case False
      with go f t have "flood_loop cfg (t # ts) s0 = s1" by simp
      moreover obtain e where "a = Fail e" "e \<noteq> EINTR" "fl_pending (issue_loop cfg s0) \<noteq> 0" "s1 = issue_loop cfg s0"
        using flood_turn_break [of cfg a s0 s1] f False by auto
      ultimately show ?thesis using go t unfolding broke_off_def by (metis append_Nil flood_loop.simps(1))
    qed
  qed
qed

text \<open>
  C39: the verdict does not look at the count: whenever the outer loop is left with no failure
  recorded and fewer connections established than requested, the summary prints both numbers
  and then that the target was reached, and the exit code is 0. The loop is left so only when
  the signal arrived before the target was reached, with the state as it was before the
  signal, or when waiting for completions failed while connects were pending; and the signal
  always ends a run in this way.
\<close>

theorem interrupted_says_reached:
  assumes "flood_left cfg turns s0" and "flood_loop cfg turns s0 = s"
    and "fl_stop s = None" and "fl_established s < fc_target cfg"
  shows "(\<exists>s'. flood_release (flood_summary cfg s) = (0, s') \<and> fl_out s' = fl_out s @
        [Summary (fc_target cfg) (fl_established s) (length (fl_fds s)), TargetReached, Closing (length (fl_fds s))])
    \<and> broke_off cfg turns s0 s
    \<and> (flood_loop cfg ts s0 = s \<longrightarrow> flood_left cfg (ts @ (True, a) # rest) s0 \<and> flood_loop cfg (ts @ (True, a) # rest) s0 = s)"
proof -
  have "flood_left cfg (ts @ (True, a) # rest) s0 \<and> flood_loop cfg (ts @ (True, a) # rest) s0 = flood_loop cfg ts s0"
    by (induction ts arbitrary: s0) (auto split: prod.split bool.split)
  moreover have "broke_off cfg turns s0 s" using left_short assms by blast
  ultimately show ?thesis using assms(3) by (auto simp: flood_release_def flood_summary_def)
qed

text \<open>One connection is established and the other still pending when the wait fails.\<close>

theorem interrupted_says_reached_witness:
  "\<exists>s s'. flood_loop flood_demo_cfg [(False, Fail (EOther 9))] (flood_start 3 flood_demo_os) = s
     \<and> flood_release (flood_summary flood_demo_cfg s) = (0, s')
     \<and> fl_out s' = [Summary 2 1 2, TargetReached, Closing 2]"
proof -
  let ?t = "[(False, Fail (EOther 9))]" let ?s0 = "flood_start 3 flood_demo_os"
  obtain s where s: "flood_loop flood_demo_cfg ?t ?s0 = s" by simp
  have f: "fl_stop s = None" "fl_established s = 1" "fl_fds s = [5, 6]" "fl_out s = []" "fc_target flood_demo_cfg = 2"
    unfolding s [symmetric] by (simp_all add: flood_eval progress_def)
  have "flood_left flood_demo_cfg ?t ?s0" by (simp add: flood_eval)
  from interrupted_says_reached [OF this s f(1), THEN conjunct1] f
  obtain s' where "flood_release (flood_summary flood_demo_cfg s) = (0, s')"
    "fl_out s' = [Summary 2 1 2, TargetReached, Closing 2]" by (auto simp: numeral_2_eq_2)
  with s show ?thesis by blast
qed

section \<open>The list of source addresses\<close>

lemma src_loop_piece:
  "CHR '','' \<notin> set x \<Longrightarrow> src_loop (x @ s) cur srcs = src_loop s (cur @ x) srcs"
  by (induction x arbitrary: cur) auto

text \<open>
  The source addresses given as a comma-separated list come back as they were written and in
  that order, after those of earlier \<open>--src\<close> options; the empty pieces between commas are skipped.
\<close>

lemma src_list_round_trip:
  assumes "\<forall>x \<in> set (xs @ [y]). CHR '','' \<notin> set x"
  shows "src_loop (concat (map (\<lambda>x. x @ '','') xs) @ y) [] srcs = srcs @ filter (\<lambda>x. x \<noteq> []) (xs @ [y])"
  using assms
proof (induction xs arbitrary: srcs)
  case Nil
  then show ?case using src_loop_piece [of y "[]" "[]" srcs] by simp
next
  case (Cons x xs)
  then show ?case using src_loop_piece [of x "'','' @ concat (map (\<lambda>x. x @ '','') xs) @ y" "[]" srcs] by auto
qed

end
