(* ===== verification/Threaded.thy ===== *)
theory Threaded
  imports Event_Loop "HOL-Library.Multiset"
begin

text \<open>
  \<open>src/tools/threaded_server.cpp\<close>: one accepting thread, one detached thread for each
  connection, and the counter \<open>g_live\<close>, which both sides change atomically. A state holds the
  program counters of the threads; a step is one shared action of one thread, so that every
  interleaving is a sequence of steps. What \<open>accept\<close>, \<open>recv\<close> and \<open>pthread_create\<close> answer is
  an argument of the step.
\<close>

section \<open>Threads\<close>

datatype conn_pc = InRecv | AtClose | AtDecr | Ended

record conn_state =
  ct_fd :: fd
  ct_pc :: conn_pc

text \<open>
  One action of \<open>conn_thread\<close>, given what \<open>recv\<close> would answer: a positive count and \<open>EINTR\<close>
  stay in the loop, the end of the stream and any other error leave it.
\<close>

definition conn_step :: "nat sysret \<Rightarrow> conn_state \<Rightarrow> conn_state" where
  "conn_step a t =
     (case ct_pc t of
        InRecv \<Rightarrow>
          (case a of
             Ret n \<Rightarrow> if 0 < n then t else t\<lparr>ct_pc := AtClose\<rparr>
           | Fail e \<Rightarrow> if e = EINTR then t else t\<lparr>ct_pc := AtClose\<rparr>)
      | AtClose \<Rightarrow> t\<lparr>ct_pc := AtDecr\<rparr>
      | AtDecr \<Rightarrow> t\<lparr>ct_pc := Ended\<rparr>
      | Ended \<Rightarrow> t)"

text \<open>What the accepting thread prints, each with a count of live threads, as \<open>unsigned\<close>.\<close>

datatype report = AcceptFailed u32 | CreateFailed u32 | LiveThreads u32 | StoppedWith u32

primrec shown :: "report \<Rightarrow> u32" where
  "shown (AcceptFailed n) = n"
| "shown (CreateFailed n) = n"
| "shown (LiveThreads n) = n"
| "shown (StoppedWith n) = n"

text \<open>
  The accepting thread: at \<open>accept\<close>; after its failure, about to read the counter; at
  \<open>pthread_create\<close>; after its failure, about to read the counter, and about to close the
  descriptor; at the increment; about to read the counter for the last time; in \<open>pause\<close>. With
  \<open>AtPrint r k\<close> it has a count in hand and is about to print it and to go on at \<open>k\<close>: other threads
  run between the reading and the printing.
\<close>

datatype main_pc = AtAccept | AtAcceptErr | AtCreate fd | AtCreateErr fd | AtCloseErr fd | AtIncr | AtStop | Stopped
  | AtPrint report main_pc

text \<open>
  \<open>ts_accepted\<close> and \<open>ts_closed\<close> are the descriptors that \<open>accept\<close> answered and that were passed
  to \<open>close\<close>, in order; \<open>ts_out\<close> is what was printed.
\<close>

record tsrv =
  ts_pc :: main_pc
  ts_live :: int
  ts_threads :: "conn_state list"
  ts_accepted :: "fd list"
  ts_closed :: "fd list"
  ts_out :: "report list"

text \<open>One action of the accepting loop: the answer of \<open>accept\<close>, or whether the thread was created.\<close>

definition accept_step :: "fd sysret \<Rightarrow> tsrv \<Rightarrow> tsrv" where
  "accept_step a s =
     (case a of
        Ret f \<Rightarrow> s\<lparr>ts_pc := AtCreate f, ts_accepted := ts_accepted s @ [f]\<rparr>
      | Fail e \<Rightarrow> if e = EINTR \<or> e = ECONNABORTED then s else s\<lparr>ts_pc := AtAcceptErr\<rparr>)"

definition create_step :: "int \<Rightarrow> fd \<Rightarrow> tsrv \<Rightarrow> tsrv" where
  "create_step rc f s =
     (if rc \<noteq> 0 then s\<lparr>ts_pc := AtCreateErr f\<rparr>
      else s\<lparr>ts_threads := ts_threads s @ [\<lparr>ct_fd = f, ct_pc = InRecv\<rparr>], ts_pc := AtIncr\<rparr>)"

text \<open>
  The increment is atomic and returns the new value, which is printed when it is a multiple
  of 250.
\<close>

definition incr_step :: "tsrv \<Rightarrow> tsrv" where
  "incr_step s =
     (let n = word_of_int (ts_live s + 1) :: u32 in
      s\<lparr>ts_live := ts_live s + 1, ts_pc := (if n mod 250 = 0 then AtPrint (LiveThreads n) AtAccept else AtAccept)\<rparr>)"

text \<open>The other reports: reading the counter, and printing what was read.\<close>

definition read_live :: "(u32 \<Rightarrow> report) \<Rightarrow> main_pc \<Rightarrow> tsrv \<Rightarrow> tsrv" where
  "read_live r k s = s\<lparr>ts_pc := AtPrint (r (word_of_int (ts_live s))) k\<rparr>"

definition print_step :: "report \<Rightarrow> main_pc \<Rightarrow> tsrv \<Rightarrow> tsrv" where
  "print_step r k s = s\<lparr>ts_out := ts_out s @ [r], ts_pc := k\<rparr>"

definition close_err_step :: "fd \<Rightarrow> tsrv \<Rightarrow> tsrv" where
  "close_err_step f s = s\<lparr>ts_closed := ts_closed s @ [f], ts_pc := AtStop\<rparr>"

text \<open>One action of the thread at position \<open>i\<close>, with its effect on what is shared.\<close>

definition thread_step :: "nat \<Rightarrow> nat sysret \<Rightarrow> tsrv \<Rightarrow> tsrv" where
  "thread_step i a s =
     (let t = ts_threads s ! i in
      s\<lparr>ts_threads := (ts_threads s)[i := conn_step a t],
        ts_closed := (if ct_pc t = AtClose then ts_closed s @ [ct_fd t] else ts_closed s),
        ts_live := (if ct_pc t = AtDecr then ts_live s - 1 else ts_live s)\<rparr>)"

text \<open>
  The arguments and the set-up before the loop; None is \<open>return 1\<close>. The results of \<open>socket\<close>,
  \<open>setsockopt\<close> and \<open>inet_pton\<close> are not checked by the code.
\<close>

record targs =
  ta_ip :: string
  ta_port :: "16 word"
  ta_stack :: "64 word"

definition threaded_args :: "string list \<Rightarrow> targs" where
  "threaded_args argv =
     \<lparr>ta_ip = (if 1 < length argv then argv ! 1 else ''127.0.0.1''),
      ta_port = (if 2 < length argv then word_of_int (atoi (argv ! 2)) else 5001),
      ta_stack = (if 3 < length argv then word_of_int (atol (argv ! 3)) * 1024 else 0)\<rparr>"

definition threaded_setup :: "string list \<Rightarrow> os \<Rightarrow> fd option \<times> os" where
  "threaded_setup argv w =
     (case sys_int SysSocket w of (r, w1) \<Rightarrow>
        (let lfd = (case r of Ret f \<Rightarrow> f | Fail _ \<Rightarrow> -1);
             a = threaded_args argv;
             w2 = snd (sys_int (SysSetReuseAddr lfd) w1);
             w3 = snd (sys_int (SysInetPton (ta_ip a)) w2)
         in case sys_int (SysBind lfd (ta_ip a) (ta_port a)) w3 of
              (Fail _, w4) \<Rightarrow> (None, w4)
            | (Ret _, w4) \<Rightarrow>
                (case sys_int (SysListen lfd) w4 of
                   (Fail _, w5) \<Rightarrow> (None, w5)
                 | (Ret _, w5) \<Rightarrow> (Some lfd, w5))))"

definition tsrv_init :: tsrv where
  "tsrv_init = \<lparr>ts_pc = AtAccept, ts_live = 0, ts_threads = [], ts_accepted = [], ts_closed = [], ts_out = []\<rparr>"

inductive t_step :: "tsrv \<Rightarrow> tsrv \<Rightarrow> bool" where
  accept: "ts_pc s = AtAccept \<Longrightarrow> t_step s (accept_step a s)"
| create: "ts_pc s = AtCreate f \<Longrightarrow> t_step s (create_step rc f s)"
| incr: "ts_pc s = AtIncr \<Longrightarrow> t_step s (incr_step s)"
| accept_err: "ts_pc s = AtAcceptErr \<Longrightarrow> t_step s (read_live AcceptFailed AtStop s)"
| create_err: "ts_pc s = AtCreateErr f \<Longrightarrow> t_step s (read_live CreateFailed (AtCloseErr f) s)"
| close_err: "ts_pc s = AtCloseErr f \<Longrightarrow> t_step s (close_err_step f s)"
| stop: "ts_pc s = AtStop \<Longrightarrow> t_step s (read_live StoppedWith Stopped s)"
| print: "ts_pc s = AtPrint r k \<Longrightarrow> t_step s (print_step r k s)"
| thread: "i < length (ts_threads s) \<Longrightarrow> t_step s (thread_step i a s)"

lemmas main_steps = accept_step_def create_step_def incr_step_def read_live_def print_step_def close_err_step_def Let_def

section \<open>The counter\<close>

definition running :: "conn_state \<Rightarrow> bool" where
  "running t \<longleftrightarrow> ct_pc t \<noteq> Ended"

definition live_threads :: "tsrv \<Rightarrow> nat" where
  "live_threads s = length (filter running (ts_threads s))"

definition count_ok :: "tsrv \<Rightarrow> bool" where
  "count_ok s \<longleftrightarrow> ts_live s + (if ts_pc s = AtIncr then 1 else 0) = int (live_threads s)"

lemma filter_update:
  "i < length xs \<Longrightarrow> int (length (filter P (xs[i := x]))) =
     int (length (filter P xs)) - (if P (xs ! i) then 1 else 0) + (if P x then 1 else 0)"
proof (induction xs arbitrary: i)
  case Nil
  then show ?case by simp
next
  case (Cons y ys)
  show ?case
  proof (cases i)
    case 0
    then show ?thesis by simp
  next
    case (Suc j)
    with Cons.IH [of j] Cons.prems show ?thesis by auto
  qed
qed

lemma conn_step_running: "running (conn_step a t) \<longleftrightarrow> running t \<and> ct_pc t \<noteq> AtDecr"
  by (cases "ct_pc t") (auto simp: conn_step_def running_def split: sysret.splits)

lemma thread_step_live:
  assumes "i < length (ts_threads s)"
  shows "int (live_threads (thread_step i a s)) = int (live_threads s) - (if ct_pc (ts_threads s ! i) = AtDecr then 1 else 0)"
proof -
  have "ct_pc (ts_threads s ! i) = AtDecr \<Longrightarrow> running (ts_threads s ! i)" by (simp add: running_def)
  then show ?thesis
    unfolding live_threads_def thread_step_def Let_def
    by (simp add: filter_update [OF assms] conn_step_running)
qed

lemma t_step_count:
  assumes "t_step s s'" and "count_ok s" and "\<And>r k. ts_pc s = AtPrint r k \<Longrightarrow> k \<noteq> AtIncr"
  shows "count_ok s'"
  using assms
proof (induction rule: t_step.cases)
  case (thread i s a)
  then show ?case
    using thread_step_live [of i s a] by (auto simp: count_ok_def thread_step_def Let_def)
qed (auto simp: count_ok_def main_steps live_threads_def running_def split: sysret.splits)

text \<open>
  After a report the accepting thread goes on at one of four points. Between reading a count
  and printing it no thread is created, so the count is at least what is left.
\<close>

definition print_ok :: "tsrv \<Rightarrow> bool" where
  "print_ok s \<longleftrightarrow> (\<forall>r k. ts_pc s = AtPrint r k \<longrightarrow> (k \<in> {AtAccept, AtStop, Stopped} \<or> (\<exists>f. k = AtCloseErr f))
     \<and> (length (ts_threads s) < 2 ^ 31 \<longrightarrow> live_threads s \<le> unat (shown r)))"

lemma live_bound: "live_threads s \<le> length (ts_threads s)"
  by (simp add: live_threads_def)

text \<open>Where the counter is read it is exact.\<close>

lemma ts_live_exact:
  assumes "ts_live s = int (live_threads s)" and "length (ts_threads s) < 2 ^ 31"
  shows "unat (word_of_int (ts_live s) :: u32) = live_threads s"
proof -
  have "live_threads s < 2 ^ 32" using assms(2) live_bound [of s] by simp
  then show ?thesis by (simp add: assms(1) unat_of_nat)
qed

lemma read_live_ok:
  assumes "count_ok s" and "ts_pc s \<noteq> AtIncr" and "\<And>n. shown (r n) = n" and "length (ts_threads s) < 2 ^ 31"
    and "ts_pc (read_live r k s) = AtPrint r' k'"
  shows "unat (shown r') = live_threads (read_live r k s)"
proof -
  have "unat (word_of_int (ts_live s) :: u32) = live_threads s" using assms(1,2,4) by (intro ts_live_exact) (simp_all add: count_ok_def)
  then show ?thesis using assms(3,5) by (auto simp: read_live_def live_threads_def)
qed

lemma incr_ok:
  assumes "count_ok s" and "ts_pc s = AtIncr" and "length (ts_threads s) < 2 ^ 31" and "ts_pc (incr_step s) = AtPrint r k"
  shows "unat (shown r) = live_threads (incr_step s)"
proof -
  have c: "ts_live (incr_step s) = ts_live s + 1" "live_threads (incr_step s) = live_threads s"
    "ts_threads (incr_step s) = ts_threads s" by (simp_all add: main_steps live_threads_def)
  have "unat (word_of_int (ts_live (incr_step s)) :: u32) = live_threads (incr_step s)"
    using assms(1,2,3) c by (intro ts_live_exact) (simp_all add: count_ok_def)
  with assms(4) c(1) show ?thesis by (auto simp: incr_step_def Let_def split: if_splits)
qed

text \<open>What one step reads and prints.\<close>

lemma t_step_reads:
  assumes "t_step s s'" and "count_ok s" and "print_ok s" and "length (ts_threads s') < 2 ^ 31"
    and "ts_pc s' = AtPrint r k" and "ts_pc s' \<noteq> ts_pc s"
  shows "unat (shown r) = live_threads s'"
  using assms
proof (induction rule: t_step.cases)
  case (incr s)
  then show ?case using incr_ok [of s r k] by (simp add: main_steps)
next
  case (accept_err s)
  then show ?case using read_live_ok [of s AcceptFailed AtStop r k] by (simp add: read_live_def)
next
  case (create_err s f)
  then show ?case using read_live_ok [of s CreateFailed "AtCloseErr f" r k] by (simp add: read_live_def)
next
  case (stop s)
  then show ?case using read_live_ok [of s StoppedWith Stopped r k] by (simp add: read_live_def)
next
  case (print s r' k')
  then show ?case by (auto simp: print_step_def print_ok_def)
qed (auto simp: accept_step_def create_step_def close_err_step_def thread_step_def Let_def split: sysret.splits if_splits)

lemma t_step_prints:
  "t_step s s' \<Longrightarrow> ts_out s' = ts_out s \<or> (\<exists>r k. ts_pc s = AtPrint r k \<and> ts_out s' = ts_out s @ [r])"
  by (induction rule: t_step.cases) (auto simp: main_steps thread_step_def split: sysret.splits)

lemma t_step_threads: "t_step s s' \<Longrightarrow> length (ts_threads s) \<le> length (ts_threads s')"
  by (induction rule: t_step.cases) (auto simp: main_steps thread_step_def split: sysret.splits)

lemma t_step_print_ok:
  assumes "t_step s s'" and "count_ok s" and "print_ok s"
  shows "print_ok s'"
proof (cases "ts_pc s' = ts_pc s")
  case True
  have le: "live_threads s' \<le> live_threads s" if "ts_pc s' = AtPrint r k" for r k
    using assms(1) True that
  proof (induction rule: t_step.cases)
    case (thread i s a)
    then show ?case using thread_step_live [of i s a] by (auto split: if_splits)
  qed (auto simp: main_steps live_threads_def split: sysret.splits)
  show ?thesis
    unfolding print_ok_def
  proof (intro allI impI)
    fix r k
    assume p: "ts_pc s' = AtPrint r k"
    then have "ts_pc s = AtPrint r k" using True by simp
    with assms(3) have "k \<in> {AtAccept, AtStop, Stopped} \<or> (\<exists>f. k = AtCloseErr f)"
      "length (ts_threads s) < 2 ^ 31 \<longrightarrow> live_threads s \<le> unat (shown r)" by (simp_all add: print_ok_def)
    with le [OF p] t_step_threads [OF assms(1)]
    show "(k \<in> {AtAccept, AtStop, Stopped} \<or> (\<exists>f. k = AtCloseErr f))
      \<and> (length (ts_threads s') < 2 ^ 31 \<longrightarrow> live_threads s' \<le> unat (shown r))" by auto
  qed
next
  case False
  have "k \<in> {AtAccept, AtStop, Stopped} \<or> (\<exists>f. k = AtCloseErr f)" if "ts_pc s' = AtPrint r k" for r k
    using assms(1,3) False that
    by (induction rule: t_step.cases)
      (auto simp: main_steps thread_step_def print_ok_def split: sysret.splits if_splits)
  with t_step_reads [OF assms(1-3) _ _ False] show ?thesis by (auto simp: print_ok_def)
qed

lemma t_reach_count: "t_step\<^sup>*\<^sup>* tsrv_init s \<Longrightarrow> count_ok s \<and> print_ok s"
proof (induction rule: rtranclp_induct)
  case base
  show ?case by (simp add: count_ok_def print_ok_def tsrv_init_def live_threads_def)
next
  case (step y z)
  then have c: "count_ok y" and p: "print_ok y" by simp_all
  have "k \<noteq> AtIncr" if "ts_pc y = AtPrint r k" for r k using p that by (auto simp: print_ok_def)
  from t_step_count [OF step(2) c this] t_step_print_ok [OF step(2) c p] show ?case ..
qed

section \<open>The descriptors\<close>

text \<open>The connection threads that still have their descriptor, and the descriptor in the hands of the accepting thread.\<close>

definition holds :: "conn_state \<Rightarrow> bool" where
  "holds t \<longleftrightarrow> ct_pc t \<in> {InRecv, AtClose}"

fun main_fd :: "main_pc \<Rightarrow> fd list" where
  "main_fd (AtCreate f) = [f]"
| "main_fd (AtCreateErr f) = [f]"
| "main_fd (AtCloseErr f) = [f]"
| "main_fd (AtPrint r k) = main_fd k"
| "main_fd _ = []"

definition held :: "tsrv \<Rightarrow> fd multiset" where
  "held s = image_mset ct_fd (filter_mset holds (mset (ts_threads s))) + mset (main_fd (ts_pc s))"

lemma filter_mset_update:
  assumes "i < length xs"
  shows "image_mset f (filter_mset P (mset (xs[i := y]))) + (if P (xs ! i) then {#f (xs ! i)#} else {#})
    = image_mset f (filter_mset P (mset xs)) + (if P y then {#f y#} else {#})"
proof -
  define M where "M = mset xs - {#xs ! i#}"
  have "mset xs = add_mset (xs ! i) M" using assms by (simp add: M_def)
  moreover have "mset (xs[i := y]) = add_mset y M" unfolding M_def by (rule mset_update [OF assms])
  ultimately show ?thesis by simp
qed

lemma thread_step_held:
  assumes "i < length (ts_threads s)"
  shows "mset (ts_closed (thread_step i a s)) + held (thread_step i a s) = mset (ts_closed s) + held s"
proof -
  let ?t = "ts_threads s ! i"
  have "holds (conn_step a ?t) \<longleftrightarrow> holds ?t \<and> ct_pc ?t \<noteq> AtClose" "ct_pc ?t = AtClose \<Longrightarrow> holds ?t"
    by (cases "ct_pc ?t"; auto simp: conn_step_def holds_def split: sysret.splits)+
  moreover have "ct_fd (conn_step a ?t) = ct_fd ?t"
    by (cases "ct_pc ?t") (auto simp: conn_step_def split: sysret.splits)
  ultimately show ?thesis
    using filter_mset_update [OF assms, of ct_fd holds "conn_step a ?t"]
    by (auto simp: held_def thread_step_def Let_def split: if_splits)
qed

lemma t_step_held:
  assumes "t_step s s'" and "mset (ts_accepted s) = mset (ts_closed s) + held s"
  shows "mset (ts_accepted s') = mset (ts_closed s') + held s'"
  using assms
proof (induction rule: t_step.cases)
  case (thread i s a)
  moreover have "ts_accepted (thread_step i a s) = ts_accepted s" by (simp add: thread_step_def Let_def)
  ultimately show ?case by (simp add: thread_step_held)
qed (auto simp: main_steps held_def holds_def split: sysret.splits)

lemma t_reach_held: "t_step\<^sup>*\<^sup>* tsrv_init s \<Longrightarrow> mset (ts_accepted s) = mset (ts_closed s) + held s"
proof (induction rule: rtranclp_induct)
  case base
  show ?case by (simp add: held_def tsrv_init_def)
next
  case (step y z)
  then show ?case by (blast intro: t_step_held)
qed

section \<open>Claims\<close>

text \<open>
  C31: under every interleaving of the accepting loop and the connection threads the counter equals
  the number of threads that have not finished, less one exactly while the accepting thread
  stands between creating a thread and counting it, where it may be -1 when a peer has closed
  already. The accepting thread reads the counter only elsewhere: each count it is going to
  print (on a failure of \<open>accept\<close> or \<open>pthread_create\<close>, every 250 connections and at the end) is the
  number of unfinished threads at the moment of the reading, it prints exactly what it has read,
  and when it prints at most that many threads are unfinished. This is for runs that create
  fewer than \<open>2^31\<close> threads, in which the counter fits its type.
\<close>

theorem live_counter_exact:
  assumes "t_step\<^sup>*\<^sup>* tsrv_init s" and "t_step s s'" and "length (ts_threads s') < 2 ^ 31"
  shows "ts_live s = int (live_threads s) - (if ts_pc s = AtIncr then 1 else 0) \<and> -1 \<le> ts_live s \<and> ts_live s < 2 ^ 31
    \<and> (ts_pc s \<noteq> AtIncr \<longrightarrow> 0 \<le> ts_live s)
    \<and> (\<forall>r k. ts_pc s' = AtPrint r k \<and> ts_pc s' \<noteq> ts_pc s \<longrightarrow> unat (shown r) = live_threads s')
    \<and> (ts_out s' = ts_out s
         \<or> (\<exists>r k. ts_pc s = AtPrint r k \<and> ts_out s' = ts_out s @ [r] \<and> live_threads s \<le> unat (shown r)))"
proof -
  have c: "count_ok s" "print_ok s" using t_reach_count [OF assms(1)] by simp_all
  have len: "length (ts_threads s) < 2 ^ 31" using t_step_threads [OF assms(2)] assms(3) by simp
  have "ts_live s = int (live_threads s) - (if ts_pc s = AtIncr then 1 else 0)" using c(1) by (auto simp: count_ok_def)
  moreover from this have "-1 \<le> ts_live s" "ts_live s < 2 ^ 31" "ts_pc s \<noteq> AtIncr \<longrightarrow> 0 \<le> ts_live s"
    using live_bound [of s] len by auto
  moreover have "unat (shown r) = live_threads s'" if "ts_pc s' = AtPrint r k \<and> ts_pc s' \<noteq> ts_pc s" for r k
    using t_step_reads [OF assms(2) c assms(3)] that by blast
  moreover have "live_threads s \<le> unat (shown r)" if "ts_pc s = AtPrint r k" for r k
    using c(2) len that by (auto simp: print_ok_def)
  ultimately show ?thesis using t_step_prints [OF assms(2)] by blast
qed

text \<open>
  A thread that ends before it is counted: its peer has closed already when it is created.
\<close>

definition fast_peer :: tsrv where
  "fast_peer = thread_step 0 (Ret 0) (thread_step 0 (Ret 0) (thread_step 0 (Ret 0)
     (create_step 0 5 (accept_step (Ret 5) tsrv_init))))"

lemma fast_peer_eval:
  "fast_peer = \<lparr>ts_pc = AtIncr, ts_live = -1, ts_threads = [\<lparr>ct_fd = 5, ct_pc = Ended\<rparr>], ts_accepted = [5], ts_closed = [5], ts_out = []\<rparr>"
  by (simp add: fast_peer_def thread_step_def conn_step_def create_step_def accept_step_def tsrv_init_def)

lemma fast_peer_reach: "t_step\<^sup>*\<^sup>* tsrv_init fast_peer"
proof -
  let ?a = "accept_step (Ret 5) tsrv_init" let ?b = "create_step 0 5 ?a"
  let ?c = "thread_step 0 (Ret 0) ?b" let ?d = "thread_step 0 (Ret 0) ?c"
  have len: "length (ts_threads (thread_step i x s)) = length (ts_threads s)" for i x s
    by (simp add: thread_step_def Let_def)
  have 0: "length (ts_threads ?b) = 1" by (simp add: create_step_def accept_step_def tsrv_init_def)
  have "t_step tsrv_init ?a" by (rule t_step.accept) (simp add: tsrv_init_def)
  moreover have "t_step ?a ?b" by (rule t_step.create) (simp add: accept_step_def)
  moreover have "t_step ?b ?c" by (rule t_step.thread) (simp add: 0)
  moreover have "t_step ?c ?d" by (rule t_step.thread) (simp add: len 0)
  moreover have "t_step ?d fast_peer" unfolding fast_peer_def by (rule t_step.thread) (simp add: len 0)
  ultimately show ?thesis by (meson converse_rtranclp_into_rtranclp rtranclp.rtrancl_refl)
qed

text \<open>The accepting thread counts the ended thread, which makes 0, a multiple of 250, and prints it.\<close>

lemma fast_peer_counted:
  "t_step fast_peer (incr_step fast_peer)" "ts_pc (incr_step fast_peer) = AtPrint (LiveThreads 0) AtAccept"
  "t_step\<^sup>*\<^sup>* tsrv_init (incr_step fast_peer)"
proof -
  show 1: "t_step fast_peer (incr_step fast_peer)" by (rule t_step.incr) (simp add: fast_peer_eval)
  show "ts_pc (incr_step fast_peer) = AtPrint (LiveThreads 0) AtAccept" by (simp add: fast_peer_eval incr_step_def)
  show "t_step\<^sup>*\<^sup>* tsrv_init (incr_step fast_peer)" using fast_peer_reach 1 by (rule rtranclp.rtrancl_into_rtrancl)
qed

theorem live_counter_exact_witness:
  "ts_live fast_peer = -1 \<and> live_threads (incr_step fast_peer) = unat (0 :: u32)
   \<and> ts_out (print_step (LiveThreads 0) AtAccept (incr_step fast_peer)) = [LiveThreads 0]"
proof -
  let ?p = "print_step (LiveThreads 0) AtAccept (incr_step fast_peer)"
  have len: "length (ts_threads (incr_step fast_peer)) < 2 ^ 31" "length (ts_threads ?p) < 2 ^ 31"
    by (simp_all add: fast_peer_eval incr_step_def print_step_def)
  have "ts_live fast_peer = int (live_threads fast_peer) - 1" "unat (shown (LiveThreads 0)) = live_threads (incr_step fast_peer)"
    using live_counter_exact [OF fast_peer_reach fast_peer_counted(1) len(1)] fast_peer_counted(2)
    by (auto simp: fast_peer_eval)
  moreover have "ts_out ?p \<noteq> ts_out (incr_step fast_peer)" "ts_out (incr_step fast_peer) = []"
    by (simp_all add: print_step_def incr_step_def fast_peer_eval)
  moreover from this have "ts_out ?p = [LiveThreads 0]"
    using live_counter_exact [OF fast_peer_counted(3) t_step.print [OF fast_peer_counted(2)] len(2)] fast_peer_counted(2)
    by auto
  ultimately show ?thesis by (simp add: live_threads_def fast_peer_eval running_def)
qed

text \<open>
  C32: every accepted descriptor is closed exactly once: under every interleaving the descriptors
  that \<open>accept\<close> has answered are, with multiplicity, those closed so far, those of the threads
  that have not reached their \<open>close\<close>, and the one in the hands of the accepting thread between
  \<open>accept\<close> and the creation of a thread or, when that fails, its own \<open>close\<close>. So once the loop has
  stopped and all threads have finished, the descriptors closed are exactly those accepted.
\<close>

theorem threads_close_once:
  assumes "t_step\<^sup>*\<^sup>* tsrv_init s"
  shows "mset (ts_accepted s) = mset (ts_closed s)
      + image_mset ct_fd (filter_mset holds (mset (ts_threads s))) + mset (main_fd (ts_pc s))
    \<and> (ts_pc s = Stopped \<and> live_threads s = 0 \<longrightarrow> mset (ts_closed s) = mset (ts_accepted s))"
proof -
  have a: "mset (ts_accepted s) = mset (ts_closed s) + held s" by (rule t_reach_held [OF assms])
  have "filter_mset holds (mset (ts_threads s)) = {#}" if "live_threads s = 0"
    using that by (auto simp: live_threads_def filter_empty_conv running_def holds_def filter_mset_eq_conv)
  with a show ?thesis by (auto simp: held_def)
qed

text \<open>A second connection for which no thread can be created.\<close>

definition no_thread :: tsrv where
  "no_thread = close_err_step 6 (print_step (CreateFailed 0) (AtCloseErr 6) (read_live CreateFailed (AtCloseErr 6)
     (create_step 35 6 (accept_step (Ret 6) (print_step (LiveThreads 0) AtAccept (incr_step fast_peer))))))"

lemma no_thread_reach: "t_step\<^sup>*\<^sup>* tsrv_init no_thread"
proof -
  let ?a = "print_step (LiveThreads 0) AtAccept (incr_step fast_peer)"
  let ?b = "accept_step (Ret 6) ?a" let ?c = "create_step 35 6 ?b"
  let ?d = "read_live CreateFailed (AtCloseErr 6) ?c" let ?e = "print_step (CreateFailed 0) (AtCloseErr 6) ?d"
  have "t_step (incr_step fast_peer) ?a" by (rule t_step.print [OF fast_peer_counted(2)])
  moreover have "t_step ?a ?b" by (rule t_step.accept) (simp add: print_step_def)
  moreover have "t_step ?b ?c" by (rule t_step.create) (simp add: accept_step_def)
  moreover have "t_step ?c ?d" by (rule t_step.create_err) (simp add: create_step_def)
  moreover have "t_step ?d ?e" by (rule t_step.print) (simp add: main_steps fast_peer_eval)
  moreover have "t_step ?e no_thread" unfolding no_thread_def by (rule t_step.close_err) (simp add: print_step_def)
  ultimately show ?thesis using fast_peer_counted(3) by (meson rtranclp.rtrancl_into_rtrancl)
qed

theorem threads_close_once_witness:
  "ts_accepted no_thread = [5, 6] \<and> mset (ts_closed no_thread) = {#5, 6#}"
proof -
  have "ts_pc no_thread = AtStop" "ts_threads no_thread = [\<lparr>ct_fd = 5, ct_pc = Ended\<rparr>]" "ts_accepted no_thread = [5, 6]"
    by (simp_all add: no_thread_def main_steps fast_peer_eval)
  with threads_close_once [OF no_thread_reach] show ?thesis by (simp add: holds_def add_mset_commute)
qed

end
