(* ===== verification/Spec2Isabelle.thy ===== *)
theory Spec2Isabelle
  imports Dialogue Server_Types Server_Main Connflood Threaded
begin

text \<open>
  A verification development for the exchange under \<open>src/\<close>: a single-threaded matching server
  driven by kqueue, its two command line clients, and the two tools that measure it.

  \<^bold>\<open>The program.\<close> \<open>src/server.cpp\<close> accepts TCP connections, cuts what they send into lines
  (\<open>framing.hpp\<close>), reads commands (\<open>protocol.hpp\<close>), passes orders to a matching engine
  (\<open>book.hpp\<close>, \<open>book.cpp\<close>) and queues replies, executions and market data on per-connection
  output buffers that are flushed as the sockets allow (\<open>netutil.hpp\<close>). \<open>trader.cpp\<close> and
  \<open>market_data.cpp\<close> are clients over \<open>client_common.hpp\<close>. \<open>tools/connflood.cpp\<close> opens many
  idle connections, \<open>tools/threaded_server.cpp\<close> is a thread-per-connection server that the
  measurements compare with.

  \<^bold>\<open>Theories and what they model.\<close>

  \<^item> \<open>Prelude\<close>: the basic types (\<open>u32\<close>, \<open>fd\<close>, \<open>owner\<close>), \<open>std::string::find\<close>, facts about lists and words.

  \<^item> \<open>Framing\<close>: \<open>LineBuffer\<close> (\<open>next_line\<close> with its three results) and \<open>OutBuffer\<close>, every method. The
    locale \<open>byte_queue\<close> is the interface of the output queue, interpreted on \<open>OutBuffer\<close>.

  \<^item> \<open>Protocol\<close>: \<open>split_ws\<close> as the index walk the code has, \<open>parse_u32\<close>, the instrument table and all
    message builders; \<open>std::to_string\<close> and \<open>std::strtoull\<close> are modelled on decimal digits.

  \<^item> \<open>Book\<close>, \<open>Book_Spec\<close>, \<open>Book_Props\<close>: \<open>Exchange\<close> as a record of the id counter, the order table and the
    four price-indexed books of queues; \<open>submit\<close> with the matching loop, \<open>cancel\<close>. Ids, prices and
    quantities are 32-bit words. \<open>Book_Spec\<close> specifies the engine by a list of resting orders in
    order of arrival and proves the simulation through the locale \<open>matching_engine\<close>.

  \<^item> \<open>Net\<close>: the kernel as a parameter (a queue of answers for each kind of call, and the trace of the
    calls made) and \<open>netutil.hpp\<close> over it.

  \<^item> \<open>Server\<close>, \<open>Server_IO\<close>, \<open>Server_Inv\<close>, \<open>Handlers\<close>, \<open>Output\<close>: connections and the server's tables,
    \<open>queue_out\<close>, \<open>try_flush\<close>, \<open>close_conn\<close>, \<open>reap\<close>, \<open>publish\<close> and the five commands; the invariant
    \<open>sv_inv\<close>, the contracts \<open>server_handler\<close> and \<open>server_output\<close> as locales interpreted on the
    model's operations, and what each operation adds to the byte stream of each client.

  \<^item> \<open>Session_Spec\<close>: the command layer specified without buffers and sockets: a line is a request,
    a request changes a session or the book and sends bytes to clients; \<open>handle_line\<close> refines it.

  \<^item> \<open>Event_Loop\<close>, \<open>Server_Reach\<close>, \<open>Session_Run\<close>, \<open>Server_Props\<close>: \<open>on_accept\<close>, \<open>on_readable\<close>, \<open>on_writable\<close>,
    \<open>run\<close>, \<open>init\<close> and \<open>main\<close>; the step relation of the server with its reachable states; a readable
    event as a sequence of steps of the session specification; the properties of reachable states.

  \<^item> \<open>Server_Filter\<close>: the write filter of each descriptor as the \<open>kevent\<close> calls of the trace set it, and
    that the flag the server keeps agrees with it in every reachable state.

  \<^item> \<open>Server_Bytes\<close>, \<open>Server_Sim\<close>, \<open>Server_Types\<close>: what each event takes from and puts on each
    stream, the specified system as a transition system in which clients arrive, have lines treated and leave,
    and the simulation of every run of the server by a run of that system. The locale
    \<open>world_invariant\<close> carries invariants of the specified system over to the server; it is interpreted
    on the typing of its tables and on the book being uncrossed.

  \<^item> \<open>Server_Main\<close>: runs in which \<open>accept\<close> answers with a descriptor that is not open at that moment, so
    that descriptors come back; only \<open>on_accept\<close> looks at these answers, and the states of such a run
    are reachable once the answers still to come are put aside.

  \<^item> \<open>Stdin\<close>, \<open>Client\<close>: \<open>std::getline\<close> over the blocks that \<open>read\<close> delivers, with the buffer of the
    library in between; \<open>connect_to\<close>, \<open>send_all\<close>, the loop over stdin and the socket, and both programs.

  \<^item> \<open>Connflood\<close>: the arguments, the issuing and the draining loop with its counters, the reports, the release.

  \<^item> \<open>Threaded\<close>: the accepting thread and the connection threads as a step relation, so that every
    interleaving of their shared actions is a run; counting a thread, reading the counter and
    printing what was read are separate steps.

  \<^item> \<open>Dialogue\<close> and this theory: clients and server together.

  \<^bold>\<open>How state and effects correspond.\<close> A struct or class is a record with a field for each member;
  a method is a function on that record that returns the updated record. The members of
  \<open>Server\<close> and the kernel are one record \<open>Server\<close>, with \<open>sv_os\<close> for the kernel. The kernel's answers
  are data: \<open>ans_send\<close>, \<open>ans_recv\<close>, \<open>ans_accept\<close> and \<open>ans_int\<close> are consumed in the order of the calls,
  and \<open>calls\<close> is the trace. A statement for all such records holds for every behaviour of the
  kernel; where the code relies on the kernel (a descriptor just accepted is not one in use, an
  event is reported for a registered descriptor, TCP delivers a prefix of what was sent) the
  statement has this as a hypothesis. The iteration order of \<open>std::unordered_map\<close> is a function in
  the same record, on which nothing is assumed. Exceptions, \<open>std::exit\<close> and early returns are
  values.

  \<^bold>\<open>Loops.\<close> Every loop is a total function. The retry and drain loops end because each turn consumes
  an answer or a buffered line, which is their termination measure; an exhausted queue of
  answers is \<open>EAGAIN\<close>, the point at which the code returns. The event loops take the answers of
  \<open>kevent\<close> and \<open>select\<close> as a list and run for as long as it lasts, so a statement about all lists
  is one about every finite part of an endless run. That work is in fact done is stated
  separately: \<open>writable_drains\<close>, \<open>send_all_delivers\<close>, \<open>flood_reaches_target\<close>.

  \<^bold>\<open>The bounds.\<close> Statements that rest on the specified book hold while fewer than \<open>2^32\<close> orders have been
  submitted, since the code reuses ids after that. For a run of the server the bound is on the
  bytes received: an order takes more than one byte, so that \<open>2^32\<close> bytes are enough for the ids
  not to run out. \<open>submit_id_collision\<close> exhibits a session of \<open>2^32\<close> submits after which they have.
  The owner ids, the threads' counter and the counters of the load generator are mathematical
  integers here; the first two are of type \<open>int\<close> in the code, where leaving the type is undefined,
  so the statements that depend on it (\<open>server_registry\<close>, \<open>owner_identity\<close>, \<open>live_counter_exact\<close>) are
  about fewer than \<open>2^31\<close> connections.

  \<^bold>\<open>What is shown.\<close> The engine does what the arrival-ordered list does, conserves quantity, keeps
  price-time priority, keeps its two indexes consistent and its books uncrossed. The framing
  loses no byte in either direction whatever the sizes of reads and writes. In every reachable
  state of the server names, owner ids and descriptors agree, buffers are bounded, the kernel has
  been told to report writability exactly when output is pending, and an identity is never
  inherited; every event
  does what the session specification says, and every client receives exactly the bytes it
  prescribes, or a prefix if its connection closed. Over whole runs this is one statement,
  \<open>server_simulates_spec\<close>, from which follow that the lines typed at a client are those the server
  treats (\<open>typed_lines_served\<close>), that what it answers is what the client prints (\<open>messages_printed\<close>) and
  that the server's tables are well typed (\<open>server_well_typed\<close>). Clients send what was typed and print what
  was received. The tools' counters are exact, the counts the threaded server prints were right when
  it read them, and it closes every descriptor it accepted once. Several statements record behaviour that differs
  from what comments or the purpose of the code suggest: \<open>submit_id_collision\<close>,
  \<open>closing_still_serves\<close>, \<open>fin_discards_pending\<close>, \<open>lines_held_back\<close>, \<open>failed_connect_forgets\<close>, \<open>flood_no_batch\<close>,
  \<open>interrupted_says_reached\<close>.

  \<^bold>\<open>Not modelled.\<close> The diagnostics of the server and the clients on stderr and the \<open>-v\<close> log; in the tools'
  reports the times and the texts of error numbers; signal handlers other than the flag they
  set, thread attributes, the size of memory. \<open>SO_ERROR\<close> and the events themselves are arguments. A \<open>kevent\<close> call that changes a filter is
  taken to have done so: the code does not look at its answer. The scripts that build, start and measure the
  programs, the recorded data and the documents have no logic of the exchange.
\<close>

section \<open>Demonstration data\<close>

text \<open>
  The client behind connection 7 of the demonstration run: its standard input arrives in two
  blocks, the second of which ends one line and holds another.
\<close>

definition alice_argv :: "string list" where
  "alice_argv = [''trader_client'', ''127.0.0.1'', ''5000'', ''alice'']"

definition alice_reads :: "string list" where
  "alice_reads = [''SELL JNST'', '' 5 100'' @ [NL] @ ''BUY JNST 2 100'' @ [NL]]"

definition alice_os :: os where
  "alice_os = \<lparr>ans_send = [Ret 100, Fail EINTR, Ret 100, Ret 100], ans_recv = [], ans_accept = [], ans_int = [Ret 5, Ret 1, Ret 0],
     bucket_order = (\<lambda>_ ks. ks), calls = []\<rparr>"

lemma alice_run:
  "\<exists>w1 w' c. connect_to (alice_argv ! 1) (alice_argv ! 2) alice_os = (Some 5, w1)
     \<and> trader_main alice_argv [Ret (True, False), Ret (True, False)] alice_reads alice_os = (0, w', Some c)
     \<and> sent 5 (calls w') = ''LOGIN alice'' @ [NL] @ ''SELL JNST 5 100'' @ [NL] @ ''BUY JNST 2 100'' @ [NL]"
  by (simp add: alice_argv_def alice_os_def alice_reads_def connect_to_def trader_main_def sys_int_def log_call_def send_all.simps
      sys_send_def client_loop_def client_turn_def client_stdin_def stdin_open_def getline.simps)

section \<open>Commands\<close>

text \<open>
  C17: commands are read back as they were written: on a connection whose client may give it, a
  line with an instrument by name and numbers in decimal makes the server do exactly what the
  command says. \<open>BUY\<close> and \<open>SELL\<close> with quantity and price within the limits submit that order of the
  client on that side, acknowledge it and publish its trades; \<open>CANCEL\<close> withdraws that order or
  passes on the reason; \<open>SUBSCRIBE\<close> and \<open>UNSUBSCRIBE\<close> switch that instrument; \<open>LOGIN\<close> with a word not
  in use registers it; \<open>QUIT\<close> drains and closes.
\<close>

theorem commands_understood:
  assumes c: "sv_conns s f = Some c" and i: "inst = 0 \<or> inst = 1"
    and q: "kMinValue \<le> qty" "qty \<le> kMaxValue" and p: "kMinValue \<le> price" "price \<le> kMaxValue"
    and j: "j \<le> kMaxOrderId" and u: "u \<noteq> []" "\<forall>x \<in> set u. \<not> is_ws x"
  shows "(c_role c = Trader \<longrightarrow>
      handle_line f (''BUY'' @ SP # inst_name inst @ SP # to_string qty @ SP # to_string price) s =
        (case submit Buy inst qty price (c_owner_id c) [] (sv_exch s) of (n, ts, ex) \<Rightarrow>
           fold publish ts (queue_out f (msg_order_accepted n) (s\<lparr>sv_exch := ex\<rparr>)))
    \<and> handle_line f (''SELL'' @ SP # inst_name inst @ SP # to_string qty @ SP # to_string price) s =
        (case submit Sell inst qty price (c_owner_id c) [] (sv_exch s) of (n, ts, ex) \<Rightarrow>
           fold publish ts (queue_out f (msg_order_accepted n) (s\<lparr>sv_exch := ex\<rparr>)))
    \<and> handle_line f (''CANCEL'' @ SP # to_string j) s =
        (case cancel j (c_owner_id c) (sv_exch s) of
           Inl e \<Rightarrow> queue_out f (msg_error e) s
         | Inr ex \<Rightarrow> queue_out f (msg_order_cancelled j) (s\<lparr>sv_exch := ex\<rparr>)))
    \<and> (c_role c \<noteq> Trader \<longrightarrow>
      handle_line f (''SUBSCRIBE'' @ SP # inst_name inst) s =
        queue_out f msg_ok (upd_conn f (\<lambda>c. c\<lparr>c_role := MarketData, c_subs := (c_subs c)(inst := True)\<rparr>) s)
    \<and> handle_line f (''UNSUBSCRIBE'' @ SP # inst_name inst) s =
        queue_out f msg_ok (upd_conn f (\<lambda>c. c\<lparr>c_role := MarketData, c_subs := (c_subs c)(inst := False)\<rparr>) s))
    \<and> (c_role c = Unknown \<and> u \<notin> sv_usernames s \<longrightarrow>
      handle_line f (''LOGIN'' @ SP # u) s =
        queue_out f msg_ok ((upd_conn f (\<lambda>c. c\<lparr>c_role := Trader, c_username := u\<rparr>) s)\<lparr>
          sv_usernames := insert u (sv_usernames s), sv_owner_fd := (sv_owner_fd s)(c_owner_id c \<mapsto> c_fd c)\<rparr>))
    \<and> handle_line f ''QUIT'' s = try_flush f (upd_conn f (\<lambda>c. c\<lparr>c_closing := True\<rparr>) s)"
proof (intro conjI impI)
  note h = handle_line_serve [OF c] and d = serve_def do_login_def do_listen_def
  {
    assume r: "c_role c = Trader"
    show "handle_line f (''BUY'' @ SP # inst_name inst @ SP # to_string qty @ SP # to_string price) s =
        (case submit Buy inst qty price (c_owner_id c) [] (sv_exch s) of (n, ts, ex) \<Rightarrow>
           fold publish ts (queue_out f (msg_order_accepted n) (s\<lparr>sv_exch := ex\<rparr>)))"
      "handle_line f (''SELL'' @ SP # inst_name inst @ SP # to_string qty @ SP # to_string price) s =
        (case submit Sell inst qty price (c_owner_id c) [] (sv_exch s) of (n, ts, ex) \<Rightarrow>
           fold publish ts (queue_out f (msg_order_accepted n) (s\<lparr>sv_exch := ex\<rparr>)))"
      unfolding h r order_request [OF i q p] by (simp_all add: d)
    show "handle_line f (''CANCEL'' @ SP # to_string j) s =
        (case cancel j (c_owner_id c) (sv_exch s) of Inl e \<Rightarrow> queue_out f (msg_error e) s
         | Inr ex \<Rightarrow> queue_out f (msg_order_cancelled j) (s\<lparr>sv_exch := ex\<rparr>))"
      unfolding h r cancel_request [OF j] by (simp add: d)
  next
    assume r: "c_role c \<noteq> Trader"
    show "handle_line f (''SUBSCRIBE'' @ SP # inst_name inst) s =
        queue_out f msg_ok (upd_conn f (\<lambda>c. c\<lparr>c_role := MarketData, c_subs := (c_subs c)(inst := True)\<rparr>) s)"
      "handle_line f (''UNSUBSCRIBE'' @ SP # inst_name inst) s =
        queue_out f msg_ok (upd_conn f (\<lambda>c. c\<lparr>c_role := MarketData, c_subs := (c_subs c)(inst := False)\<rparr>) s)"
      unfolding h listen_request [OF i r] by (simp_all add: d)
  next
    assume r: "c_role c = Unknown \<and> u \<notin> sv_usernames s"
    show "handle_line f (''LOGIN'' @ SP # u) s =
        queue_out f msg_ok ((upd_conn f (\<lambda>c. c\<lparr>c_role := Trader, c_username := u\<rparr>) s)\<lparr>
          sv_usernames := insert u (sv_usernames s), sv_owner_fd := (sv_owner_fd s)(c_owner_id c \<mapsto> c_fd c)\<rparr>)"
      unfolding h conjunct1 [OF r] login_request [OF u] using r by (simp add: d)
  }
  show "handle_line f ''QUIT'' s = try_flush f (upd_conn f (\<lambda>c. c\<lparr>c_closing := True\<rparr>) s)"
    unfolding h quit_request by (simp add: d cmd_quit_def)
qed

theorem commands_understood_witness:
  "handle_line 7 (''BUY'' @ SP # inst_name 0 @ SP # to_string 2 @ SP # to_string 100) demo_s1 =
    (case submit Buy 0 2 100 1 [] (sv_exch demo_s1) of (n, ts, ex) \<Rightarrow>
       fold publish ts (queue_out 7 (msg_order_accepted n) (demo_s1\<lparr>sv_exch := ex\<rparr>)))"
proof -
  let ?c = "demo_conn 7 1 Trader ''alice'' (\<lambda>_. False) ''BUY JN''"
  have c: "sv_conns demo_s1 7 = Some ?c" "c_role ?c = Trader" "c_owner_id ?c = 1" by (simp_all add: demo_s1_fields demo_conn_def)
  have l: "kMinValue \<le> 2" "2 \<le> kMaxValue" "kMinValue \<le> 100" "100 \<le> kMaxValue" "0 \<le> kMaxOrderId"
    by (simp_all add: kMinValue_def kMaxValue_def)
  have u: "''bob'' \<noteq> []" "\<forall>x \<in> set ''bob''. \<not> is_ws x" by (simp_all add: is_ws_def)
  from commands_understood [OF c(1) disjI1 [OF refl] l u] c(2,3) show ?thesis by simp
qed

section \<open>From the keyboard to the book and back\<close>

text \<open>
  C7: from the keyboard to the book, over a whole run: when the bytes that a connection of the
  server has received since it was accepted are a prefix of what a trader client sent, however
  either kernel cut them and whatever the other clients did, then the run of the server is
  matched by a run of the specified system in which the lines treated for that connection are,
  in order and each once, a prefix of \<open>LOGIN name\<close>, the lines of the client's standard input, and
  \<open>QUIT\<close>, and nothing else; while the connection is served they are all the lines received.
\<close>

theorem typed_lines_served:
  assumes cl: "connect_to (argv ! 1) (argv ! 2) w = (Some cf, w1)" "trader_main argv turns reads w = (code, w', Some cs)"
    and new: "calls w = []" and nl: "NL \<notin> set (argv ! 3)"
    and sv: "served n got s" "n < 2 ^ 32" "sv_conns s f = Some c"
    and tcp: "prefix (got f) (sent cf (calls w'))"
  shows "\<exists>wd. world_step\<^sup>*\<^sup>* world_init wd \<and> refines s (wd_srv wd)
    \<and> prefix (lines_of (wd_in wd f)) (map strip_cr ((''LOGIN '' @ argv ! 3) # text_lines (typed_text reads) @ [''QUIT'']))
    \<and> (\<not> c_dead c \<and> \<not> c_closing c \<longrightarrow> lines_of (wd_in wd f) = lines (got f))"
proof -
  let ?l = "''LOGIN '' @ argv ! 3"
  let ?all = "?l @ NL # typed_bytes (text_lines (typed_text reads))"
  obtain wd where wd: "world_step\<^sup>*\<^sup>* world_init wd" "tracks got s wd" using served_tracks [OF sv(1,2)] by blast
  have r: "remains f (lines_of (wd_in wd f)) (got f) s" "c_dead c \<or> c_closing c \<or> wd_in wd f = map Line (lines (got f))"
    using wd(2) sv(3) by (auto simp: tracks_def)
  have "prefix (sent cf (calls w')) ?all" using trader_sent [OF cl] by (simp only: new sent.simps append_Nil)
  then have "prefix (lines (got f)) (lines ?all)" using prefix_order.trans [OF tcp] by (blast intro: lines_prefix)
  moreover have "lines ?all = map strip_cr (?l # text_lines (typed_text reads) @ [''QUIT''])"
    by (rule lines_first) (use nl in simp)
  ultimately have "prefix (lines_of (wd_in wd f)) (map strip_cr (?l # text_lines (typed_text reads) @ [''QUIT'']))"
    using prefix_order.trans [OF remains_prefix [OF r(1)]] by (simp only:)
  with wd r(2) show ?thesis by (auto simp: tracks_def)
qed

theorem typed_lines_served_witness:
  "\<exists>wd. world_step\<^sup>*\<^sup>* world_init wd \<and> refines demo_s1 (wd_srv wd)
    \<and> lines_of (wd_in wd 7) = [''LOGIN alice'', ''SELL JNST 5 100'']"
proof -
  obtain n got where s: "served n got demo_s1" "n < 2 ^ 32"
    and g: "got 7 = ''LOGIN alice'' @ [NL] @ ''SELL JNST 5 100'' @ [NL] @ ''BUY JN''" using demo_served by blast
  obtain w1 w' c where a: "connect_to (alice_argv ! 1) (alice_argv ! 2) alice_os = (Some 5, w1)"
    "trader_main alice_argv [Ret (True, False), Ret (True, False)] alice_reads alice_os = (0, w', Some c)"
    "sent 5 (calls w') = ''LOGIN alice'' @ [NL] @ ''SELL JNST 5 100'' @ [NL] @ ''BUY JNST 2 100'' @ [NL]"
    using alice_run by blast
  have n: "calls alice_os = []" "NL \<notin> set (alice_argv ! 3)" by (simp_all add: alice_os_def alice_argv_def)
  have c: "sv_conns demo_s1 7 = Some (demo_conn 7 1 Trader ''alice'' (\<lambda>_. False) ''BUY JN'')" by (simp add: demo_s1_fields)
  have "prefix (got 7) (sent 5 (calls w'))" by (simp add: g a(3))
  from typed_lines_served [OF a(1,2) n s c this]
  obtain wd where "world_step\<^sup>*\<^sup>* world_init wd" "refines demo_s1 (wd_srv wd)" "lines_of (wd_in wd 7) = lines (got 7)"
    by (auto simp: demo_conn_def)
  moreover have "lines (got 7) = [''LOGIN alice'', ''SELL JNST 5 100'']" by (simp add: g lines_def strip_cr_def)
  ultimately show ?thesis by auto
qed

text \<open>
  C8: from the server to the screen, over a whole run: what the server has put on a connection is
  a prefix of what the specified system has answered it, and all of it while the connection lives;
  those answers are a sequence of well-formed messages; and a client that receives a prefix of what
  the server has put on the connection, cut into reads in any way and interleaved with typing,
  prints lines whose fields are those of a prefix of these messages.
\<close>

theorem messages_printed:
  assumes "served n got s" and "n < 2 ^ 32" and "sv_conns s f = Some x"
    and "prefix (recvd (ans_recv w)) (received f s)" and "client_loop cf turns reads w = (going, c)"
  shows "\<exists>wd ms. world_step\<^sup>*\<^sup>* world_init wd \<and> refines s (wd_srv wd) \<and> (\<forall>m \<in> set ms. wire_ok m)
    \<and> wd_out wd f = concat (map render ms) \<and> prefix (received f s) (concat (map render ms))
    \<and> (\<not> c_dead x \<longrightarrow> received f s = concat (map render ms)) \<and> prefix (map split_ws (cl_printed c)) (map msg_fields ms)"
proof -
  obtain wd where wd: "world_step\<^sup>*\<^sup>* world_init wd" "tracks got s wd" using served_tracks [OF assms(1,2)] by blast
  obtain ms where ms: "\<forall>m \<in> set ms. printable m" "wd_out wd f = concat (map render ms)"
    using world_messages [OF wd(1)] unfolding messages_def by blast
  obtain ls where ls: "lines (wd_out wd f) = ls" "map c_str ls = ls" "map tokens ls = map msg_fields ms"
    using messages_lines [OF ms(1)] ms(2) by auto
  obtain used where u: "ans_recv w = used @ ans_recv (cl_os c)" "cl_printed c = map c_str (lines (recvd used))"
    using client_turns_printed [of "\<lparr>cl_os = w, cl_in = lb_init, cl_stdin_open = True, cl_stdin = stdin_open reads, cl_printed = []\<rparr>" cf turns] assms(5)
    by (auto simp: client_loop_def printed_def lb_init_def)
  have "prefix (recvd used) (received f s)" using assms(4) u(1) by (metis append_prefixD recvd_append)
  also have "prefix \<dots> (wd_out wd f)" using wd(2) by (simp add: tracks_def)
  finally have "prefix (lines (recvd used)) (lines (wd_out wd f))" by (rule lines_prefix)
  then have "prefix (lines (recvd used)) ls" by (simp add: ls(1))
  from map_mono_prefix [OF map_mono_prefix [OF this, of c_str], of split_ws]
  have "prefix (map split_ws (cl_printed c)) (map split_ws ls)" by (simp add: u(2) ls(2))
  moreover have "prefix (received f s) (wd_out wd f)" "\<not> c_dead x \<longrightarrow> received f s = wd_out wd f"
    using wd(2) assms(3) by (simp_all add: tracks_def live_def)
  moreover have "refines s (wd_srv wd)" "\<forall>m \<in> set ms. wire_ok m" using wd(2) ms(1) by (simp_all add: tracks_def printable_def)
  ultimately show ?thesis using wd(1) ms(2) ls(3) by (intro exI [of _ wd] exI [of _ ms]) (simp add: split_ws_eq)
qed

theorem messages_printed_witness:
  "\<exists>c. client_loop 5 [Ret (False, True)] [] (alice_os\<lparr>ans_recv := [Ret msg_ok]\<rparr>) = (True, c)
     \<and> map split_ws (cl_printed c) = [[''OK'']]
     \<and> (\<exists>ms. received 7 demo_s1 = concat (map render ms) \<and> prefix (map split_ws (cl_printed c)) (map msg_fields ms))"
proof -
  obtain n got where s: "served n got demo_s1" "n < 2 ^ 32" using demo_served by blast
  have x: "sv_conns demo_s1 7 = Some (demo_conn 7 1 Trader ''alice'' (\<lambda>_. False) ''BUY JN'')" by (simp add: demo_s1_fields)
  obtain r c where l: "client_loop 5 [Ret (False, True)] [] (alice_os\<lparr>ans_recv := [Ret msg_ok]\<rparr>) = (r, c)"
    by (metis prod.exhaust)
  have c: "r" "cl_printed c = [''OK'']"
    using l by (auto simp: client_loop_def client_turn_def client_recv_def sys_recv_def alice_os_def msg_ok_def lb_init_def
        lb_append_def drain_lines_split strip_cr_def c_str_def)
  have "prefix (recvd (ans_recv (alice_os\<lparr>ans_recv := [Ret msg_ok]\<rparr>))) (received 7 demo_s1)"
    by (simp add: demo_received msg_ok_def)
  from messages_printed [OF s x this l] have
    "\<exists>ms. received 7 demo_s1 = concat (map render ms) \<and> prefix (map split_ws (cl_printed c)) (map msg_fields ms)"
    by (auto simp: demo_conn_def)
  moreover have "map split_ws (cl_printed c) = [[''OK'']]" by (simp add: c split_ws_eq tokens.simps is_ws_def)
  moreover from l c(1) have "client_loop 5 [Ret (False, True)] [] (alice_os\<lparr>ans_recv := [Ret msg_ok]\<rparr>) = (True, c)"
    by (simp only:)
  ultimately show ?thesis by (intro exI [of _ c] conjI)
qed

section \<open>The server program\<close>

text \<open>
  C28: \<open>main\<close> of the server: either the set-up fails, the exit code is 1 and nothing was accepted or
  received, or the state after any number of turns of the event loop is, but for the answers of
  \<open>accept\<close> that are still to come, one the server can reach, to which all statements about
  reachable states apply, and if the kernel delivers fewer than \<open>2^32\<close> bytes altogether it is
  matched by a run of the specified system that has answered every client what the server put
  on its connection. Of the kernel it is assumed that \<open>accept\<close>, each time it is called, answers
  with a descriptor that is not open then; a descriptor may come back after it has been closed.
\<close>

theorem server_main_serves:
  assumes "server_main argv turns w = (code, s)" and "calls w = []"
    and "\<forall>s0. init (server_new (sa_ip (server_args argv)) (sa_port (server_args argv)) w) = (True, s0) \<longrightarrow> run_new turns s0"
  shows "code = 0 \<and> srv_reach (with_accepts [] s)
      \<and> (length (recvd (ans_recv w)) < 2 ^ 32 \<longrightarrow>
          (\<exists>wd. world_step\<^sup>*\<^sup>* world_init wd \<and> refines s (wd_srv wd)
            \<and> (\<forall>f. prefix (received f s) (wd_out wd f) \<and> (live f s \<longrightarrow> received f s = wd_out wd f))))
    \<or> code = 1 \<and> sv_conns s = Map.empty \<and> ans_accept (sv_os s) = ans_accept w \<and> ans_recv (sv_os s) = ans_recv w"
proof -
  obtain ok s0 where i: "init (server_new (sa_ip (server_args argv)) (sa_port (server_args argv)) w) = (ok, s0)"
    by (metis prod.exhaust)
  note fr = init_frame [OF i]
  show ?thesis
  proof (cases ok)
    case True
    have s: "code = 0" "s = run turns s0" using assms(1) i True by (auto simp: server_main_def Let_def)
    have "served_apart (length (recvd (ans_recv w))) s0" using apart_start i True assms(2) fr by metis
    then have "served_apart (length (recvd (ans_recv w))) s" unfolding s(2) using apart_run assms(3) i True by simp
    then obtain n got where n: "served n got (with_accepts [] s)" "n \<le> length (recvd (ans_recv w))"
      unfolding served_apart_def served_upto_def by (metis le_add1)
    have a: "refines (with_accepts [] s) = refines s" "received f (with_accepts [] s) = received f s"
      "live f (with_accepts [] s) = live f s" for f
      by (simp_all add: refines_def abs_sess_def received_def live_def fun_eq_iff)
    have "\<exists>wd. world_step\<^sup>*\<^sup>* world_init wd \<and> tracks got (with_accepts [] s) wd" if "length (recvd (ans_recv w)) < 2 ^ 32"
      using served_tracks [OF n(1)] n(2) that by auto
    with s(1) served_reach [OF n(1)] show ?thesis by (fastforce simp: tracks_def a)
  next
    case False
    then show ?thesis using assms(1) i fr by (auto simp: server_main_def Let_def)
  qed
qed

theorem server_main_serves_witness:
  "\<exists>s c. server_main [] reuse_turns reuse_os = (0, s) \<and> closed (calls (sv_os s)) = [7] \<and> sv_conns s 7 = Some c
     \<and> c_owner_id c = 2 \<and> srv_reach (with_accepts [] s)"
proof -
  obtain s0 s c where r: "init (server_new ''127.0.0.1'' 5000 reuse_os) = (True, s0)" "run_new reuse_turns s0"
    "run reuse_turns s0 = s" "sv_conns s 7 = Some c" "c_owner_id c = 2" "closed (calls (sv_os s)) = [7]"
    using reuse_run by blast
  have a: "server_args [] = \<lparr>sa_verbose = False, sa_ip = ''127.0.0.1'', sa_port = 5000, sa_positional = 0\<rparr>"
    by (simp add: server_args_def)
  have m: "server_main [] reuse_turns reuse_os = (0, s)" using r(1,3) by (simp add: server_main_def a)
  have "calls reuse_os = []" by (simp add: reuse_os_def)
  from server_main_serves [OF m this] r a m show ?thesis by auto
qed

end
